(* ===== verification/Prelude.thy ===== *)
theory Prelude
  imports Main "HOL-Library.Word"
begin

unbundle bit_operations_syntax

text \<open>
  Shared ground of the AetherOS development: the names of the machine integer types, the
  C \<open>for\<close> loop that searches a static array, the ring of cells behind every queue of the kernel,
  the counting lemmas on such arrays, and the lemmas on words the components share.

  A static C array is a function from its index to its cell; every access of the model is made
  by a loop over the declared bound or after the check the source makes, so no read leaves the
  array. Integers that wrap in the source are words of the source's width.
\<close>

section \<open>Types of \<open>include/types.h\<close>\<close>

type_synonym u8 = "8 word"
type_synonym u16 = "16 word"
type_synonym u32 = "32 word"
type_synonym u64 = "64 word"

text \<open>The collections that the component proofs hand to the simplifier.\<close>

named_theorems loop_eval \<open>evaluation rules for loops over static arrays\<close>
named_theorems kdef \<open>definitions of the operations of a component\<close>
named_theorems frame \<open>what an operation leaves unchanged\<close>

section \<open>Searching a static array\<close>

text \<open>
  \<open>for (i = i; i < n; i++) if (P i) return i;\<close> with \<open>None\<close> for the fall-through.
\<close>

function for_find :: "(nat \<Rightarrow> bool) \<Rightarrow> nat \<Rightarrow> nat \<Rightarrow> nat option" where
  "for_find P i n = (if i < n then (if P i then Some i else for_find P (Suc i) n) else None)"
  by pat_completeness auto
termination
  by (relation "measure (\<lambda>(P, i, n). n - i)") auto

declare for_find.simps [simp del]

lemma for_find_hit [loop_eval]: "i < n \<Longrightarrow> P i \<Longrightarrow> for_find P i n = Some i"
  by (simp add: for_find.simps [of P i n])

lemma for_find_skip [loop_eval]:
  "i < n \<Longrightarrow> \<not> P i \<Longrightarrow> for_find P i n = for_find P (Suc i) n"
  by (simp add: for_find.simps [of P i n])

lemma for_find_stop [loop_eval]: "\<not> i < n \<Longrightarrow> for_find P i n = None"
  by (simp add: for_find.simps [of P i n])

lemma for_find_SomeD:
  "for_find P i n = Some k \<Longrightarrow> i \<le> k \<and> k < n \<and> P k \<and> (\<forall>j. i \<le> j \<and> j < k \<longrightarrow> \<not> P j)"
proof (induction P i n rule: for_find.induct)
  case (1 P i n)
  show ?case
  proof (cases "i < n \<and> \<not> P i")
    case True
    with "1.prems" have "for_find P (Suc i) n = Some k" by (simp add: for_find_skip)
    with "1.IH" True have IH: "Suc i \<le> k \<and> k < n \<and> P k \<and> (\<forall>j. Suc i \<le> j \<and> j < k \<longrightarrow> \<not> P j)"
      by simp
    with True show ?thesis
      by (metis Suc_leD le_neq_implies_less less_eq_Suc_le)
  next
    case False
    with "1.prems" show ?thesis
      by (cases "i < n") (auto simp: for_find_hit for_find_stop)
  qed
qed

lemma for_find_None_iff: "for_find P i n = None \<longleftrightarrow> (\<forall>j. i \<le> j \<and> j < n \<longrightarrow> \<not> P j)"
proof (induction P i n rule: for_find.induct)
  case (1 P i n)
  show ?case
  proof (cases "i < n \<and> \<not> P i")
    case True
    with "1.IH" have "for_find P (Suc i) n = None \<longleftrightarrow> (\<forall>j. Suc i \<le> j \<and> j < n \<longrightarrow> \<not> P j)"
      by simp
    with True show ?thesis
      by (metis for_find_skip Suc_leD le_neq_implies_less less_eq_Suc_le)
  next
    case False
    then show ?thesis
      by (cases "i < n") (auto simp: for_find_hit for_find_stop)
  qed
qed

lemma for_find_Some_iff:
  "for_find P 0 n = Some k \<longleftrightarrow> k < n \<and> P k \<and> (\<forall>j<k. \<not> P j)"
proof
  assume "for_find P 0 n = Some k"
  then show "k < n \<and> P k \<and> (\<forall>j<k. \<not> P j)" using for_find_SomeD by fastforce
next
  assume k: "k < n \<and> P k \<and> (\<forall>j<k. \<not> P j)"
  then obtain m where m: "for_find P 0 n = Some m"
    using for_find_None_iff [of P 0 n] by (cases "for_find P 0 n") auto
  from for_find_SomeD [OF m] have "P m" "\<forall>j<m. \<not> P j" by auto
  with k have "m = k" by (metis linorder_neqE_nat)
  with m show "for_find P 0 n = Some k" by simp
qed

lemma for_find_unique:
  assumes "k < n" "P k" "\<And>j. j < n \<Longrightarrow> P j \<Longrightarrow> j = k"
  shows "for_find P 0 n = Some k"
proof -
  have "\<forall>j<k. \<not> P j" using assms less_trans by blast
  with assms(1,2) show ?thesis by (simp add: for_find_Some_iff)
qed

lemma for_find_ex: "k < n \<Longrightarrow> P k \<Longrightarrow> \<exists>m. for_find P 0 n = Some m"
  using for_find_None_iff [of P 0 n] by (cases "for_find P 0 n") auto

lemma for_find_cong:
  "(\<And>j. i \<le> j \<Longrightarrow> j < n \<Longrightarrow> P j = Q j) \<Longrightarrow> for_find P i n = for_find Q i n"
proof (induction P i n rule: for_find.induct)
  case (1 P i n)
  then show ?case
    by (cases "i < n"; cases "P i") (auto simp: loop_eval)
qed

section \<open>Counting the cells of an array\<close>

text \<open>How many cells below \<open>n\<close> satisfy \<open>P\<close>.\<close>

definition cells :: "(nat \<Rightarrow> bool) \<Rightarrow> nat \<Rightarrow> nat" where
  "cells P n = card {i. i < n \<and> P i}"

lemma cells_le: "cells P n \<le> n"
proof -
  have "cells P n \<le> card {i. i < n}" unfolding cells_def by (rule card_mono) auto
  then show ?thesis by simp
qed

lemma cells_cong: "(\<And>i. i < n \<Longrightarrow> P i = Q i) \<Longrightarrow> cells P n = cells Q n"
  unfolding cells_def by (rule arg_cong [where f = card]) auto

lemma cells_set:
  assumes "k < n" "\<not> P k" "Q k" "\<And>i. i \<noteq> k \<Longrightarrow> Q i = P i"
  shows "cells Q n = Suc (cells P n)"
proof -
  have "{i. i < n \<and> Q i} = insert k {i. i < n \<and> P i}" using assms by (intro set_eqI) (case_tac "x = k"; simp)
  then show ?thesis using assms unfolding cells_def by simp
qed

lemma cells_clear:
  assumes "k < n" "P k" "\<not> Q k" "\<And>i. i \<noteq> k \<Longrightarrow> Q i = P i"
  shows "Suc (cells Q n) = cells P n"
  using assms cells_set [of k n Q P] by auto

lemma cells_pos: "k < n \<Longrightarrow> P k \<Longrightarrow> 0 < cells P n"
  unfolding cells_def by (rule card_gt_0_iff [THEN iffD2]) auto

lemma cells_mono: "(\<And>i. i < n \<Longrightarrow> P i \<Longrightarrow> Q i) \<Longrightarrow> cells P n \<le> cells Q n"
  unfolding cells_def by (rule card_mono) auto

lemma cells_none: "(\<And>i. i < n \<Longrightarrow> \<not> P i) \<Longrightarrow> cells P n = 0"
  unfolding cells_def by (simp add: Collect_empty_eq)

lemma cells_all: "(\<And>i. i < n \<Longrightarrow> P i) \<Longrightarrow> cells P n = n"
proof -
  assume "\<And>i. i < n \<Longrightarrow> P i"
  then have "{i. i < n \<and> P i} = {..<n}" by auto
  then show ?thesis unfolding cells_def by simp
qed

lemma cells_full: "cells P n = n \<Longrightarrow> i < n \<Longrightarrow> P i"
proof (rule ccontr)
  assume a: "cells P n = n" "i < n" "\<not> P i"
  then have "{j. j < n \<and> P j} \<subset> {..<n}" by auto
  then have "card {j. j < n \<and> P j} < card {..<n}" by (rule psubset_card_mono [rotated]) simp
  with a(1) show False unfolding cells_def by simp
qed

section \<open>Words\<close>

lemma unat_u64_less: "unat (w :: u64) < 2 ^ 64"
  using unsigned_less [of w, where 'a = nat] by simp

lemma unat_u32_less: "unat (w :: u32) < 2 ^ 32"
  using unsigned_less [of w, where 'a = nat] by simp

lemma unat_of_nat_u32: "n < 2 ^ 32 \<Longrightarrow> unat (of_nat n :: u32) = n"
  by (simp add: unat_of_nat)

lemma unat_of_nat_u64: "n < 2 ^ 64 \<Longrightarrow> unat (of_nat n :: u64) = n"
  by (simp add: unat_of_nat)

lemma unat_u64_add: "unat (a + b :: u64) = (unat a + unat b) mod 2 ^ 64"
  by (simp add: unat_word_ariths)

lemma unat_Suc_no_wrap: "(w :: 'a::len word) \<noteq> - 1 \<Longrightarrow> unat (w + 1) = Suc (unat w)"
  by (metis add.commute add_eq_0_iff unatSuc)

lemma unat_minus_1: "(w :: 'a::len word) \<noteq> 0 \<Longrightarrow> unat (w - 1) = unat w - 1"
  by (metis unat_minus_one)

lemma of_nat_Suc_minus: "(of_nat (Suc n) :: 'a::len word) - 1 = of_nat n"
  by simp

lemma word_and_not_zero_iff:
  "(a :: 'a::len word) AND NOT b = 0 \<longleftrightarrow> (\<forall>n. bit a n \<longrightarrow> bit b n)"
  by (auto simp: bit_eq_iff bit_simps dest: bit_imp_le_length)

lemma word_subset_trans:
  "(a :: 'a::len word) AND NOT b = 0 \<Longrightarrow> b AND NOT c = 0 \<Longrightarrow> a AND NOT c = 0"
  by (simp add: word_and_not_zero_iff)

text \<open>\<open>ALIGN_UP\<close> and \<open>ALIGN_DOWN\<close> of \<open>include/types.h\<close> on 64-bit values.\<close>

definition ALIGN_UP :: "u64 \<Rightarrow> u64 \<Rightarrow> u64" where
  "ALIGN_UP x a = (x + (a - 1)) AND NOT (a - 1)"

definition ALIGN_DOWN :: "u64 \<Rightarrow> u64 \<Rightarrow> u64" where
  "ALIGN_DOWN x a = x AND NOT (a - 1)"

section \<open>The tick counter\<close>

text \<open>\<open>tick_count\<close> of \<open>drivers/timer.c\<close>, which \<open>timer_get_ticks\<close> returns; every kernel state has it.\<close>

record kbase =
  tick_count :: u64

section \<open>Calls that may crash\<close>

text \<open>\<open>Panic\<close> stands for \<open>kpanic\<close> and for an access outside the memory the code owns.\<close>

datatype 'r outcome = Panic | Done 'r

end
