(* ===== verification/Libc_String.thy ===== *)
theory Libc_String
  imports Prelude
begin

text \<open>
  \<open>libc/string.c\<close>: the memory functions on an explicit byte memory, with the word-at-a-time
  fast paths of the source, and the string functions on NUL-terminated strings.

  A memory is a function from 64-bit addresses to bytes, so the overlap of two regions is visible.
  A C string is the list of the characters before its terminating NUL; reading at its end gives
  the NUL (\<open>chd\<close>). A character buffer is a list of its cells.
\<close>

section \<open>Memory functions\<close>

type_synonym mem = "u64 \<Rightarrow> u8"

text \<open>\<open>*(uint64_t* )a = w\<close>: eight bytes, little endian.\<close>

definition store64 :: "mem \<Rightarrow> u64 \<Rightarrow> u64 \<Rightarrow> mem" where
  "store64 m a w = (\<lambda>x. if unat (x - a) < 8 then ucast (drop_bit (8 * unat (x - a)) w) else m x)"

text \<open>\<open>*(uint64_t* )d = *(uint64_t* )s\<close>: all eight bytes are read before any is written.\<close>

definition copy8 :: "mem \<Rightarrow> u64 \<Rightarrow> u64 \<Rightarrow> mem" where
  "copy8 m d s = (\<lambda>x. if unat (x - d) < 8 then m (s + (x - d)) else m x)"

definition fill64 :: "u8 \<Rightarrow> u64" where
  "fill64 v = (let w = ucast v :: u64 in
     w OR push_bit 8 w OR push_bit 16 w OR push_bit 24 w OR push_bit 32 w
       OR push_bit 40 w OR push_bit 48 w OR push_bit 56 w)"

fun memset_head :: "mem \<Rightarrow> u64 \<Rightarrow> u8 \<Rightarrow> nat \<Rightarrow> mem \<times> u64 \<times> nat" where
  "memset_head m d v n =
     (if 0 < n \<and> d AND 7 \<noteq> 0 then memset_head (m(d := v)) (d + 1) v (n - 1) else (m, d, n))"

fun memset_words :: "mem \<Rightarrow> u64 \<Rightarrow> u64 \<Rightarrow> nat \<Rightarrow> mem \<times> u64 \<times> nat" where
  "memset_words m d w n =
     (if 8 \<le> n then memset_words (store64 m d w) (d + 8) w (n - 8) else (m, d, n))"

fun memset_tail :: "mem \<Rightarrow> u64 \<Rightarrow> u8 \<Rightarrow> nat \<Rightarrow> mem" where
  "memset_tail m d v n = (if 0 < n then memset_tail (m(d := v)) (d + 1) v (n - 1) else m)"

declare memset_head.simps [simp del] memset_words.simps [simp del] memset_tail.simps [simp del]

definition memset :: "mem \<Rightarrow> u64 \<Rightarrow> u32 \<Rightarrow> nat \<Rightarrow> mem" where
  "memset m dest c n =
     (let v = ucast c :: u8;
          (m1, d1, n1) = memset_head m dest v n;
          (m2, d2, n2) = memset_words m1 d1 (fill64 v) n1
      in memset_tail m2 d2 v n2)"

fun memcpy_words :: "mem \<Rightarrow> u64 \<Rightarrow> u64 \<Rightarrow> nat \<Rightarrow> mem \<times> u64 \<times> u64 \<times> nat" where
  "memcpy_words m d s n =
     (if 8 \<le> n then memcpy_words (copy8 m d s) (d + 8) (s + 8) (n - 8) else (m, d, s, n))"

fun memcpy_bytes :: "mem \<Rightarrow> u64 \<Rightarrow> u64 \<Rightarrow> nat \<Rightarrow> mem" where
  "memcpy_bytes m d s n =
     (if 0 < n then memcpy_bytes (m(d := m s)) (d + 1) (s + 1) (n - 1) else m)"

declare memcpy_words.simps [simp del] memcpy_bytes.simps [simp del]

definition memcpy :: "mem \<Rightarrow> u64 \<Rightarrow> u64 \<Rightarrow> nat \<Rightarrow> mem" where
  "memcpy m dest src n =
     (let (m1, d1, s1, n1) =
        (if dest AND 7 = 0 \<and> src AND 7 = 0 then memcpy_words m dest src n else (m, dest, src, n))
      in memcpy_bytes m1 d1 s1 n1)"

text \<open>The backward loop of \<open>memmove\<close>: \<open>d\<close> and \<open>s\<close> are one past the bytes still to copy.\<close>

fun memmove_back :: "mem \<Rightarrow> u64 \<Rightarrow> u64 \<Rightarrow> nat \<Rightarrow> mem" where
  "memmove_back m d s n =
     (if 0 < n then memmove_back (m(d - 1 := m (s - 1))) (d - 1) (s - 1) (n - 1) else m)"

declare memmove_back.simps [simp del]

definition memmove :: "mem \<Rightarrow> u64 \<Rightarrow> u64 \<Rightarrow> nat \<Rightarrow> mem" where
  "memmove m dest src n =
     (if dest = src \<or> n = 0 then m
      else if dest < src \<or> src + of_nat n \<le> dest then memcpy m dest src n
      else memmove_back m (dest + of_nat n) (src + of_nat n) n)"

fun memcmp :: "mem \<Rightarrow> u64 \<Rightarrow> u64 \<Rightarrow> nat \<Rightarrow> int" where
  "memcmp m p q n =
     (if 0 < n then (if m p \<noteq> m q then uint (m p) - uint (m q) else memcmp m (p + 1) (q + 1) (n - 1))
      else 0)"

declare memcmp.simps [simp del]

section \<open>String functions\<close>

text \<open>The character at the start of a string, as the \<open>unsigned char\<close> value C compares.\<close>

definition chd :: "string \<Rightarrow> nat" where
  "chd s = (case s of [] \<Rightarrow> 0 | c # _ \<Rightarrow> of_char c)"

text \<open>A string value holds no NUL: the first one ends it.\<close>

definition cstring :: "string \<Rightarrow> bool" where
  "cstring s \<longleftrightarrow> CHR 0x00 \<notin> set s"

fun c_strcmp :: "string \<Rightarrow> string \<Rightarrow> int" where
  "c_strcmp [] b = 0 - int (chd b)"
| "c_strcmp (x # a) b =
     (if chd b = of_char x \<and> b \<noteq> [] then c_strcmp a (tl b) else int (of_char x) - int (chd b))"

fun c_strncmp :: "string \<Rightarrow> string \<Rightarrow> nat \<Rightarrow> int" where
  "c_strncmp a b 0 = 0"
| "c_strncmp [] b (Suc n) = 0 - int (chd b)"
| "c_strncmp (x # a) b (Suc n) =
     (if chd b = of_char x \<and> b \<noteq> [] then c_strncmp a (tl b) n else int (of_char x) - int (chd b))"

text \<open>
  \<open>strncpy\<close> into a buffer: exactly \<open>n\<close> cells are written, the source first and NULs after it.
  Writing past the last cell is \<open>None\<close>.
\<close>

fun c_strncpy :: "string \<Rightarrow> string \<Rightarrow> nat \<Rightarrow> string option" where
  "c_strncpy d s 0 = Some d"
| "c_strncpy [] s (Suc n) = None"
| "c_strncpy (x # d) [] (Suc n) = map_option (Cons (CHR 0x00)) (c_strncpy d [] n)"
| "c_strncpy (x # d) (c # s) (Suc n) = map_option (Cons c) (c_strncpy d s n)"

text \<open>The string a buffer holds: its cells up to the first NUL.\<close>

definition c_str :: "string \<Rightarrow> string" where
  "c_str buf = takeWhile (\<lambda>c. c \<noteq> CHR 0x00) buf"

text \<open>\<open>strchr\<close> and \<open>strrchr\<close> as offsets into the string; searching for NUL finds its end.\<close>

fun c_strchr :: "string \<Rightarrow> char \<Rightarrow> nat option" where
  "c_strchr [] c = (if c = CHR 0x00 then Some 0 else None)"
| "c_strchr (x # s) c = (if x = c then Some 0 else map_option Suc (c_strchr s c))"

fun c_strrchr_from :: "string \<Rightarrow> char \<Rightarrow> nat \<Rightarrow> nat option \<Rightarrow> nat option" where
  "c_strrchr_from [] c i found = (if c = CHR 0x00 then Some i else found)"
| "c_strrchr_from (x # s) c i found = c_strrchr_from s c (Suc i) (if x = c then Some i else found)"

definition c_strrchr :: "string \<Rightarrow> char \<Rightarrow> nat option" where
  "c_strrchr s c = c_strrchr_from s c 0 None"

fun c_strstr :: "string \<Rightarrow> string \<Rightarrow> nat option" where
  "c_strstr [] needle = (if needle = [] then Some 0 else None)"
| "c_strstr (x # hay) needle =
     (if needle = [] then Some 0
      else if of_char x = chd needle \<and> c_strncmp (x # hay) needle (length needle) = 0 then Some 0
      else map_option Suc (c_strstr hay needle))"

fun c_strspn :: "string \<Rightarrow> string \<Rightarrow> nat" where
  "c_strspn [] accept = 0"
| "c_strspn (x # s) accept = (if c_strchr accept x \<noteq> None then Suc (c_strspn s accept) else 0)"

fun c_strcspn :: "string \<Rightarrow> string \<Rightarrow> nat" where
  "c_strcspn [] reject = 0"
| "c_strcspn (x # s) reject = (if c_strchr reject x = None then Suc (c_strcspn s reject) else 0)"

text \<open>
  \<open>strtok_r\<close>: \<open>save\<close> is what \<open>*saveptr\<close> points to (\<open>None\<close> for NULL). The result is the token,
  if there is one, and the new \<open>*saveptr\<close>.
\<close>

definition c_strtok_r :: "string option \<Rightarrow> string \<Rightarrow> string option \<Rightarrow> string option \<times> string option" where
  "c_strtok_r str delim save =
     (case (case str of Some s \<Rightarrow> Some s | None \<Rightarrow> save) of
        None \<Rightarrow> (None, None)
      | Some s \<Rightarrow>
          (let s1 = drop (c_strspn s delim) s in
           if s1 = [] then (None, None)
           else (let k = c_strcspn s1 delim; rest = drop k s1
                 in (Some (take k s1), if rest \<noteq> [] then Some (tl rest) else None))))"

section \<open>What the memory functions compute\<close>

text \<open>
  The reference behaviour: \<open>n\<close> bytes from \<open>d\<close> on, counted modulo the address space, are set, or
  take the value the source region had before the call.
\<close>

definition filled :: "mem \<Rightarrow> u64 \<Rightarrow> u8 \<Rightarrow> nat \<Rightarrow> mem" where
  "filled m d v n = (\<lambda>a. if unat (a - d) < n then v else m a)"

definition moved :: "mem \<Rightarrow> u64 \<Rightarrow> u64 \<Rightarrow> nat \<Rightarrow> mem" where
  "moved m d s n = (\<lambda>a. if unat (a - d) < n then m (s + (a - d)) else m a)"

lemma offset_Suc:
  fixes a d :: u64
  shows "0 < n \<Longrightarrow> unat (a - d) < n \<longleftrightarrow> a = d \<or> unat (a - (d + 1)) < n - 1"
proof (cases "a = d")
  case False
  assume "0 < n"
  from False have "a - d \<noteq> 0" by simp
  then have "unat (a - d - 1) = unat (a - d) - 1" "0 < unat (a - d)"
    by (auto simp: unat_minus_1 unat_gt_0)
  with False \<open>0 < n\<close> show ?thesis by (simp add: diff_diff_eq) linarith
qed simp

lemma offset_step:
  fixes a d :: u64
  assumes "k \<le> n" "k < 2 ^ 64"
  shows "unat (a - d) < n \<longleftrightarrow> unat (a - d) < k \<or> unat (a - (d + of_nat k)) < n - k"
proof (cases "unat (a - d) < k")
  case False
  have k: "unat (of_nat k :: u64) = k" using assms(2) by (simp add: unat_of_nat)
  have le: "of_nat k \<le> a - d" using False k by (simp add: word_le_nat_alt)
  have "a - (d + of_nat k) = (a - d) - of_nat k" by simp
  then have "unat (a - (d + of_nat k)) = unat (a - d) - k"
    by (simp only: unat_sub [OF le] k)
  with False assms(1) show ?thesis by linarith
qed (use assms in auto)

lemma fill64_byte:
  assumes "k < 8"
  shows "(ucast (drop_bit (8 * k) (fill64 v)) :: u8) = v"
proof -
  have top: "\<not> bit v j" if "8 \<le> j" for j
    using that bit_imp_le_length [of v j] by auto
  have "k \<in> {0, 1, 2, 3, 4, 5, 6, 7}" using assms by auto
  then show ?thesis
    by (auto simp: fill64_def Let_def bit_simps top intro!: bit_word_eqI)
qed

lemma store64_fill64: "store64 m d (fill64 v) = filled m d v 8"
  by (auto simp: store64_def filled_def fill64_byte)

lemma filled_filled: "filled (filled m d v k) (d + of_nat k) v n = filled m d v (k + n)"
proof (cases "k < 2 ^ 64")
  case True
  then show ?thesis using offset_step [of k "k + n" _ d] by (auto simp: filled_def)
next
  case False
  have "unat (a - d) < k" for a using unat_u64_less [of "a - d"] False by linarith
  then show ?thesis by (simp add: filled_def trans_less_add1)
qed

lemma filled_0 [simp]: "filled m d v 0 = m"
  by (simp add: filled_def)

lemma filled_1: "m(d := v) = filled m d v 1"
  by (auto simp: filled_def unat_eq_0 fun_eq_iff)

lemma memset_tail_filled: "memset_tail m d v n = filled m d v n"
proof (induction n arbitrary: m d)
  case 0
  then show ?case by (simp add: memset_tail.simps)
next
  case (Suc n)
  have "memset_tail m d v (Suc n) = filled (filled m d v 1) (d + 1) v n"
    using Suc by (simp add: memset_tail.simps [of m d v "Suc n"] filled_1)
  then show ?case using filled_filled [of m d v 1 n] by simp
qed

lemma memset_words_filled:
  "memset_words m d (fill64 v) n =
     (filled m d v (8 * (n div 8)), d + of_nat (8 * (n div 8)), n mod 8)"
proof (induction n arbitrary: m d rule: less_induct)
  case (less n)
  show ?case
  proof (cases "8 \<le> n")
    case True
    then have k: "8 * (n div 8) = 8 + 8 * ((n - 8) div 8)" "n mod 8 = (n - 8) mod 8"
      by (auto simp: le_div_geq le_mod_geq)
    have "memset_words m d (fill64 v) n = memset_words (filled m d v 8) (d + 8) (fill64 v) (n - 8)"
      using True by (simp add: memset_words.simps [of m d "fill64 v" n] store64_fill64)
    also have "\<dots> = (filled (filled m d v 8) (d + 8) v (8 * ((n - 8) div 8)),
        d + 8 + of_nat (8 * ((n - 8) div 8)), (n - 8) mod 8)"
      using less.IH [of "n - 8"] True by simp
    finally show ?thesis
      using filled_filled [of m d v 8] by (simp add: k add.assoc)
  next
    case False
    then show ?thesis by (simp add: memset_words.simps [of m d "fill64 v" n])
  qed
qed

lemma memset_head_filled:
  "\<exists>k \<le> n. memset_head m d v n = (filled m d v k, d + of_nat k, n - k)"
proof (induction n arbitrary: m d)
  case 0
  then show ?case by (simp add: memset_head.simps)
next
  case (Suc n)
  show ?case
  proof (cases "d AND 7 \<noteq> 0")
    case True
    obtain k where k: "k \<le> n"
      "memset_head (filled m d v 1) (d + 1) v n = (filled (filled m d v 1) (d + 1) v k, d + 1 + of_nat k, n - k)"
      using Suc.IH by blast
    with True have "memset_head m d v (Suc n) = (filled m d v (Suc k), d + of_nat (Suc k), Suc n - Suc k)"
      using filled_filled [of m d v 1 k]
      by (simp add: memset_head.simps [of m d v "Suc n"] filled_1 add.assoc)
    with k(1) show ?thesis by (metis Suc_le_mono)
  next
    case False
    then have "memset_head m d v (Suc n) = (filled m d v 0, d + of_nat 0, Suc n - 0)"
      by (simp add: memset_head.simps [of m d v "Suc n"])
    then show ?thesis by (metis le0)
  qed
qed

lemma memset_filled: "memset m dest c n = filled m dest (ucast c) n"
proof -
  obtain k where k: "k \<le> n"
    "memset_head m dest (ucast c) n = (filled m dest (ucast c) k, dest + of_nat k, n - k)"
    using memset_head_filled by blast
  let ?j = "8 * ((n - k) div 8)"
  have "memset m dest c n =
      filled (filled (filled m dest (ucast c) k) (dest + of_nat k) (ucast c) ?j)
        (dest + of_nat k + of_nat ?j) (ucast c) ((n - k) mod 8)"
    using k by (simp add: memset_def Let_def memset_words_filled memset_tail_filled)
  also have "\<dots> = filled m dest (ucast c) (k + (?j + (n - k) mod 8))"
    by (simp only: filled_filled add.assoc of_nat_add [symmetric])
  finally show ?thesis using k by simp
qed

text \<open>
  \<open>memset\<close> is correct although it aligns the destination byte by byte, fills eight bytes at a
  time and finishes with a byte loop: exactly the \<open>n\<close> bytes from \<open>dest\<close> on hold the low byte of
  \<open>c\<close>, and every other byte of memory is as before.
\<close>

theorem memset_fills: "memset m dest c n = filled m dest (ucast c) n"
  by (rule memset_filled)

lemma moved_moved:
  assumes far: "k + n \<le> unat (d - s)"
  shows "moved (moved m d s k) (d + of_nat k) (s + of_nat k) n = moved m d s (k + n)"
proof
  fix a
  have big: "unat (d - s) < 2 ^ 64" by (rule unat_u64_less)
  with far have k: "k < 2 ^ 64" "unat (of_nat k :: u64) = k" by (auto simp: unat_of_nat)
  have step: "unat (a - d) < k + n \<longleftrightarrow> unat (a - d) < k \<or> unat (a - (d + of_nat k)) < n"
    using offset_step [of k "k + n" a d] k by simp
  show "moved (moved m d s k) (d + of_nat k) (s + of_nat k) n a = moved m d s (k + n) a"
  proof (cases "unat (a - (d + of_nat k)) < n")
    case True
    let ?b = "s + (a - d)"
    have ge: "k \<le> unat (a - d)"
    proof (rule ccontr)
      assume "\<not> k \<le> unat (a - d)"
      then have "unat (a - d - of_nat k) = unat (a - d) + 2 ^ 64 - k"
        using k by (simp add: unat_sub_if_size word_size word_le_nat_alt)
      with True far big \<open>\<not> k \<le> unat (a - d)\<close> show False by (simp add: diff_diff_eq)
    qed
    have "\<not> unat (?b - d) < k"
    proof
      assume lt: "unat (?b - d) < k"
      have "(d - s) + (?b - d) = a - d" by simp
      then have "unat (a - d) = (unat (d - s) + unat (?b - d)) mod 2 ^ 64"
        by (metis unat_u64_add)
      moreover have "unat (a - d) < k + n" using True step by blast
      ultimately show False using far big lt ge by (auto simp: mod_if split: if_splits)
    qed
    then show ?thesis using True step by (simp add: moved_def)
  next
    case False
    then show ?thesis using step by (simp add: moved_def)
  qed
qed

lemma copy8_moved: "copy8 m d s = moved m d s 8"
  by (simp add: copy8_def moved_def)

lemma moved_0 [simp]: "moved m d s 0 = m"
  by (simp add: moved_def)

lemma moved_1: "m(d := m s) = moved m d s 1"
  by (auto simp: moved_def unat_eq_0 fun_eq_iff)

lemma memcpy_bytes_moved: "n \<le> unat (d - s) \<Longrightarrow> memcpy_bytes m d s n = moved m d s n"
proof (induction n arbitrary: m d s)
  case 0
  then show ?case by (simp add: memcpy_bytes.simps)
next
  case (Suc n)
  have "memcpy_bytes m d s (Suc n) = moved (moved m d s 1) (d + 1) (s + 1) n"
    using Suc.IH [of "d + 1" "s + 1"] Suc.prems
    by (simp add: memcpy_bytes.simps [of m d s "Suc n"] moved_1)
  then show ?case using moved_moved [of 1 n d s m] Suc.prems by simp
qed

lemma memcpy_words_moved:
  "n \<le> unat (d - s) \<Longrightarrow> memcpy_words m d s n =
     (let k = 8 * (n div 8) in (moved m d s k, d + of_nat k, s + of_nat k, n mod 8))"
proof (induction n arbitrary: m d s rule: less_induct)
  case (less n)
  show ?case
  proof (cases "8 \<le> n")
    case True
    let ?j = "8 * ((n - 8) div 8)"
    have k: "8 * (n div 8) = 8 + ?j" "n mod 8 = (n - 8) mod 8" "8 + ?j \<le> n"
      using True by (auto simp: le_div_geq le_mod_geq)
    have "memcpy_words m d s n = memcpy_words (moved m d s 8) (d + 8) (s + 8) (n - 8)"
      using True by (simp add: memcpy_words.simps [of m d s n] copy8_moved)
    also have "\<dots> = (moved (moved m d s 8) (d + 8) (s + 8) ?j, d + 8 + of_nat ?j,
        s + 8 + of_nat ?j, (n - 8) mod 8)"
      using less.IH [of "n - 8" "d + 8" "s + 8"] less.prems True by (simp add: Let_def)
    finally show ?thesis
      using moved_moved [of 8 ?j d s m] k less.prems by (simp add: Let_def add.assoc)
  next
    case False
    then show ?thesis by (simp add: memcpy_words.simps [of m d s n])
  qed
qed

lemma memcpy_moved:
  assumes far: "n \<le> unat (d - s)"
  shows "memcpy m d s n = moved m d s n"
proof (cases "d AND 7 = 0 \<and> s AND 7 = 0")
  case True
  let ?k = "8 * (n div 8)"
  have "memcpy m d s n = memcpy_bytes (moved m d s ?k) (d + of_nat ?k) (s + of_nat ?k) (n mod 8)"
    using True far by (simp add: memcpy_def memcpy_words_moved Let_def)
  also have "\<dots> = moved (moved m d s ?k) (d + of_nat ?k) (s + of_nat ?k) (n mod 8)"
    using far by (intro memcpy_bytes_moved) (simp add: order_trans [OF mod_less_eq_dividend])
  finally show ?thesis using moved_moved [of ?k "n mod 8" d s m] far by simp
next
  case False
  then show ?thesis using far by (auto simp: memcpy_def memcpy_bytes_moved)
qed

lemma memmove_back_moved:
  "0 < unat (d - s) \<Longrightarrow> unat (d - s) + n \<le> 2 ^ 64 \<Longrightarrow>
     memmove_back m (d + of_nat n) (s + of_nat n) n = moved m d s n"
proof (induction n arbitrary: m)
  case 0
  then show ?case by (simp add: memmove_back.simps)
next
  case (Suc n)
  let ?m = "m(d + of_nat n := m (s + of_nat n))"
  have n: "unat (of_nat n :: u64) = n" using Suc.prems by (simp add: unat_of_nat)
  have "memmove_back m (d + of_nat (Suc n)) (s + of_nat (Suc n)) (Suc n) = moved ?m d s n"
    using Suc.IH [of ?m] Suc.prems
    by (simp add: memmove_back.simps [of m _ _ "Suc n"] add.assoc [symmetric] del: fun_upd_apply)
  also have "\<dots> = moved m d s (Suc n)"
  proof
    fix a
    have "unat (a - d) = n \<longleftrightarrow> a - d = of_nat n" using n by (simp add: word_unat_eq_iff)
    then have last: "unat (a - d) = n \<longleftrightarrow> a = d + of_nat n" by (auto simp: algebra_simps)
    have "s + (a - d) \<noteq> d + of_nat n" if "unat (a - d) < n"
    proof
      assume "s + (a - d) = d + of_nat n"
      then have "a - d = (d - s) + of_nat n" by (simp add: algebra_simps)
      then have "unat (a - d) = (unat (d - s) + n) mod 2 ^ 64"
        using n unat_u64_add [of "d - s" "of_nat n"] by metis
      then have "unat (a - d) = unat (d - s) + n" using Suc.prems by simp
      with that show False by simp
    qed
    then show "moved ?m d s n a = moved m d s (Suc n) a"
      using last n by (auto simp: moved_def less_Suc_eq)
  qed
  finally show ?case .
qed

text \<open>
  C4: \<open>memmove\<close> copies correctly whether or not the two regions overlap, through the aligned
  word copy, the forward byte copy or the backward copy: every byte of the destination region has
  the value the source region had before the call, and no other byte changes. The regions must
  not run over the end of the address space.
\<close>

theorem memmove_moves:
  assumes "unat src + n < 2 ^ 64" and "unat dest + n \<le> 2 ^ 64"
  shows "memmove m dest src n = moved m dest src n"
proof (cases "dest = src \<or> n = 0")
  case True
  then show ?thesis by (auto simp: memmove_def moved_def)
next
  case False
  have sn: "unat (src + of_nat n) = unat src + n"
    using assms(1) by (simp add: unat_u64_add unat_of_nat)
  show ?thesis
  proof (cases "dest < src \<or> src + of_nat n \<le> dest")
    case True
    have "n \<le> unat (dest - src)"
    proof (cases "dest < src")
      case True
      then have "unat (dest - src) = 2 ^ 64 + unat dest - unat src"
        by (simp add: unat_sub_if_size word_size word_less_nat_alt)
      with assms(1) show ?thesis by simp
    next
      case False
      with True sn have "unat src + n \<le> unat dest" "src \<le> dest"
        by (auto simp: word_le_nat_alt)
      then show ?thesis by (simp add: unat_sub)
    qed
    with True False show ?thesis by (simp add: memmove_def memcpy_moved)
  next
    case bwd: False
    then have "src \<le> dest" by auto
    then have u: "unat (dest - src) = unat dest - unat src" "unat src \<le> unat dest"
      by (auto simp: unat_sub word_le_nat_alt)
    moreover have "0 < unat (dest - src)" using False by (simp add: unat_gt_0)
    ultimately show ?thesis
      using bwd False assms(2) by (simp add: memmove_def memmove_back_moved)
  qed
qed

theorem memmove_moves_witness:
  "memmove (\<lambda>a. ucast a) 4 2 5 6 = 4"
proof -
  have "memmove (\<lambda>a. ucast a) 4 2 5 = moved (\<lambda>a. ucast a) 4 2 5"
    by (rule memmove_moves) simp_all
  then show ?thesis by (simp add: moved_def)
qed

lemma of_char_eq_0 [simp]: "(of_char c :: nat) = 0 \<longleftrightarrow> c = CHR 0x00"
proof
  assume "(of_char c :: nat) = 0"
  then have "c = char_of (0 :: nat)" by (metis char_of_char)
  then show "c = CHR 0x00" by (simp add: char_of_def)
qed simp

lemma cstring_simps [simp]:
  "cstring []" "cstring (x # s) \<longleftrightarrow> x \<noteq> CHR 0x00 \<and> cstring s"
  by (auto simp: cstring_def)

lemma cstring_take: "cstring s \<Longrightarrow> cstring (take n s)"
  by (auto simp: cstring_def dest: in_set_takeD)

lemma chd_simps [simp]: "chd [] = 0" "chd (x # s) = of_char x"
  by (simp_all add: chd_def)

lemma strcmp_zero_iff:
  assumes "cstring a" "cstring b"
  shows "c_strcmp a b = 0 \<longleftrightarrow> a = b"
  using assms
proof (induction a b rule: c_strcmp.induct)
  case (1 b)
  then show ?case by (cases b) auto
next
  case (2 x a b)
  then show ?case by (cases b) (auto split: if_splits)
qed

lemma strncmp_zero_iff:
  assumes "cstring a" "cstring b"
  shows "c_strncmp a b n = 0 \<longleftrightarrow> take n a = take n b"
  using assms
proof (induction a b n rule: c_strncmp.induct)
  case (2 b n)
  then show ?case by (cases b) auto
next
  case (3 x a b n)
  then show ?case by (cases b) (auto split: if_splits)
qed simp

lemma strncpy_cells:
  "n \<le> length d \<Longrightarrow>
     c_strncpy d s n = Some (take n s @ replicate (n - length s) (CHR 0x00) @ drop n d)"
  by (induction d s n rule: c_strncpy.induct) auto

lemma c_str_append: "cstring s \<Longrightarrow> c_str (s @ CHR 0x00 # t) = s"
  by (induction s) (auto simp: c_str_def)

text \<open>Copying into a field whose last cell stays NUL stores the string cut to the field.\<close>

lemma c_str_strncpy:
  assumes "cstring s" "n < length d" "d ! n = CHR 0x00" "c_strncpy d s n = Some b"
  shows "c_str b = take n s"
proof -
  obtain t where t: "drop n d = CHR 0x00 # t"
    using assms(2,3) by (metis Cons_nth_drop_Suc)
  have b: "b = take n s @ replicate (n - length s) (CHR 0x00) @ drop n d"
    using assms(2,4) by (simp add: strncpy_cells)
  show ?thesis
  proof (cases "n - length s")
    case 0
    then show ?thesis using b t c_str_append [OF cstring_take [OF assms(1)]] by simp
  next
    case (Suc k)
    then show ?thesis using b c_str_append [OF assms(1)] by simp
  qed
qed

lemma strchr_None_iff: "cstring s \<Longrightarrow> x \<noteq> CHR 0x00 \<Longrightarrow> c_strchr s x = None \<longleftrightarrow> x \<notin> set s"
  by (induction s) auto

section \<open>Tokenising\<close>

text \<open>The loop of the callers of \<open>strtok_r\<close>: take tokens until there is none.\<close>

function c_tokens :: "string \<Rightarrow> string option \<Rightarrow> string list" where
  "c_tokens delim save =
     (case c_strtok_r None delim save of
        (None, _) \<Rightarrow> []
      | (Some t, save') \<Rightarrow> t # c_tokens delim save')"
  by pat_completeness auto

definition save_size :: "string option \<Rightarrow> nat" where
  "save_size sv = (case sv of None \<Rightarrow> 0 | Some s \<Rightarrow> Suc (length s))"

lemma strtok_shorter:
  assumes "c_strtok_r None d sv = (Some t, sv')"
  shows "save_size sv' < save_size sv"
proof -
  obtain s where s: "sv = Some s" using assms by (cases sv) (auto simp: c_strtok_r_def)
  let ?s1 = "drop (c_strspn s d) s"
  have "length ?s1 \<le> length s" by simp
  with assms s show ?thesis
    by (auto simp: c_strtok_r_def Let_def save_size_def split: if_splits)
qed

termination c_tokens
proof (relation "measure (\<lambda>(d, sv). save_size sv)", goal_cases)
  case 1
  show ?case by (rule wf_measure)
next
  case (2 delim save x y x2)
  have "c_strtok_r None delim save = (Some x2, y)" using 2 by simp
  from strtok_shorter [OF this] show ?case by (simp only: in_measure case_prod_conv)
qed

declare c_tokens.simps [simp del]

text \<open>The fields between delimiters, empty ones included.\<close>

fun split_on :: "string \<Rightarrow> string \<Rightarrow> string list" where
  "split_on d [] = [[]]"
| "split_on d (x # s) =
     (if x \<in> set d then [] # split_on d s
      else (case split_on d s of [] \<Rightarrow> [[x]] | t # ts \<Rightarrow> (x # t) # ts))"

lemma split_on_takeWhile:
  "split_on d s = takeWhile (\<lambda>x. x \<notin> set d) s #
     (case dropWhile (\<lambda>x. x \<notin> set d) s of [] \<Rightarrow> [] | _ # r \<Rightarrow> split_on d r)"
  by (induction s) auto

lemma strspn_dropWhile:
  "cstring d \<Longrightarrow> cstring s \<Longrightarrow> drop (c_strspn s d) s = dropWhile (\<lambda>x. x \<in> set d) s"
  by (induction s) (auto simp: strchr_None_iff)

lemma strcspn_takeWhile:
  "cstring d \<Longrightarrow> cstring s \<Longrightarrow>
     take (c_strcspn s d) s = takeWhile (\<lambda>x. x \<notin> set d) s \<and>
     drop (c_strcspn s d) s = dropWhile (\<lambda>x. x \<notin> set d) s"
  by (induction s) (auto simp: strchr_None_iff)

lemma cstring_dropWhile: "cstring s \<Longrightarrow> cstring (dropWhile P s)"
  by (auto simp: cstring_def dest: set_dropWhileD)

lemma split_on_skip:
  "filter (\<lambda>t. t \<noteq> []) (split_on d s) = filter (\<lambda>t. t \<noteq> []) (split_on d (dropWhile (\<lambda>x. x \<in> set d) s))"
  by (induction s) auto

lemma strtok_r_eq:
  assumes "cstring d" "cstring s"
  shows "c_strtok_r None d (Some s) =
    (let s1 = dropWhile (\<lambda>x. x \<in> set d) s in
     if s1 = [] then (None, None)
     else (Some (takeWhile (\<lambda>x. x \<notin> set d) s1),
           case dropWhile (\<lambda>x. x \<notin> set d) s1 of [] \<Rightarrow> None | _ # r \<Rightarrow> Some r))"
proof -
  let ?s1 = "dropWhile (\<lambda>x. x \<in> set d) s"
  have s1: "drop (c_strspn s d) s = ?s1" by (rule strspn_dropWhile [OF assms])
  note cspn = strcspn_takeWhile [OF assms(1) cstring_dropWhile [OF assms(2), of "\<lambda>x. x \<in> set d"]]
  show ?thesis
    by (simp only: c_strtok_r_def option.case Let_def s1 cspn [THEN conjunct1] cspn [THEN conjunct2])
      (cases "dropWhile (\<lambda>x. x \<notin> set d) ?s1"; simp only: list.case list.sel if_cancel simp_thms list.distinct if_True if_False)
qed

lemma tokens_split:
  assumes "cstring delim" "cstring s"
  shows "c_tokens delim (Some s) = filter (\<lambda>t. t \<noteq> []) (split_on delim s)"
  using assms
proof (induction "length s" arbitrary: s rule: less_induct)
  case less
  let ?s1 = "dropWhile (\<lambda>x. x \<in> set delim) s"
  have skip: "filter (\<lambda>t. t \<noteq> []) (split_on delim s) = filter (\<lambda>t. t \<noteq> []) (split_on delim ?s1)"
    by (rule split_on_skip)
  show ?case
  proof (cases ?s1)
    case Nil
    then have "filter (\<lambda>t. t \<noteq> []) (split_on delim s) = []" by (subst skip) (simp only: split_on.simps, simp)
    moreover have "c_tokens delim (Some s) = []"
      using Nil less.prems by (simp add: c_tokens.simps [of delim "Some s"] strtok_r_eq)
    ultimately show ?thesis by simp
  next
    case (Cons x r)
    then have x: "x \<notin> set delim" by (metis dropWhile_eq_Cons_conv)
    let ?t = "takeWhile (\<lambda>x. x \<notin> set delim) ?s1"
    let ?r = "dropWhile (\<lambda>x. x \<notin> set delim) ?s1"
    have t: "?t \<noteq> []" using Cons x by simp
    show ?thesis
    proof (cases ?r)
      case Nil
      then have "c_tokens delim (Some s) = ?t # c_tokens delim None"
        using Cons less.prems by (simp add: c_tokens.simps [of delim "Some s"] strtok_r_eq)
      moreover have "c_tokens delim None = []"
        by (simp add: c_tokens.simps [of delim None] c_strtok_r_def)
      moreover have "split_on delim ?s1 = [?t]"
        by (subst split_on_takeWhile) (simp only: Nil list.case)
      then have "filter (\<lambda>t. t \<noteq> []) (split_on delim ?s1) = [?t]"
        using t by (simp only: filter.simps) simp
      ultimately show ?thesis by (simp only: skip)
    next
      case r: (Cons y r')
      then have toks: "c_tokens delim (Some s) = ?t # c_tokens delim (Some r')"
        using Cons less.prems by (simp add: c_tokens.simps [of delim "Some s"] strtok_r_eq)
      have "length ?r \<le> length ?s1" "length ?s1 \<le> length s" by (rule length_dropWhile_le)+
      with r have len: "length r' < length s" by simp
      have "cstring ?r" by (intro cstring_dropWhile less.prems(2))
      then have "cstring r'" unfolding r by simp
      with len have "c_tokens delim (Some r') = filter (\<lambda>t. t \<noteq> []) (split_on delim r')"
        by (intro less.hyps less.prems(1))
      moreover have "split_on delim ?s1 = ?t # split_on delim r'"
        by (subst split_on_takeWhile) (simp only: r list.case)
      then have "filter (\<lambda>t. t \<noteq> []) (split_on delim ?s1) = ?t # filter (\<lambda>t. t \<noteq> []) (split_on delim r')"
        using t by (simp only: filter.simps) simp
      ultimately show ?thesis by (simp only: skip toks)
    qed
  qed
qed

text \<open>
  C16: the tokens that a \<open>strtok_r\<close> loop delivers are the non-empty fields between delimiters, in
  order, with nothing lost and nothing added.
\<close>

theorem strtok_r_tokens:
  assumes "cstring delim" "cstring s"
  shows "c_tokens delim (Some s) = filter (\<lambda>t. t \<noteq> []) (split_on delim s)"
  using assms by (rule tokens_split)

theorem strtok_r_tokens_witness:
  "c_tokens ''/'' (Some ''/mnt//disk'') = [''mnt'', ''disk'']"
proof -
  have "c_tokens ''/'' (Some ''/mnt//disk'') = filter (\<lambda>t. t \<noteq> []) (split_on ''/'' ''/mnt//disk'')"
    by (rule strtok_r_tokens) (simp_all add: cstring_def)
  then show ?thesis by simp
qed

end
