(* ===== verification/Fifo.thy ===== *)
theory Fifo
  imports Prelude
begin

text \<open>
  The contract every queue of the kernel keeps (the message ports of \<open>kernel/ipc.c\<close>, the terminal
  rings of \<open>kernel/tty.c\<close>, the ready queue of \<open>scheduler/scheduler.c\<close>, the buffers of
  \<open>drivers/keyboard.c\<close>): a bounded first-in first-out queue that drops what does not fit.
  The locale \<open>bounded_fifo\<close> states it over the list of waiting elements; the client lemmas are
  proved once here. The ring of cells that implements all of them is read as a list by
  \<open>ring_list\<close>.
\<close>

section \<open>A ring of cells as a list\<close>

text \<open>The \<open>c\<close> cells that start at index \<open>h\<close> of a ring of \<open>N\<close> cells, in order.\<close>

definition ring_list :: "nat \<Rightarrow> (nat \<Rightarrow> 'a) \<Rightarrow> nat \<Rightarrow> nat \<Rightarrow> 'a list" where
  "ring_list N buf h c = map (\<lambda>i. buf ((h + i) mod N)) [0..<c]"

lemma length_ring_list [simp]: "length (ring_list N buf h c) = c"
  by (simp add: ring_list_def)

lemma ring_list_0 [simp]: "ring_list N buf h 0 = []"
  by (simp add: ring_list_def)

lemma ring_list_nth: "i < c \<Longrightarrow> ring_list N buf h c ! i = buf ((h + i) mod N)"
  by (simp add: ring_list_def)

lemma ring_index_inj:
  fixes h i c N :: nat
  assumes "i < c" "c < N"
  shows "(h + i) mod N \<noteq> (h + c) mod N"
proof
  assume "(h + i) mod N = (h + c) mod N"
  then have "(h + c - (h + i)) mod N = 0"
    using assms(1) by (metis add_le_cancel_left less_imp_le mod_eq_dvd_iff_nat mod_0_imp_dvd dvd_imp_mod_0)
  with assms show False by simp
qed

lemma ring_index_inj':
  fixes i n N :: nat
  assumes "i < n" "n < i + N"
  shows "i mod N \<noteq> n mod N"
  using ring_index_inj [of 0 "n - i" N i] assms by simp

lemma ring_list_push:
  assumes "c < N"
  shows "ring_list N (buf((h + c) mod N := x)) h (Suc c) = ring_list N buf h c @ [x]"
proof -
  have "map (\<lambda>i. (buf((h + c) mod N := x)) ((h + i) mod N)) [0..<c]
      = map (\<lambda>i. buf ((h + i) mod N)) [0..<c]"
    using ring_index_inj [OF _ assms, of _ h] by (intro map_cong) auto
  then show ?thesis by (simp add: ring_list_def)
qed

lemma ring_list_pop:
  assumes "h < N" "0 < c"
  shows "ring_list N buf h c = buf h # ring_list N buf (Suc h mod N) (c - 1)"
proof -
  obtain k where c: "c = Suc k" using assms(2) by (cases c) auto
  have "[0..<Suc k] = 0 # map Suc [0..<k]" by (simp add: map_Suc_upt upt_conv_Cons del: upt_Suc)
  moreover have "(\<lambda>i. buf ((h + Suc i) mod N)) = (\<lambda>i. buf ((Suc h mod N + i) mod N))"
    by (intro ext) (simp add: mod_add_left_eq)
  ultimately show ?thesis
    using assms(1) c by (simp add: ring_list_def comp_def del: upt_Suc)
qed

section \<open>The interface\<close>

locale bounded_fifo =
  fixes content :: "'q \<Rightarrow> 'a list"
    and capacity :: nat
    and inv :: "'q \<Rightarrow> bool"
    and enq :: "'a \<Rightarrow> 'q \<Rightarrow> 'q"
    and deq :: "'q \<Rightarrow> 'a option \<times> 'q"
  assumes fits: "inv q \<Longrightarrow> length (content q) \<le> capacity"
    and inv_enq: "inv q \<Longrightarrow> inv (enq x q)"
    and enq_content: "inv q \<Longrightarrow> length (content q) < capacity \<Longrightarrow> content (enq x q) = content q @ [x]"
    and enq_full: "inv q \<Longrightarrow> length (content q) = capacity \<Longrightarrow> content (enq x q) = content q"
    and deq_inv: "inv q \<Longrightarrow> inv (snd (deq q))"
    and deq_empty: "inv q \<Longrightarrow> content q = [] \<Longrightarrow> fst (deq q) = None \<and> content (snd (deq q)) = []"
    and deq_cons: "inv q \<Longrightarrow> content q = x # xs \<Longrightarrow> fst (deq q) = Some x \<and> content (snd (deq q)) = xs"
begin

primrec enq_all :: "'a list \<Rightarrow> 'q \<Rightarrow> 'q" where
  "enq_all [] q = q"
| "enq_all (x # xs) q = enq_all xs (enq x q)"

primrec deq_n :: "nat \<Rightarrow> 'q \<Rightarrow> 'a list \<times> 'q" where
  "deq_n 0 q = ([], q)"
| "deq_n (Suc n) q =
     (case deq q of
        (None, q') \<Rightarrow> ([], q')
      | (Some x, q') \<Rightarrow> (let (xs, q'') = deq_n n q' in (x # xs, q'')))"

lemma inv_enq_all: "inv q \<Longrightarrow> inv (enq_all xs q)"
  by (induction xs arbitrary: q) (auto intro: inv_enq)

text \<open>What a burst leaves in the queue: everything that fits, in order; the rest is dropped.\<close>

lemma enq_all_content:
  "inv q \<Longrightarrow> content (enq_all xs q) = content q @ take (capacity - length (content q)) xs"
proof (induction xs arbitrary: q)
  case Nil
  then show ?case by simp
next
  case (Cons x xs)
  show ?case
  proof (cases "length (content q) < capacity")
    case True
    with Cons have "content (enq_all xs (enq x q))
        = (content q @ [x]) @ take (capacity - Suc (length (content q))) xs"
      using Cons.IH [OF inv_enq [OF Cons.prems]] by (simp add: enq_content)
    with True show ?thesis by (simp add: take_Cons' Suc_diff_Suc)
  next
    case False
    with Cons.prems fits have full: "length (content q) = capacity"
      by (metis le_neq_implies_less)
    with Cons have "content (enq_all xs (enq x q)) = content q @ take 0 xs"
      using Cons.IH [OF inv_enq [OF Cons.prems]] by (simp add: enq_full)
    with full show ?thesis by simp
  qed
qed

text \<open>Reading takes the oldest elements first and leaves the rest in order.\<close>

lemma deq_n_content:
  "inv q \<Longrightarrow> n \<le> length (content q) \<Longrightarrow>
     fst (deq_n n q) = take n (content q) \<and> content (snd (deq_n n q)) = drop n (content q)
     \<and> inv (snd (deq_n n q))"
proof (induction n arbitrary: q)
  case 0
  then show ?case by simp
next
  case (Suc n)
  then obtain x xs where c: "content q = x # xs" by (cases "content q") auto
  with Suc.prems obtain q' where q': "deq q = (Some x, q')" "content q' = xs" "inv q'"
    using deq_cons [of q x xs] deq_inv [of q] by (cases "deq q") auto
  with Suc.IH [of q'] Suc.prems c show ?case
    by (cases "deq_n n q'") auto
qed

text \<open>First in, first out: a burst that fits into an empty queue is read back as it was written.\<close>

lemma fifo:
  assumes "inv q" "content q = []" "length xs \<le> capacity"
  shows "fst (deq_n (length xs) (enq_all xs q)) = xs"
  using deq_n_content [OF inv_enq_all [OF assms(1)], of "length xs" xs]
    enq_all_content [OF assms(1)] assms(2,3) by simp

end

end
