(* ===== verification/Secmon.thy ===== *)
theory Secmon
  imports Libc_String Fifo
begin

text \<open>
  The security monitor, \<open>kernel/secmon.c\<close>: the audit ring, the policy word and the policy check.
  The state record is the root of the kernel state of the object layer: the components that
  audit their operations (\<open>Cap\<close>, \<open>Ipc\<close>, \<open>Svcbus\<close>) extend it, so the operations of this theory
  act on the states of all of them. The lemmas show that the ring holds the last 512 events of
  the full history and that the dump prints them in order.
\<close>

section \<open>State\<close>

datatype cap_type =
  CAP_TYPE_NULL | CAP_TYPE_MEMORY | CAP_TYPE_PORT | CAP_TYPE_SERVICE | CAP_TYPE_DEVICE
  | CAP_TYPE_FILE | CAP_TYPE_TASK | CAP_TYPE_DISPLAY | CAP_TYPE_IRQLINE

primrec cap_type_code :: "cap_type \<Rightarrow> u32" where
  "cap_type_code CAP_TYPE_NULL = 0"
| "cap_type_code CAP_TYPE_MEMORY = 1"
| "cap_type_code CAP_TYPE_PORT = 2"
| "cap_type_code CAP_TYPE_SERVICE = 3"
| "cap_type_code CAP_TYPE_DEVICE = 4"
| "cap_type_code CAP_TYPE_FILE = 5"
| "cap_type_code CAP_TYPE_TASK = 6"
| "cap_type_code CAP_TYPE_DISPLAY = 7"
| "cap_type_code CAP_TYPE_IRQLINE = 8"

text \<open>\<open>AUDIT_ZERO\<close> is the value 0 that \<open>memset\<close> leaves in an unused record; no event has it.\<close>

datatype audit_event_type =
  AUDIT_ZERO
  | AUDIT_CAP_CREATE | AUDIT_CAP_DERIVE | AUDIT_CAP_REVOKE | AUDIT_CAP_TRANSFER
  | AUDIT_IPC_SEND | AUDIT_IPC_RECV
  | AUDIT_SVC_REGISTER | AUDIT_SVC_LOOKUP | AUDIT_SVC_UNREGISTER
  | AUDIT_POLICY_DENY | AUDIT_BOOT | AUDIT_PANIC

record audit_event =
  ev_seq :: u32
  ev_timestamp :: u64
  ev_type :: audit_event_type
  ev_actor_tid :: u32
  ev_cap :: u32
  ev_port :: u32
  ev_detail0 :: u32
  ev_detail1 :: u32

definition audit_zero :: audit_event where
  "audit_zero = \<lparr>ev_seq = 0, ev_timestamp = 0, ev_type = AUDIT_ZERO, ev_actor_tid = 0,
     ev_cap = 0, ev_port = 0, ev_detail0 = 0, ev_detail1 = 0\<rparr>"

abbreviation (input) SECMON_LOG_SIZE :: nat where
  "SECMON_LOG_SIZE \<equiv> 512"

abbreviation (input) SECPOL_DENY_IRQCAP_USERLAND :: u32 where
  "SECPOL_DENY_IRQCAP_USERLAND \<equiv> 1"

abbreviation (input) SECPOL_LOG_ALL_IPC :: u32 where
  "SECPOL_LOG_ALL_IPC \<equiv> 2"

record secmon_st = kbase +
  log_buf :: "nat \<Rightarrow> audit_event"
  log_head :: u32
  log_count :: u32
  policy :: u32

section \<open>Operations\<close>

text \<open>\<open>_record\<close>: fill the cell at the head, then advance both counters.\<close>

definition secmon_record ::
  "audit_event_type \<Rightarrow> u32 \<Rightarrow> u32 \<Rightarrow> u32 \<Rightarrow> u32 \<Rightarrow> u32 \<Rightarrow> 'a secmon_st_scheme \<Rightarrow> 'a secmon_st_scheme" where
  "secmon_record ty actor_tid cap port d0 d1 s =
     (let ev = \<lparr>ev_seq = log_count s, ev_timestamp = tick_count s, ev_type = ty,
                ev_actor_tid = actor_tid, ev_cap = cap, ev_port = port,
                ev_detail0 = d0, ev_detail1 = d1\<rparr>
      in s\<lparr>log_buf := (log_buf s)(unat (log_head s) mod SECMON_LOG_SIZE := ev),
           log_head := log_head s + 1, log_count := log_count s + 1\<rparr>)"

definition secmon_init :: "'a secmon_st_scheme \<Rightarrow> 'a secmon_st_scheme" where
  "secmon_init s =
     (let s1 = s\<lparr>log_buf := \<lambda>_. audit_zero, log_head := 0, log_count := 0,
                 policy := SECPOL_DENY_IRQCAP_USERLAND\<rparr>;
          ev = audit_zero\<lparr>ev_seq := log_count s1, ev_timestamp := tick_count s1, ev_type := AUDIT_BOOT\<rparr>
      in s1\<lparr>log_buf := (log_buf s1)(unat (log_head s1) mod SECMON_LOG_SIZE := ev),
            log_head := log_head s1 + 1, log_count := log_count s1 + 1\<rparr>)"

definition secmon_audit_cap ::
  "audit_event_type \<Rightarrow> u32 \<Rightarrow> u32 \<Rightarrow> u32 \<Rightarrow> u32 \<Rightarrow> 'a secmon_st_scheme \<Rightarrow> 'a secmon_st_scheme" where
  "secmon_audit_cap ty actor_tid cap d0 d1 = secmon_record ty actor_tid cap 0 d0 d1"

definition secmon_audit_ipc ::
  "audit_event_type \<Rightarrow> u32 \<Rightarrow> u32 \<Rightarrow> u32 \<Rightarrow> 'a secmon_st_scheme \<Rightarrow> 'a secmon_st_scheme" where
  "secmon_audit_ipc ty actor_tid port msg_type s =
     (if ty = AUDIT_IPC_SEND \<and> policy s AND SECPOL_LOG_ALL_IPC = 0 then s
      else secmon_record ty actor_tid 0 port msg_type 0 s)"

text \<open>\<open>for (i < len) d |= (uint32_t)(uint8_t)name[i] << (i * 8)\<close>\<close>

definition pack_name :: "string \<Rightarrow> nat \<Rightarrow> nat \<Rightarrow> u32" where
  "pack_name name from len =
     fold (\<lambda>i d. d OR push_bit (i * 8) (of_nat (of_char (name ! (from + i))))) [0..<len] 0"

definition secmon_audit_svc ::
  "audit_event_type \<Rightarrow> u32 \<Rightarrow> string option \<Rightarrow> 'a secmon_st_scheme \<Rightarrow> 'a secmon_st_scheme" where
  "secmon_audit_svc ty actor_tid name s =
     (case name of
        None \<Rightarrow> secmon_record ty actor_tid 0 0 0 0 s
      | Some nm \<Rightarrow>
          (let d0 = pack_name nm 0 (min (length nm) 4);
               d1 = (if length nm > 4 then pack_name nm 4 (min (length nm - 4) 4) else 0)
           in secmon_record ty actor_tid 0 0 d0 d1 s))"

definition secmon_check_cap_create ::
  "u32 \<Rightarrow> cap_type \<Rightarrow> 'a secmon_st_scheme \<Rightarrow> bool \<times> 'a secmon_st_scheme" where
  "secmon_check_cap_create actor_tid ty s =
     (if ty = CAP_TYPE_IRQLINE \<and> policy s AND SECPOL_DENY_IRQCAP_USERLAND \<noteq> 0 \<and> actor_tid \<noteq> 0
      then (False, secmon_record AUDIT_POLICY_DENY actor_tid 0 0 (cap_type_code ty) 0 s)
      else (True, s))"

definition secmon_check_irq_access :: "u32 \<Rightarrow> 'a secmon_st_scheme \<Rightarrow> bool \<times> 'a secmon_st_scheme" where
  "secmon_check_irq_access actor_tid = secmon_check_cap_create actor_tid CAP_TYPE_IRQLINE"

definition secmon_set_policy :: "u32 \<Rightarrow> 'a secmon_st_scheme \<Rightarrow> 'a secmon_st_scheme" where
  "secmon_set_policy flags s = s\<lparr>policy := flags\<rparr>"

definition secmon_event_count :: "'a secmon_st_scheme \<Rightarrow> u32" where
  "secmon_event_count s = log_count s"

primrec audit_type_str :: "audit_event_type \<Rightarrow> string" where
  "audit_type_str AUDIT_ZERO = ''?''"
| "audit_type_str AUDIT_CAP_CREATE = ''CAP_CREATE''"
| "audit_type_str AUDIT_CAP_DERIVE = ''CAP_DERIVE''"
| "audit_type_str AUDIT_CAP_REVOKE = ''CAP_REVOKE''"
| "audit_type_str AUDIT_CAP_TRANSFER = ''CAP_TRANSFER''"
| "audit_type_str AUDIT_IPC_SEND = ''IPC_SEND''"
| "audit_type_str AUDIT_IPC_RECV = ''IPC_RECV''"
| "audit_type_str AUDIT_SVC_REGISTER = ''SVC_REGISTER''"
| "audit_type_str AUDIT_SVC_LOOKUP = ''SVC_LOOKUP''"
| "audit_type_str AUDIT_SVC_UNREGISTER = ''SVC_UNREG''"
| "audit_type_str AUDIT_POLICY_DENY = ''POLICY_DENY''"
| "audit_type_str AUDIT_BOOT = ''BOOT''"
| "audit_type_str AUDIT_PANIC = ''PANIC''"

text \<open>The arguments of the line that the dump prints for an event.\<close>

definition audit_line :: "audit_event \<Rightarrow> u32 \<times> u64 \<times> string \<times> u32 \<times> u32 \<times> u32" where
  "audit_line ev = (ev_seq ev, ev_timestamp ev, audit_type_str (ev_type ev),
     ev_actor_tid ev, ev_cap ev, ev_port ev)"

definition secmon_dump_log ::
  "int \<Rightarrow> 'a secmon_st_scheme \<Rightarrow> (u32 \<times> u64 \<times> string \<times> u32 \<times> u32 \<times> u32) list" where
  "secmon_dump_log last_n s =
     (let last_n = (if last_n \<le> 0 \<or> last_n > int SECMON_LOG_SIZE then int SECMON_LOG_SIZE else last_n);
          total = log_count s;
          start = (if total > word_of_int last_n then total - word_of_int last_n else 0)
      in map (\<lambda>i. audit_line (log_buf s (i mod SECMON_LOG_SIZE))) [unat start..<unat total])"

lemmas [kdef] = secmon_audit_cap_def secmon_audit_ipc_def secmon_audit_svc_def

lemma secmon_record_frame [frame, simp]:
  "tick_count (secmon_record ty a c p d0 d1 s) = tick_count s"
  "policy (secmon_record ty a c p d0 d1 s) = policy s"
  "log_count (secmon_record ty a c p d0 d1 s) = log_count s + 1"
  "log_head (secmon_record ty a c p d0 d1 s) = log_head s + 1"
  by (simp_all add: secmon_record_def Let_def)

section \<open>The ring holds the recent history\<close>

text \<open>
  The abstract audit log is the list of all events since boot. The ring represents it when the
  counters have its length, modulo their width, and every event among the last 512 is in the cell
  its number selects. As 512 divides \<open>2 ^ 32\<close>, this survives the wrap-around of the counters.
\<close>

definition audit_hist :: "'a secmon_st_scheme \<Rightarrow> audit_event list \<Rightarrow> bool" where
  "audit_hist s h \<longleftrightarrow>
     log_head s = of_nat (length h) \<and> log_count s = of_nat (length h) \<and>
     (\<forall>i < length h. length h \<le> i + SECMON_LOG_SIZE \<longrightarrow> log_buf s (i mod SECMON_LOG_SIZE) = h ! i)"

lemma head_index: "unat (of_nat n :: u32) mod SECMON_LOG_SIZE = n mod SECMON_LOG_SIZE"
  by (simp add: unat_of_nat mod_mod_cancel)

lemma audit_hist_record:
  assumes "audit_hist s h"
  shows "audit_hist (secmon_record ty a c p d0 d1 s)
    (h @ [\<lparr>ev_seq = log_count s, ev_timestamp = tick_count s, ev_type = ty, ev_actor_tid = a,
           ev_cap = c, ev_port = p, ev_detail0 = d0, ev_detail1 = d1\<rparr>])"
proof -
  have "i mod SECMON_LOG_SIZE \<noteq> length h mod SECMON_LOG_SIZE" if "i < length h" "length h \<le> 511 + i" for i
    using that by (intro ring_index_inj') simp_all
  then show ?thesis
    using assms unfolding audit_hist_def
    by (auto simp: secmon_record_def Let_def head_index nth_append less_Suc_eq)
qed

lemma audit_hist_init:
  "audit_hist (secmon_init s) [audit_zero\<lparr>ev_timestamp := tick_count s, ev_type := AUDIT_BOOT\<rparr>]"
  by (simp add: audit_hist_def secmon_init_def Let_def audit_zero_def)

lemma audit_hist_ticks: "audit_hist s h \<Longrightarrow> audit_hist (s\<lparr>tick_count := t\<rparr>) h"
  by (simp add: audit_hist_def)

lemma audit_hist_count: "audit_hist s h \<Longrightarrow> log_count s = of_nat (length h)"
  by (simp add: audit_hist_def)

text \<open>The dump prints the newest events of the history, oldest of them first.\<close>

lemma dump_hist:
  assumes h: "audit_hist s h" and len: "length h < 2 ^ 32" and n: "0 < n" "n \<le> SECMON_LOG_SIZE"
  shows "secmon_dump_log (int n) s = map audit_line (drop (length h - n) h)"
proof -
  have total: "unat (log_count s) = length h"
    using h len by (simp add: audit_hist_def unat_of_nat_u32)
  have un: "unat (word_of_int (int n) :: u32) = n"
    using n by (simp add: unat_of_nat_u32)
  have start: "unat (if log_count s > word_of_int (int n) then log_count s - word_of_int (int n) else 0)
      = length h - n"
    using un total by (auto simp: word_less_nat_alt unat_sub word_le_nat_alt)
  have "map (\<lambda>i. audit_line (log_buf s (i mod SECMON_LOG_SIZE))) [length h - n..<length h]
      = map audit_line (map ((!) h) [length h - n..<length h])"
    using h n by (auto simp: audit_hist_def)
  also have "map ((!) h) [length h - n..<length h] = drop (length h - n) h"
    by (rule nth_equalityI) auto
  finally have "map (\<lambda>i. audit_line (log_buf s (i mod SECMON_LOG_SIZE))) [length h - n..<length h]
      = map audit_line (drop (length h - n) h)" .
  moreover have "\<not> (int n \<le> 0 \<or> int n > int SECMON_LOG_SIZE)" using n by simp
  ultimately show ?thesis
    by (simp only: secmon_dump_log_def Let_def if_False start total)
qed

text \<open>
  A run of the monitor: a sequence of requests, each made at its own tick count, and the events
  they stand for, numbered in order after the boot event.
\<close>

type_synonym audit_req = "u64 \<times> audit_event_type \<times> u32 \<times> u32 \<times> u32 \<times> u32 \<times> u32"

primrec audit_run :: "audit_req list \<Rightarrow> 'a secmon_st_scheme \<Rightarrow> 'a secmon_st_scheme" where
  "audit_run [] s = s"
| "audit_run (r # rs) s =
     (case r of (t, ty, a, c, p, d0, d1) \<Rightarrow>
        audit_run rs (secmon_record ty a c p d0 d1 (s\<lparr>tick_count := t\<rparr>)))"

primrec audit_events :: "nat \<Rightarrow> audit_req list \<Rightarrow> audit_event list" where
  "audit_events k [] = []"
| "audit_events k (r # rs) =
     (case r of (t, ty, a, c, p, d0, d1) \<Rightarrow>
        \<lparr>ev_seq = of_nat k, ev_timestamp = t, ev_type = ty, ev_actor_tid = a, ev_cap = c,
         ev_port = p, ev_detail0 = d0, ev_detail1 = d1\<rparr> # audit_events (Suc k) rs)"

lemma length_audit_events [simp]: "length (audit_events k rs) = length rs"
  by (induction rs arbitrary: k) auto

lemma audit_hist_run:
  "audit_hist s h \<Longrightarrow> audit_hist (audit_run rs s) (h @ audit_events (length h) rs)"
proof (induction rs arbitrary: s h)
  case Nil
  then show ?case by simp
next
  case (Cons r rs)
  obtain t ty a c p d0 d1 where r: "r = (t, ty, a, c, p, d0, d1)" by (cases r) auto
  from Cons.IH [OF audit_hist_record [OF audit_hist_ticks [OF Cons.prems, of t], of ty a c p d0 d1]]
  show ?case using audit_hist_count [OF Cons.prems] by (simp add: r)
qed

text \<open>
  C17: the audit trail is complete and in order. After any sequence of events since
  \<open>secmon_init\<close>, \<open>secmon_dump_log\<close> prints exactly the newest \<open>n\<close> of them (the boot event
  included), oldest first, with consecutive sequence numbers and the ticks at which they happened.
\<close>

theorem secmon_dump_recent:
  assumes "length rs + 1 < 2 ^ 32" "0 < n" "n \<le> SECMON_LOG_SIZE"
  shows "secmon_dump_log (int n) (audit_run rs (secmon_init s)) =
    map audit_line
      (drop (length rs + 1 - n)
        (audit_zero\<lparr>ev_timestamp := tick_count s, ev_type := AUDIT_BOOT\<rparr> # audit_events 1 rs))"
  using dump_hist [OF audit_hist_run [OF audit_hist_init], where n = n] assms by simp

theorem secmon_dump_recent_witness:
  "secmon_dump_log 2 (audit_run [(7, AUDIT_CAP_CREATE, 3, 9, 0, 1, 1), (8, AUDIT_CAP_REVOKE, 3, 9, 0, 0, 0)]
      (secmon_init \<lparr>tick_count = 5, log_buf = \<lambda>_. audit_zero, log_head = 0, log_count = 0, policy = 0\<rparr>))
   = [(1, 7, ''CAP_CREATE'', 3, 9, 0), (2, 8, ''CAP_REVOKE'', 3, 9, 0)]"
  using secmon_dump_recent [where n = 2 and rs = "[(7, AUDIT_CAP_CREATE, 3, 9, 0, 1, 1), (8, AUDIT_CAP_REVOKE, 3, 9, 0, 0, 0)]"
      and s = "\<lparr>tick_count = 5, log_buf = \<lambda>_. audit_zero, log_head = 0, log_count = 0, policy = 0\<rparr>"]
  by (simp add: audit_line_def)

section \<open>Policy\<close>

text \<open>
  Under the boot policy no task but the kernel (task 0) passes the check for an interrupt
  line, every refusal leaves a \<open>POLICY_DENY\<close> event naming the task, and every other request
  passes without a trace.
\<close>

theorem secmon_irq_policy:
  fixes s :: "'a secmon_st_scheme"
  shows "secmon_check_cap_create tid ty (secmon_init s) =
    (if ty = CAP_TYPE_IRQLINE \<and> tid \<noteq> 0
     then (False, secmon_record AUDIT_POLICY_DENY tid 0 0 8 0 (secmon_init s))
     else (True, secmon_init s))"
  by (simp add: secmon_check_cap_create_def secmon_init_def Let_def)

end
