(* ===== verification/Cap.thy ===== *)
theory Cap
  imports Secmon
begin

text \<open>
  The capability table, \<open>kernel/cap.c\<close>: creation, derivation, lookup, rights check, reference
  counting, cascading revocation and transfer. A pointer to a table slot is the slot's index;
  \<open>cap_get\<close> returns it. The lemmas show the table invariant over every sequence of operations,
  that derivation never adds authority, and what revocation removes and what it leaves.
\<close>

section \<open>State\<close>

text \<open>
  The resource a capability names: a port or service slot of the kernel's own tables, or an
  address the table only carries around.
\<close>

datatype object = ONull | OPort nat | OSvc nat | OOther u64

record cap =
  c_id :: u32
  c_type :: cap_type
  c_rights :: u32
  c_object :: object
  c_parent :: u32
  c_ref_count :: u32
  c_owner_tid :: u32
  c_valid :: bool

definition cap_zero :: cap where
  "cap_zero = \<lparr>c_id = 0, c_type = CAP_TYPE_NULL, c_rights = 0, c_object = ONull, c_parent = 0,
     c_ref_count = 0, c_owner_tid = 0, c_valid = False\<rparr>"

abbreviation (input) CAP_RIGHT_READ :: u32 where "CAP_RIGHT_READ \<equiv> 0x01"
abbreviation (input) CAP_RIGHT_WRITE :: u32 where "CAP_RIGHT_WRITE \<equiv> 0x02"
abbreviation (input) CAP_RIGHT_GRANT :: u32 where "CAP_RIGHT_GRANT \<equiv> 0x10"
abbreviation (input) CAP_RIGHT_REVOKE :: u32 where "CAP_RIGHT_REVOKE \<equiv> 0x20"
abbreviation (input) CAP_RIGHT_MANAGE :: u32 where "CAP_RIGHT_MANAGE \<equiv> 0x40"

abbreviation (input) CAP_INVALID_ID :: u32 where "CAP_INVALID_ID \<equiv> 0"

definition CAP_TABLE_SIZE :: nat where
  "CAP_TABLE_SIZE = 4096"

record cap_st = secmon_st +
  cap_table :: "nat \<Rightarrow> cap"
  cap_next_id :: u32
  cap_active_count :: u32

section \<open>Operations\<close>

definition cap_alloc_slot :: "'a cap_st_scheme \<Rightarrow> nat option" where
  "cap_alloc_slot s = for_find (\<lambda>i. \<not> c_valid (cap_table s i)) 0 CAP_TABLE_SIZE"

definition cap_take_id :: "'a cap_st_scheme \<Rightarrow> u32 \<times> 'a cap_st_scheme" where
  "cap_take_id s =
     (let cid = cap_next_id s; next_id = cap_next_id s + 1
      in (cid, s\<lparr>cap_next_id := (if next_id = 0 then 1 else next_id)\<rparr>))"

definition cap_table_init :: "'a cap_st_scheme \<Rightarrow> 'a cap_st_scheme" where
  "cap_table_init s = s\<lparr>cap_table := \<lambda>_. cap_zero, cap_next_id := 1, cap_active_count := 0\<rparr>"

definition cap_get :: "u32 \<Rightarrow> 'a cap_st_scheme \<Rightarrow> nat option" where
  "cap_get cid s =
     (if cid = CAP_INVALID_ID then None
      else for_find (\<lambda>i. c_valid (cap_table s i) \<and> c_id (cap_table s i) = cid) 0 CAP_TABLE_SIZE)"

text \<open>A write to fields of one slot.\<close>

definition cap_slot_upd :: "nat \<Rightarrow> (cap \<Rightarrow> cap) \<Rightarrow> 'a cap_st_scheme \<Rightarrow> 'a cap_st_scheme" where
  "cap_slot_upd i f s = s\<lparr>cap_table := (cap_table s)(i := f (cap_table s i))\<rparr>"

definition cap_create ::
  "cap_type \<Rightarrow> u32 \<Rightarrow> object \<Rightarrow> u32 \<Rightarrow> 'a cap_st_scheme \<Rightarrow> u32 \<times> 'a cap_st_scheme" where
  "cap_create ty rights obj owner_tid s =
     (case cap_alloc_slot s of
        None \<Rightarrow> (CAP_INVALID_ID, s)
      | Some i \<Rightarrow>
          (let (cid, s1) = cap_take_id s;
               s2 = cap_slot_upd i (\<lambda>_. \<lparr>c_id = cid, c_type = ty, c_rights = rights, c_object = obj,
                      c_parent = CAP_INVALID_ID, c_ref_count = 1, c_owner_tid = owner_tid, c_valid = True\<rparr>) s1;
               s3 = s2\<lparr>cap_active_count := cap_active_count s2 + 1\<rparr>
           in (cid, secmon_audit_cap AUDIT_CAP_CREATE owner_tid cid (cap_type_code ty) rights s3)))"

definition cap_check :: "u32 \<Rightarrow> u32 \<Rightarrow> 'a cap_st_scheme \<Rightarrow> bool" where
  "cap_check cid required s =
     (case cap_get cid s of
        None \<Rightarrow> False
      | Some i \<Rightarrow> c_rights (cap_table s i) AND required = required)"

definition cap_addref :: "u32 \<Rightarrow> 'a cap_st_scheme \<Rightarrow> 'a cap_st_scheme" where
  "cap_addref cid s =
     (case cap_get cid s of
        None \<Rightarrow> s
      | Some i \<Rightarrow> cap_slot_upd i (\<lambda>c. c\<lparr>c_ref_count := c_ref_count c + 1\<rparr>) s)"

definition cap_derive :: "u32 \<Rightarrow> u32 \<Rightarrow> 'a cap_st_scheme \<Rightarrow> u32 \<times> 'a cap_st_scheme" where
  "cap_derive parent_id reduced_rights s =
     (case cap_get parent_id s of
        None \<Rightarrow> (CAP_INVALID_ID, s)
      | Some p \<Rightarrow>
          (let parent = cap_table s p in
           if reduced_rights AND NOT (c_rights parent) \<noteq> 0
           then (CAP_INVALID_ID,
                 secmon_audit_cap AUDIT_POLICY_DENY (c_owner_tid parent) parent_id reduced_rights 0 s)
           else if c_rights parent AND CAP_RIGHT_MANAGE = 0 then (CAP_INVALID_ID, s)
           else (case cap_alloc_slot s of
              None \<Rightarrow> (CAP_INVALID_ID, s)
            | Some i \<Rightarrow>
                (let (cid, s1) = cap_take_id s;
                     s2 = cap_slot_upd i (\<lambda>_. \<lparr>c_id = cid, c_type = c_type parent, c_rights = reduced_rights,
                            c_object = c_object parent, c_parent = parent_id, c_ref_count = 1,
                            c_owner_tid = c_owner_tid parent, c_valid = True\<rparr>) s1;
                     s3 = cap_addref parent_id s2;
                     s4 = s3\<lparr>cap_active_count := cap_active_count s3 + 1\<rparr>
                 in (cid, secmon_audit_cap AUDIT_CAP_DERIVE (c_owner_tid parent) cid parent_id reduced_rights s4)))))"

definition cap_transfer :: "u32 \<Rightarrow> u32 \<Rightarrow> 'a cap_st_scheme \<Rightarrow> u32 \<times> 'a cap_st_scheme" where
  "cap_transfer cid new_owner_tid s =
     (case cap_get cid s of
        None \<Rightarrow> (CAP_INVALID_ID, s)
      | Some i \<Rightarrow>
          if c_rights (cap_table s i) AND CAP_RIGHT_GRANT = 0 then (CAP_INVALID_ID, s)
          else (let old = c_owner_tid (cap_table s i);
                    s1 = cap_slot_upd i (\<lambda>c. c\<lparr>c_owner_tid := new_owner_tid\<rparr>) s
                in (cid, secmon_audit_cap AUDIT_CAP_TRANSFER old cid new_owner_tid 0 s1)))"

definition cap_count :: "'a cap_st_scheme \<Rightarrow> u32" where
  "cap_count s = cap_active_count s"

text \<open>The fields a slot loses when it is freed.\<close>

definition cap_kill :: "cap \<Rightarrow> cap" where
  "cap_kill c = c\<lparr>c_valid := False, c_object := ONull\<rparr>"

subsection \<open>Release\<close>

definition live_count :: "'a cap_st_scheme \<Rightarrow> nat" where
  "live_count s = cells (\<lambda>i. c_valid (cap_table s i)) CAP_TABLE_SIZE"

lemma cap_get_SomeD:
  "cap_get cid s = Some i \<Longrightarrow>
     i < CAP_TABLE_SIZE \<and> c_valid (cap_table s i) \<and> c_id (cap_table s i) = cid \<and> cid \<noteq> 0"
  by (auto simp: cap_get_def dest: for_find_SomeD split: if_splits)

lemma cap_table_slot_upd [simp]: "cap_table (cap_slot_upd i f s) = (cap_table s)(i := f (cap_table s i))"
  by (simp add: cap_slot_upd_def)

lemma live_count_kill:
  assumes "i < CAP_TABLE_SIZE" "c_valid (cap_table s i)" "\<And>c. \<not> c_valid (f c)"
  shows "live_count (cap_slot_upd i f s) < live_count s"
  using cells_clear [where P = "\<lambda>i. c_valid (cap_table s i)" and k = i and n = CAP_TABLE_SIZE
      and Q = "\<lambda>k. c_valid (((cap_table s)(i := f (cap_table s i))) k)"] assms
  by (simp add: live_count_def)

function (sequential) cap_release :: "u32 \<Rightarrow> 'a cap_st_scheme \<Rightarrow> 'a cap_st_scheme" where
  "cap_release cid s =
     (case cap_get cid s of
        None \<Rightarrow> s
      | Some i \<Rightarrow>
          if c_ref_count (cap_table s i) > 1
          then cap_slot_upd i (\<lambda>c. c\<lparr>c_ref_count := c_ref_count c - 1\<rparr>) s
          else (let s1 = cap_slot_upd i (\<lambda>c. (cap_kill c)\<lparr>c_ref_count := 0\<rparr>) s;
                    s2 = (if c_parent (cap_table s1 i) \<noteq> CAP_INVALID_ID
                          then cap_release (c_parent (cap_table s1 i)) s1 else s1)
                in s2\<lparr>cap_active_count := cap_active_count s2 - 1\<rparr>))"
  by pat_completeness auto
termination
  by (relation "measure (\<lambda>(cid, s). live_count s)")
    (auto intro!: live_count_kill simp: cap_kill_def dest: cap_get_SomeD)

declare cap_release.simps [simp del]

lemma live_count_mono:
  "(\<And>i. c_valid (cap_table t i) \<Longrightarrow> c_valid (cap_table s i)) \<Longrightarrow> live_count t \<le> live_count s"
  unfolding live_count_def by (rule cells_mono) auto

lemma live_count_cong [simp]:
  "live_count (cap_active_count_update f s) = live_count s"
  "live_count (secmon_record ty a c p d0 d1 s) = live_count s"
  by (simp_all add: live_count_def secmon_record_def Let_def)

text \<open>Induction over a release: what it does at the slot it finds, and then at the parent.\<close>

definition cap_free :: "cap \<Rightarrow> cap" where
  "cap_free c = (cap_kill c)\<lparr>c_ref_count := 0\<rparr>"

lemma cap_release_induct [case_names none dec free]:
  assumes none: "\<And>cid s. cap_get cid s = None \<Longrightarrow> P cid s s"
    and dec: "\<And>cid s i. cap_get cid s = Some i \<Longrightarrow> c_ref_count (cap_table s i) > 1 \<Longrightarrow>
      P cid s (cap_slot_upd i (\<lambda>c. c\<lparr>c_ref_count := c_ref_count c - 1\<rparr>) s)"
    and free: "\<And>cid s i s2. cap_get cid s = Some i \<Longrightarrow> \<not> c_ref_count (cap_table s i) > 1 \<Longrightarrow>
      (c_parent (cap_table s i) = 0 \<Longrightarrow> s2 = cap_slot_upd i cap_free s) \<Longrightarrow>
      (c_parent (cap_table s i) \<noteq> 0 \<Longrightarrow> P (c_parent (cap_table s i)) (cap_slot_upd i cap_free s) s2) \<Longrightarrow>
      P cid s (s2\<lparr>cap_active_count := cap_active_count s2 - 1\<rparr>)"
  shows "P cid s (cap_release cid s)"
proof (induction cid s rule: cap_release.induct)
  case (1 cid s)
  have free_eq: "(\<lambda>c. (cap_kill c)\<lparr>c_ref_count := 0\<rparr>) = cap_free" by (simp add: cap_free_def fun_eq_iff)
  show ?case
  proof (cases "cap_get cid s")
    case None
    then show ?thesis by (subst cap_release.simps) (simp add: none)
  next
    case (Some i)
    show ?thesis
    proof (cases "c_ref_count (cap_table s i) > 1")
      case True
      with Some show ?thesis by (subst cap_release.simps) (simp add: dec)
    next
      case False
      define s2 where "s2 = (if c_parent (cap_table s i) \<noteq> 0
        then cap_release (c_parent (cap_table s i)) (cap_slot_upd i cap_free s) else cap_slot_upd i cap_free s)"
      have par: "c_parent (cap_table (cap_slot_upd i cap_free s) i) = c_parent (cap_table s i)"
        by (simp add: cap_free_def cap_kill_def)
      have "cap_release cid s = s2\<lparr>cap_active_count := cap_active_count s2 - 1\<rparr>"
        using Some False by (subst cap_release.simps) (simp only: option.case if_False Let_def s2_def free_eq par)
      moreover have "P (c_parent (cap_table s i)) (cap_slot_upd i cap_free s) s2" if "c_parent (cap_table s i) \<noteq> 0"
        using 1 [OF Some False refl] that by (simp only: free_eq par s2_def if_True not_False_eq_True)
      ultimately show ?thesis
        using free [OF Some False, of s2] by (simp add: s2_def)
    qed
  qed
qed

lemma cap_free_simps [simp]:
  "\<not> c_valid (cap_free c)" "c_id (cap_free c) = c_id c" "c_parent (cap_free c) = c_parent c"
  "\<not> c_valid (cap_kill c)" "c_id (cap_kill c) = c_id c" "c_parent (cap_kill c) = c_parent c"
  by (simp_all add: cap_free_def cap_kill_def)

lemma cap_release_live:
  "c_valid (cap_table (cap_release cid s) j) \<longrightarrow> c_valid (cap_table s j)"
proof (induction rule: cap_release_induct)
  case (free cid s i s2)
  then show ?case by (cases "c_parent (cap_table s i) = 0") (auto split: if_splits)
qed (auto split: if_splits)

subsection \<open>Revocation\<close>

text \<open>
  \<open>cap_revoke\<close> and its loop over the table, which calls it again for every live slot whose parent
  is the capability just revoked. Every call that finds its capability frees a slot, so the
  recursion ends.
\<close>

definition revoke_start :: "u32 \<Rightarrow> nat \<Rightarrow> 'a cap_st_scheme \<Rightarrow> 'a cap_st_scheme" where
  "revoke_start cid i s =
     (let s1 = secmon_audit_cap AUDIT_CAP_REVOKE (c_owner_tid (cap_table s i)) cid 0 0 s;
          s2 = cap_slot_upd i cap_kill s1;
          s3 = s2\<lparr>cap_active_count := cap_active_count s2 - 1\<rparr>
      in if c_parent (cap_table s3 i) \<noteq> CAP_INVALID_ID
         then cap_release (c_parent (cap_table s3 i)) s3 else s3)"

function (sequential)
  cap_revoke :: "u32 \<Rightarrow> 'a cap_st_scheme \<Rightarrow> bool \<times> 'a cap_st_scheme" and
  revoke_children :: "nat \<Rightarrow> u32 \<Rightarrow> 'a cap_st_scheme \<Rightarrow> 'a cap_st_scheme"
where
  "cap_revoke cid s =
     (case cap_get cid s of
        None \<Rightarrow> (False, s)
      | Some i \<Rightarrow> (True, revoke_children 0 cid (revoke_start cid i s)))"
| "revoke_children i cid s =
     (if i < CAP_TABLE_SIZE
      then revoke_children (Suc i) cid
             (if c_valid (cap_table s i) \<and> c_parent (cap_table s i) = cid
              then snd (cap_revoke (c_id (cap_table s i)) s) else s)
      else s)"
  by pat_completeness auto

lemma cap_table_record [simp]: "cap_table (secmon_record ty a c p d0 d1 s) = cap_table s"
  by (simp add: secmon_record_def Let_def)

lemma revoke_start_live:
  "c_valid (cap_table (revoke_start cid i s) j) \<Longrightarrow> j \<noteq> i \<and> c_valid (cap_table s j)"
  by (auto simp: revoke_start_def Let_def kdef cap_kill_def dest!: cap_release_live [rule_format] split: if_splits)

lemma revoke_start_count:
  assumes "cap_get cid s = Some i"
  shows "live_count (revoke_start cid i s) < live_count s"
proof -
  have "live_count (revoke_start cid i s) \<le> live_count (cap_slot_upd i cap_kill s)"
    using revoke_start_live [of cid i s] by (intro live_count_mono) auto
  also have "\<dots> < live_count s"
    using cap_get_SomeD [OF assms] by (intro live_count_kill) (auto simp: cap_kill_def)
  finally show ?thesis .
qed

lemma revoke_live_partial:
  "cap_revoke_revoke_children_dom (Inl (cid, s)) \<Longrightarrow>
     (\<forall>j. c_valid (cap_table (snd (cap_revoke cid s)) j) \<longrightarrow> c_valid (cap_table s j))"
  "cap_revoke_revoke_children_dom (Inr (i, cid, s)) \<Longrightarrow>
     (\<forall>j. c_valid (cap_table (revoke_children i cid s) j) \<longrightarrow> c_valid (cap_table s j))"
proof (induction rule: cap_revoke_revoke_children.pinduct)
  case (1 cid s)
  show ?case
  proof (cases "cap_get cid s")
    case None
    then have "snd (cap_revoke cid s) = s" by (simp only: cap_revoke.psimps [OF 1(1)] option.case snd_conv)
    then show ?thesis by (simp only: simp_thms)
  next
    case (Some i)
    then have r: "snd (cap_revoke cid s) = revoke_children 0 cid (revoke_start cid i s)"
      by (simp only: cap_revoke.psimps [OF 1(1)] option.case snd_conv)
    show ?thesis
    proof (intro allI impI)
      fix j
      assume "c_valid (cap_table (snd (cap_revoke cid s)) j)"
      then have "c_valid (cap_table (revoke_start cid i s) j)" using 1(2) [OF Some] unfolding r by blast
      then show "c_valid (cap_table s j)" by (rule revoke_start_live [THEN conjunct2])
    qed
  qed
next
  case (2 i cid s)
  let ?c = "c_valid (cap_table s i) \<and> c_parent (cap_table s i) = cid"
  show ?case
  proof (cases "i < CAP_TABLE_SIZE")
    case True
    define s1 where "s1 = (if ?c then snd (cap_revoke (c_id (cap_table s i)) s) else s)"
    have live: "\<forall>j. c_valid (cap_table s1 j) \<longrightarrow> c_valid (cap_table s j)"
    proof (cases ?c)
      case c: True
      show ?thesis using 2(2) [OF True c] by (simp only: s1_def c if_True simp_thms)
    qed (simp only: s1_def if_False simp_thms)
    have "revoke_children i cid s = revoke_children (Suc i) cid s1"
      by (simp only: revoke_children.psimps [OF 2(1)] True if_True s1_def)
    with live 2(3) [OF True, folded s1_def] show ?thesis by metis
  next
    case False
    then have "revoke_children i cid s = s" by (simp only: revoke_children.psimps [OF 2(1)] if_False)
    then show ?thesis by (simp only: simp_thms)
  qed
qed

termination cap_revoke
proof (relation "measures [\<lambda>x. case x of Inl (cid, s) \<Rightarrow> live_count s | Inr (i, cid, s) \<Rightarrow> live_count s,
    \<lambda>x. case x of Inl _ \<Rightarrow> 0 | Inr (i, cid, s) \<Rightarrow> Suc (CAP_TABLE_SIZE - i)]", goal_cases)
  case 1
  show ?case by simp
next
  case (2 cid s i)
  then show ?case by (simp add: revoke_start_count)
next
  case (3 i cid s)
  then show ?case by simp
next
  case (4 i cid s)
  have "live_count (if c_valid (cap_table s i) \<and> c_parent (cap_table s i) = cid
      then snd (cap_revoke (c_id (cap_table s i)) s) else s) \<le> live_count s"
    using 4 revoke_live_partial(1) by (auto intro!: live_count_mono)
  with 4 show ?case by (auto simp: less_le)
qed

declare cap_revoke.simps [simp del] revoke_children.simps [simp del]

text \<open>Induction over a revocation, as relations between the states before and after.\<close>

lemma cap_revoke_induct [case_names absent found stop skip call]:
  assumes absent: "\<And>cid s. cap_get cid s = None \<Longrightarrow> P cid s s"
    and found: "\<And>cid s i s'. cap_get cid s = Some i \<Longrightarrow> Q 0 cid (revoke_start cid i s) s' \<Longrightarrow> P cid s s'"
    and stop: "\<And>i cid s. \<not> i < CAP_TABLE_SIZE \<Longrightarrow> Q i cid s s"
    and skip: "\<And>i cid s s'. i < CAP_TABLE_SIZE \<Longrightarrow>
      \<not> (c_valid (cap_table s i) \<and> c_parent (cap_table s i) = cid) \<Longrightarrow> Q (Suc i) cid s s' \<Longrightarrow> Q i cid s s'"
    and call: "\<And>i cid s s1 s'. i < CAP_TABLE_SIZE \<Longrightarrow> c_valid (cap_table s i) \<Longrightarrow>
      c_parent (cap_table s i) = cid \<Longrightarrow> P (c_id (cap_table s i)) s s1 \<Longrightarrow> Q (Suc i) cid s1 s' \<Longrightarrow> Q i cid s s'"
  shows "P cid s (snd (cap_revoke cid s))" and "Q i cid s (revoke_children i cid s)"
proof (induction cid s and i cid s rule: cap_revoke_revoke_children.induct)
  case (1 cid s)
  show ?case
  proof (cases "cap_get cid s")
    case None
    then show ?thesis by (simp only: cap_revoke.simps option.case snd_conv absent)
  next
    case (Some i)
    then show ?thesis using found [OF Some 1 [OF Some]] by (simp only: cap_revoke.simps option.case snd_conv)
  qed
next
  case (2 i cid s)
  let ?c = "c_valid (cap_table s i) \<and> c_parent (cap_table s i) = cid"
  show ?case
  proof (cases "i < CAP_TABLE_SIZE")
    case i: True
    show ?thesis
    proof (cases ?c)
      case True
      then show ?thesis using call [OF i _ _ 2(1) [OF i True]] 2(2) [OF i]
        by (simp only: revoke_children.simps [of i] i True if_True simp_thms)
    next
      case False
      then show ?thesis using skip [OF i False] 2(2) [OF i]
        by (simp only: revoke_children.simps [of i] i False if_True if_False simp_thms)
    qed
  next
    case False
    then show ?thesis using stop by (simp only: revoke_children.simps [of i] if_False)
  qed
qed

section \<open>The table invariant\<close>

text \<open>What a slot keeps for as long as it is live.\<close>

definition cap_core :: "cap \<Rightarrow> u32 \<times> cap_type \<times> u32 \<times> object \<times> u32" where
  "cap_core c = (c_id c, c_type c, c_rights c, c_object c, c_parent c)"

text \<open>A derived capability against its parent: no right the parent lacks, the same resource.\<close>

definition derived_ok :: "cap \<Rightarrow> cap \<Rightarrow> bool" where
  "derived_ok c p \<longleftrightarrow> c_rights c AND NOT (c_rights p) = 0 \<and> c_type c = c_type p \<and>
     c_object c = c_object p \<and> c_rights p AND CAP_RIGHT_MANAGE \<noteq> 0"

definition cap_inv :: "'a cap_st_scheme \<Rightarrow> bool" where
  "cap_inv s \<longleftrightarrow>
     cap_next_id s \<noteq> 0 \<and> cap_active_count s = of_nat (live_count s) \<and>
     (\<forall>i < CAP_TABLE_SIZE. c_valid (cap_table s i) \<longrightarrow>
        c_id (cap_table s i) < cap_next_id s \<and> c_parent (cap_table s i) < c_id (cap_table s i) \<and>
        (\<forall>j < CAP_TABLE_SIZE. c_valid (cap_table s j) \<longrightarrow>
           (c_id (cap_table s i) = c_id (cap_table s j) \<longrightarrow> i = j) \<and>
           (c_parent (cap_table s i) = c_id (cap_table s j) \<longrightarrow> derived_ok (cap_table s i) (cap_table s j))))"

text \<open>Operations that only free slots, or change the reference count or the owner of live ones.\<close>

definition cap_drift :: "'a cap_st_scheme \<Rightarrow> u32" where
  "cap_drift s = cap_active_count s - of_nat (live_count s)"

definition shrinks :: "'a cap_st_scheme \<Rightarrow> 'a cap_st_scheme \<Rightarrow> bool" where
  "shrinks s s' \<longleftrightarrow> cap_next_id s' = cap_next_id s \<and> cap_drift s' = cap_drift s \<and>
     (\<forall>j. c_valid (cap_table s' j) \<longrightarrow> c_valid (cap_table s j) \<and> cap_core (cap_table s' j) = cap_core (cap_table s j))"

lemma shrinks_refl [simp]: "shrinks s s"
  by (simp add: shrinks_def)

lemma shrinks_trans: "shrinks s t \<Longrightarrow> shrinks t u \<Longrightarrow> shrinks s u"
  by (auto simp: shrinks_def)

lemma core_eqD:
  "cap_core c = cap_core d \<Longrightarrow> c_id c = c_id d \<and> c_parent c = c_parent d \<and> c_rights c = c_rights d
     \<and> c_type c = c_type d \<and> c_object c = c_object d"
  by (simp add: cap_core_def)

lemma shrinksD:
  assumes "shrinks s s'" "c_valid (cap_table s' j)"
  shows "c_valid (cap_table s j)" "c_id (cap_table s' j) = c_id (cap_table s j)"
    "c_parent (cap_table s' j) = c_parent (cap_table s j)" "c_rights (cap_table s' j) = c_rights (cap_table s j)"
    "c_type (cap_table s' j) = c_type (cap_table s j)" "c_object (cap_table s' j) = c_object (cap_table s j)"
  using assms by (auto simp: shrinks_def dest!: core_eqD)

lemma cap_inv_shrinks:
  assumes "cap_inv s" "shrinks s s'"
  shows "cap_inv s'"
proof -
  have "cap_next_id s' = cap_next_id s" "cap_drift s' = cap_drift s"
    using assms(2) by (auto simp: shrinks_def)
  moreover have "cap_drift s = 0" using assms(1) by (simp add: cap_inv_def cap_drift_def)
  ultimately have "cap_next_id s' = cap_next_id s" "cap_active_count s' = of_nat (live_count s')"
    by (auto simp: cap_drift_def)
  with assms show ?thesis
    unfolding cap_inv_def derived_ok_def by (auto simp: shrinksD [OF assms(2)])
qed

lemma drift_kill:
  assumes "i < CAP_TABLE_SIZE" "c_valid (cap_table s i)" "\<not> c_valid (f (cap_table s i))"
  shows "live_count s = Suc (live_count (cap_slot_upd i f s))"
  using cells_clear [where P = "\<lambda>i. c_valid (cap_table s i)" and k = i and n = CAP_TABLE_SIZE
      and Q = "\<lambda>k. c_valid (((cap_table s)(i := f (cap_table s i))) k)"] assms
  by (simp add: live_count_def)

lemma slot_upd_sel [simp]:
  "cap_next_id (cap_slot_upd i f s) = cap_next_id s"
  "cap_active_count (cap_slot_upd i f s) = cap_active_count s"
  by (simp_all add: cap_slot_upd_def)

lemma record_sel [simp]:
  "cap_next_id (secmon_record ty a c p d0 d1 s) = cap_next_id s"
  "cap_active_count (secmon_record ty a c p d0 d1 s) = cap_active_count s"
  by (simp_all add: secmon_record_def Let_def)

lemma shrinks_record [simp]: "shrinks s (secmon_record ty a c p d0 d1 s)"
  by (simp add: shrinks_def cap_drift_def)

lemma live_count_keep:
  "c_valid (f (cap_table s i)) = c_valid (cap_table s i) \<Longrightarrow> live_count (cap_slot_upd i f s) = live_count s"
  unfolding live_count_def by (rule cells_cong) auto

lemma shrinks_keep:
  assumes "c_valid (f (cap_table s i)) = c_valid (cap_table s i)" "cap_core (f (cap_table s i)) = cap_core (cap_table s i)"
  shows "shrinks s (cap_slot_upd i f s)"
  using assms by (auto simp: shrinks_def cap_drift_def live_count_keep)

lemma shrinks_kill:
  assumes "cap_get cid s = Some i" "\<And>c. \<not> c_valid (f c)"
  shows "shrinks s ((cap_slot_upd i f s)\<lparr>cap_active_count := cap_active_count s - 1\<rparr>)"
  using cap_get_SomeD [OF assms(1)] assms(2) drift_kill [of i s f]
  by (auto simp: shrinks_def cap_drift_def)

lemma cap_release_shrinks: "shrinks s (cap_release cid s)"
proof (induction rule: cap_release_induct)
  case (none cid s)
  show ?case by simp
next
  case (dec cid s i)
  show ?case by (rule shrinks_keep) (simp_all add: cap_core_def)
next
  case (free cid s i s2)
  note i = cap_get_SomeD [OF free(1)]
  have "shrinks (cap_slot_upd i cap_free s) s2"
    using free(3,4) by (cases "c_parent (cap_table s i) = 0") simp_all
  then show ?case
    using drift_kill [of i s cap_free] i
    by (auto simp: shrinks_def cap_drift_def algebra_simps split: if_splits)
qed

lemma revoke_start_shrinks:
  assumes "cap_get cid s = Some i"
  shows "shrinks s (revoke_start cid i s)"
proof -
  let ?s1 = "secmon_audit_cap AUDIT_CAP_REVOKE (c_owner_tid (cap_table s i)) cid 0 0 s"
  have "cap_get cid ?s1 = Some i" using assms by (simp add: cap_get_def kdef split: if_splits)
  from shrinks_kill [OF this, of cap_kill]
  have "shrinks s ((cap_slot_upd i cap_kill ?s1)\<lparr>cap_active_count := cap_active_count ?s1 - 1\<rparr>)"
    using shrinks_trans [OF shrinks_record] by (simp add: kdef)
  then show ?thesis
    using shrinks_trans [OF _ cap_release_shrinks] by (auto simp: revoke_start_def Let_def)
qed

lemma cap_revoke_shrinks: "shrinks s (snd (cap_revoke cid s))"
  by (rule cap_revoke_induct(1) [where P = "\<lambda>cid s s'. shrinks s s'" and Q = "\<lambda>i cid s s'. shrinks s s'"])
    (auto intro: shrinks_trans revoke_start_shrinks)

lemma cap_addref_shrinks: "shrinks s (cap_addref cid s)"
  unfolding cap_addref_def
  by (auto intro!: shrinks_keep simp: cap_core_def split: option.splits)

lemma cap_transfer_shrinks: "shrinks s (snd (cap_transfer cid tid s))"
  unfolding cap_transfer_def Let_def kdef
  by (auto intro!: shrinks_trans [OF shrinks_keep shrinks_record] simp: cap_core_def split: option.splits)

text \<open>A fresh identifier is above every identifier in use, so the new slot clashes with none.\<close>

lemma alloc_slot_SomeD: "cap_alloc_slot s = Some i \<Longrightarrow> i < CAP_TABLE_SIZE \<and> \<not> c_valid (cap_table s i)"
  by (auto simp: cap_alloc_slot_def dest: for_find_SomeD)

definition id_left :: "'a cap_st_scheme \<Rightarrow> bool" where
  "id_left s \<longleftrightarrow> cap_next_id s \<noteq> - 1"

lemma next_id_less: "id_left s \<Longrightarrow> cap_next_id s < cap_next_id s + 1"
  using unat_Suc_no_wrap [of "cap_next_id s"] by (auto simp: id_left_def word_less_nat_alt)

lemma cap_inv_fresh:
  assumes inv: "cap_inv s" and i: "cap_alloc_slot s = Some i" and left: "id_left s"
    and c: "c_id c = cap_next_id s" "c_valid c" "c_parent c < cap_next_id s"
    and par: "\<And>j. j < CAP_TABLE_SIZE \<Longrightarrow> c_valid (cap_table s j) \<Longrightarrow> c_id (cap_table s j) = c_parent c \<Longrightarrow>
      derived_ok c (cap_table s j)"
  shows "cap_inv (cap_slot_upd i (\<lambda>_. c) (s\<lparr>cap_next_id := cap_next_id s + 1,
    cap_active_count := cap_active_count s + 1\<rparr>))" (is "cap_inv ?s'")
proof -
  note i = alloc_slot_SomeD [OF i]
  have cnt: "live_count ?s' = Suc (live_count s)"
    using cells_set [where P = "\<lambda>i. c_valid (cap_table s i)" and k = i and n = CAP_TABLE_SIZE
        and Q = "\<lambda>k. c_valid (((cap_table s)(i := c)) k)"] i c
    by (simp add: live_count_def)
  have old: "c_id (cap_table s j) < cap_next_id s" "c_parent (cap_table s j) < cap_next_id s"
    "c_id (cap_table s j) < cap_next_id s + 1"
    if "j < CAP_TABLE_SIZE" "c_valid (cap_table s j)" for j
    using inv that next_id_less [OF left] unfolding cap_inv_def by (meson less_trans)+
  have cc: "derived_ok (cap_table s j) c \<or> c_parent (cap_table s j) \<noteq> c_id c"
    "c_id (cap_table s j) \<noteq> c_id c" if "j < CAP_TABLE_SIZE" "c_valid (cap_table s j)" for j
    using old [OF that] c(1) by auto
  show ?thesis
    unfolding cap_inv_def cnt
  proof (intro conjI allI impI)
    fix k j
    let ?t = "cap_table ?s'"
    assume kj: "k < CAP_TABLE_SIZE" "c_valid (?t k)" "j < CAP_TABLE_SIZE" "c_valid (?t j)"
    show "k = j" if "c_id (?t k) = c_id (?t j)"
      using kj that cc(2) [of k] cc(2) [of j] inv by (cases "k = i"; cases "j = i") (auto simp: cap_inv_def)
    show "derived_ok (?t k) (?t j)" if "c_parent (?t k) = c_id (?t j)"
      using kj that cc(1) [of k] par [of j] inv c(1,3) by (cases "k = i"; cases "j = i") (auto simp: cap_inv_def)
  next
    show "cap_next_id ?s' \<noteq> 0" using next_id_less [OF left] by (auto simp: cap_slot_upd_def)
    show "cap_active_count ?s' = of_nat (Suc (live_count s))"
      using inv by (simp add: cap_inv_def cap_slot_upd_def)
    fix k
    assume "k < CAP_TABLE_SIZE" "c_valid (cap_table ?s' k)"
    then show "c_id (cap_table ?s' k) < cap_next_id ?s'" "c_parent (cap_table ?s' k) < c_id (cap_table ?s' k)"
      using old [of k] c next_id_less [OF left] inv by (cases "k = i"; simp add: cap_inv_def)+
  qed
qed

lemma cap_inv_init: "cap_inv (cap_table_init s)"
  by (simp add: cap_inv_def cap_table_init_def live_count_def cap_zero_def cells_none)

lemma cap_take_id_left:
  "id_left s \<Longrightarrow> cap_take_id s = (cap_next_id s, s\<lparr>cap_next_id := cap_next_id s + 1\<rparr>)"
  using next_id_less [of s] by (auto simp: cap_take_id_def Let_def)

lemma slot_upd_active:
  "(cap_slot_upd i f (s\<lparr>cap_next_id := n\<rparr>))\<lparr>cap_active_count := a\<rparr>
     = cap_slot_upd i f (s\<lparr>cap_next_id := n, cap_active_count := a\<rparr>)"
  by (simp add: cap_slot_upd_def)

definition root_cap :: "u32 \<Rightarrow> cap_type \<Rightarrow> u32 \<Rightarrow> object \<Rightarrow> u32 \<Rightarrow> cap" where
  "root_cap cid ty rights obj tid = \<lparr>c_id = cid, c_type = ty, c_rights = rights, c_object = obj, c_parent = 0,
     c_ref_count = 1, c_owner_tid = tid, c_valid = True\<rparr>"

lemma cap_create_eq:
  assumes "id_left s" "cap_alloc_slot s = Some i"
  shows "cap_create ty rights obj tid s = (cap_next_id s,
    secmon_record AUDIT_CAP_CREATE tid (cap_next_id s) 0 (cap_type_code ty) rights
      (cap_slot_upd i (\<lambda>_. root_cap (cap_next_id s) ty rights obj tid)
        (s\<lparr>cap_next_id := cap_next_id s + 1, cap_active_count := cap_active_count s + 1\<rparr>)))"
  by (simp add: cap_create_def assms cap_take_id_left [OF assms(1)] Let_def secmon_audit_cap_def
      slot_upd_active root_cap_def)

lemma cap_create_full: "cap_alloc_slot s = None \<Longrightarrow> cap_create ty rights obj tid s = (0, s)"
  by (simp add: cap_create_def)

lemma cap_inv_create:
  assumes "cap_inv s" "id_left s"
  shows "cap_inv (snd (cap_create ty rights obj tid s))"
proof (cases "cap_alloc_slot s")
  case None
  then show ?thesis using assms by (simp add: cap_create_full)
next
  case (Some i)
  let ?c = "root_cap (cap_next_id s) ty rights obj tid"
  have c: "c_id ?c = cap_next_id s" "c_valid ?c" "c_parent ?c = 0" by (simp_all add: root_cap_def)
  have pos: "c_parent ?c < cap_next_id s" using assms(1) c(3) by (simp add: cap_inv_def word_gt_0)
  have "cap_inv (cap_slot_upd i (\<lambda>_. ?c) (s\<lparr>cap_next_id := cap_next_id s + 1, cap_active_count := cap_active_count s + 1\<rparr>))"
  proof (rule cap_inv_fresh [OF assms(1) Some assms(2) c(1,2) pos])
    fix j
    assume "j < CAP_TABLE_SIZE" "c_valid (cap_table s j)" "c_id (cap_table s j) = c_parent ?c"
    with assms(1) have "c_parent (cap_table s j) < 0" unfolding c(3) cap_inv_def by metis
    then show "derived_ok ?c (cap_table s j)" by simp
  qed
  from cap_inv_shrinks [OF this shrinks_record] show ?thesis
    unfolding cap_create_eq [OF assms(2) Some] by simp
qed

definition sub_cap :: "u32 \<Rightarrow> u32 \<Rightarrow> u32 \<Rightarrow> cap \<Rightarrow> cap" where
  "sub_cap cid parent_id rights p = \<lparr>c_id = cid, c_type = c_type p, c_rights = rights, c_object = c_object p,
     c_parent = parent_id, c_ref_count = 1, c_owner_tid = c_owner_tid p, c_valid = True\<rparr>"

lemma cap_derive_eq:
  assumes "id_left s" "cap_alloc_slot s = Some i" "cap_get pid s = Some p"
    "rights AND NOT (c_rights (cap_table s p)) = 0" "c_rights (cap_table s p) AND CAP_RIGHT_MANAGE \<noteq> 0"
  shows "cap_derive pid rights s = (cap_next_id s,
    secmon_record AUDIT_CAP_DERIVE (c_owner_tid (cap_table s p)) (cap_next_id s) 0 pid rights
      (let s3 = cap_addref pid (cap_slot_upd i (\<lambda>_. sub_cap (cap_next_id s) pid rights (cap_table s p))
        (s\<lparr>cap_next_id := cap_next_id s + 1\<rparr>)) in s3\<lparr>cap_active_count := cap_active_count s3 + 1\<rparr>))"
  using assms(4,5)
  by (simp add: cap_derive_def assms(2,3) cap_take_id_left [OF assms(1)] Let_def secmon_audit_cap_def sub_cap_def)

lemma cap_derive_None:
  assumes "cap_alloc_slot s = None \<or> cap_get pid s = None \<or>
    (\<exists>p. cap_get pid s = Some p \<and> (rights AND NOT (c_rights (cap_table s p)) \<noteq> 0 \<or>
           c_rights (cap_table s p) AND CAP_RIGHT_MANAGE = 0))"
  shows "fst (cap_derive pid rights s) = 0 \<and> cap_table (snd (cap_derive pid rights s)) = cap_table s
    \<and> shrinks s (snd (cap_derive pid rights s))"
  using assms by (auto simp: cap_derive_def Let_def secmon_audit_cap_def split: option.splits)

lemma cap_get_cong: "cap_table s = cap_table t \<Longrightarrow> cap_get cid s = cap_get cid t"
  by (simp add: cap_get_def)

lemma addref_active:
  "(cap_addref pid s)\<lparr>cap_active_count := cap_active_count (cap_addref pid s) + 1\<rparr>
     = cap_addref pid (s\<lparr>cap_active_count := cap_active_count s + 1\<rparr>)"
  by (simp add: cap_addref_def cap_get_cong [of "s\<lparr>cap_active_count := cap_active_count s + 1\<rparr>" s]
      cap_slot_upd_def split: option.splits)

lemma cap_inv_unique:
  "cap_inv s \<Longrightarrow> i < CAP_TABLE_SIZE \<Longrightarrow> j < CAP_TABLE_SIZE \<Longrightarrow> c_valid (cap_table s i) \<Longrightarrow>
     c_valid (cap_table s j) \<Longrightarrow> c_id (cap_table s i) = c_id (cap_table s j) \<Longrightarrow> i = j"
  by (simp add: cap_inv_def)

lemma cap_inv_id:
  assumes "cap_inv s" "i < CAP_TABLE_SIZE" "c_valid (cap_table s i)"
  shows "c_id (cap_table s i) < cap_next_id s" "c_parent (cap_table s i) < c_id (cap_table s i)"
    "c_id (cap_table s i) \<noteq> 0"
proof -
  show "c_id (cap_table s i) < cap_next_id s" "c_parent (cap_table s i) < c_id (cap_table s i)"
    using assms unfolding cap_inv_def by blast+
  then show "c_id (cap_table s i) \<noteq> 0" by auto
qed

lemma cap_get_iff:
  assumes "cap_inv s"
  shows "cap_get cid s = Some i \<longleftrightarrow> i < CAP_TABLE_SIZE \<and> c_valid (cap_table s i) \<and> c_id (cap_table s i) = cid"
proof
  assume "cap_get cid s = Some i"
  then show "i < CAP_TABLE_SIZE \<and> c_valid (cap_table s i) \<and> c_id (cap_table s i) = cid"
    by (auto dest: cap_get_SomeD)
next
  assume i: "i < CAP_TABLE_SIZE \<and> c_valid (cap_table s i) \<and> c_id (cap_table s i) = cid"
  then have "for_find (\<lambda>i. c_valid (cap_table s i) \<and> c_id (cap_table s i) = cid) 0 CAP_TABLE_SIZE = Some i"
    using cap_inv_unique [OF assms] by (intro for_find_unique) auto
  with i cap_inv_id(3) [OF assms, of i] show "cap_get cid s = Some i" by (simp add: cap_get_def)
qed

lemma cap_inv_derive:
  assumes "cap_inv s" "id_left s"
  shows "cap_inv (snd (cap_derive pid rights s))"
proof (cases "cap_alloc_slot s = None \<or> cap_get pid s = None \<or>
    (\<exists>p. cap_get pid s = Some p \<and> (rights AND NOT (c_rights (cap_table s p)) \<noteq> 0 \<or>
           c_rights (cap_table s p) AND CAP_RIGHT_MANAGE = 0))")
  case True
  then show ?thesis using cap_derive_None [OF True] cap_inv_shrinks [OF assms(1)] by blast
next
  case False
  then obtain i p where i: "cap_alloc_slot s = Some i" and p: "cap_get pid s = Some p"
    and r: "rights AND NOT (c_rights (cap_table s p)) = 0" "c_rights (cap_table s p) AND CAP_RIGHT_MANAGE \<noteq> 0"
    by auto
  let ?c = "sub_cap (cap_next_id s) pid rights (cap_table s p)"
  note pp = cap_get_SomeD [OF p]
  have c: "c_id ?c = cap_next_id s" "c_valid ?c" "c_parent ?c = pid" by (simp_all add: sub_cap_def)
  have pos: "c_parent ?c < cap_next_id s" using cap_inv_id(1) [OF assms(1)] pp c(3) by metis
  have "cap_inv (cap_slot_upd i (\<lambda>_. ?c) (s\<lparr>cap_next_id := cap_next_id s + 1, cap_active_count := cap_active_count s + 1\<rparr>))"
  proof (rule cap_inv_fresh [OF assms(1) i assms(2) c(1,2) pos])
    fix j
    assume "j < CAP_TABLE_SIZE" "c_valid (cap_table s j)" "c_id (cap_table s j) = c_parent ?c"
    then have "j = p" using cap_inv_unique [OF assms(1)] pp c(3) by metis
    then show "derived_ok ?c (cap_table s j)" using r by (simp add: derived_ok_def sub_cap_def)
  qed
  from cap_inv_shrinks [OF this shrinks_trans [OF cap_addref_shrinks shrinks_record]] show ?thesis
    unfolding cap_derive_eq [OF assms(2) i p r] Let_def addref_active snd_conv slot_upd_active [symmetric]
    by (simp only: slot_upd_sel cap_st.select_convs cap_st.update_convs) simp
qed

section \<open>Sequences of operations\<close>

datatype cap_op =
  Cap_Create cap_type u32 object u32
  | Cap_Derive u32 u32
  | Cap_Revoke u32
  | Cap_Addref u32
  | Cap_Release u32
  | Cap_Transfer u32 u32

primrec cap_exec :: "cap_op \<Rightarrow> 'a cap_st_scheme \<Rightarrow> 'a cap_st_scheme" where
  "cap_exec (Cap_Create ty r obj tid) s = snd (cap_create ty r obj tid s)"
| "cap_exec (Cap_Derive pid r) s = snd (cap_derive pid r s)"
| "cap_exec (Cap_Revoke cid) s = snd (cap_revoke cid s)"
| "cap_exec (Cap_Addref cid) s = cap_addref cid s"
| "cap_exec (Cap_Release cid) s = cap_release cid s"
| "cap_exec (Cap_Transfer cid tid) s = snd (cap_transfer cid tid s)"

definition cap_run :: "cap_op list \<Rightarrow> 'a cap_st_scheme \<Rightarrow> 'a cap_st_scheme" where
  "cap_run ops s = fold cap_exec ops s"

lemma next_id_addref [simp]: "cap_next_id (cap_addref cid s) = cap_next_id s"
  using cap_addref_shrinks [of s cid] by (simp add: shrinks_def)

lemma cap_exec_next_id:
  assumes "id_left s"
  shows "cap_next_id (cap_exec op s) \<in> {cap_next_id s, cap_next_id s + 1}"
proof (cases op)
  case (Cap_Create ty r obj tid)
  then show ?thesis
    by (cases "cap_alloc_slot s") (simp_all add: cap_create_full cap_create_eq [OF assms])
next
  case (Cap_Derive pid r)
  show ?thesis
  proof (cases "shrinks s (snd (cap_derive pid r s))")
    case True
    then show ?thesis by (simp add: Cap_Derive shrinks_def)
  next
    case False
    then obtain i p where "cap_alloc_slot s = Some i" "cap_get pid s = Some p"
      "r AND NOT (c_rights (cap_table s p)) = 0" "c_rights (cap_table s p) AND CAP_RIGHT_MANAGE \<noteq> 0"
      using cap_derive_None [of s pid r] by (cases "cap_alloc_slot s"; cases "cap_get pid s") auto
    from cap_derive_eq [OF assms this] show ?thesis by (simp add: Cap_Derive Let_def)
  qed
qed (use cap_revoke_shrinks [of s] cap_addref_shrinks [of s] cap_release_shrinks [of s]
       cap_transfer_shrinks [of s] in \<open>auto simp: shrinks_def\<close>)

lemma cap_exec_inv:
  assumes "cap_inv s" "id_left s"
  shows "cap_inv (cap_exec op s)"
  by (cases op) (auto simp: cap_inv_create [OF assms] cap_inv_derive [OF assms]
      intro: cap_inv_shrinks [OF assms(1)] cap_revoke_shrinks cap_addref_shrinks cap_release_shrinks
        cap_transfer_shrinks)

lemma cap_run_inv_count:
  "length ops + 1 < 2 ^ 32 \<Longrightarrow> cap_inv (cap_run ops (cap_table_init s)) \<and>
     unat (cap_next_id (cap_run ops (cap_table_init s))) \<le> Suc (length ops)"
proof (induction ops rule: rev_induct)
  case Nil
  then show ?case using cap_inv_init by (simp add: cap_run_def cap_table_init_def)
next
  case (snoc op ops)
  let ?s = "cap_run ops (cap_table_init s)"
  from snoc have inv: "cap_inv ?s" and n: "unat (cap_next_id ?s) \<le> Suc (length ops)" by simp_all
  have left: "id_left ?s"
  proof -
    have "unat (- 1 :: u32) = 2 ^ 32 - 1"
      by (simp add: unsigned_minus_1_eq_mask mask_eq_exp_minus_1)
    with n snoc.prems show ?thesis by (auto simp: id_left_def)
  qed
  have run: "cap_run (ops @ [op]) (cap_table_init s) = cap_exec op ?s" by (simp add: cap_run_def)
  have "unat (cap_next_id (cap_exec op ?s)) \<le> Suc (unat (cap_next_id ?s))"
    using cap_exec_next_id [OF left, of op] unat_Suc_no_wrap [of "cap_next_id ?s"] left
    by (auto simp: id_left_def)
  then show ?case using n cap_exec_inv [OF inv left] by (simp add: run)
qed

lemmas cap_run_inv = cap_run_inv_count [THEN conjunct1]

section \<open>Derivation\<close>

text \<open>
  The capabilities that descend from \<open>a\<close> through live derivations. Nothing is asked of \<open>a\<close>
  itself: it may already be gone.
\<close>

inductive derived :: "(nat \<Rightarrow> cap) \<Rightarrow> u32 \<Rightarrow> u32 \<Rightarrow> bool" for t :: "nat \<Rightarrow> cap" and a :: u32 where
  child: "i < CAP_TABLE_SIZE \<Longrightarrow> c_valid (t i) \<Longrightarrow> c_parent (t i) = a \<Longrightarrow> a \<noteq> 0 \<Longrightarrow> derived t a (c_id (t i))"
| step: "derived t a b \<Longrightarrow> i < CAP_TABLE_SIZE \<Longrightarrow> c_valid (t i) \<Longrightarrow> c_parent (t i) = b \<Longrightarrow> derived t a (c_id (t i))"

lemma derived_mono:
  assumes "derived t a d" "\<And>i. c_valid (t i) \<Longrightarrow> c_valid (u i) \<and> c_id (u i) = c_id (t i) \<and> c_parent (u i) = c_parent (t i)"
  shows "derived u a d"
  using assms(1)
proof induction
  case (child i)
  then show ?case using assms(2) [of i] derived.child [of i u a] by auto
next
  case (step b i)
  then show ?case using assms(2) [of i] derived.step [of u a b i] by auto
qed

lemma derived_slot: "derived t a d \<Longrightarrow> \<exists>i < CAP_TABLE_SIZE. c_valid (t i) \<and> c_id (t i) = d"
  by (induction rule: derived.induct) auto

lemma derived_less:
  assumes "cap_inv s" "derived (cap_table s) a d"
  shows "a < d"
  using assms(2)
proof induction
  case (child i)
  then show ?case using cap_inv_id(2) [OF assms(1)] by auto
next
  case (step b i)
  then show ?case using cap_inv_id(2) [OF assms(1), of i] by auto
qed

lemma derived_rights:
  assumes "cap_inv s" "derived (cap_table s) a d" "cap_get a s = Some i" "cap_get d s = Some j"
  shows "c_rights (cap_table s j) AND NOT (c_rights (cap_table s i)) = 0 \<and>
    c_type (cap_table s j) = c_type (cap_table s i) \<and> c_object (cap_table s j) = c_object (cap_table s i)"
  using assms(2,4)
proof (induction arbitrary: j)
  case (child k)
  then have "k = j" using assms(1) by (auto simp: cap_get_iff dest: cap_inv_unique)
  with child have "derived_ok (cap_table s j) (cap_table s i)"
    using assms(1,3) unfolding cap_get_iff [OF assms(1)] cap_inv_def by metis
  then show ?case by (simp add: derived_ok_def)
next
  case (step b k)
  then have k: "k = j" using assms(1) by (auto simp: cap_get_iff dest: cap_inv_unique)
  obtain m where m: "cap_get b s = Some m"
    using derived_slot [OF step.hyps(1)] by (auto simp: cap_get_iff [OF assms(1)])
  with step k have "derived_ok (cap_table s j) (cap_table s m)"
    using assms(1) unfolding cap_get_iff [OF assms(1)] cap_inv_def by metis
  with step.IH [OF m] show ?case
    using word_subset_trans [of "c_rights (cap_table s j)" "c_rights (cap_table s m)"] by (auto simp: derived_ok_def)
qed

section \<open>Revocation\<close>

text \<open>
  What the cascade does to the table, given that the capability \<open>a\<close> whose children it removes is
  no longer live: a slot is left alone or freed; only descendants of \<open>a\<close> are freed; and with a
  slot all its live children are freed.
\<close>

definition prunes :: "u32 set \<Rightarrow> (nat \<Rightarrow> cap) \<Rightarrow> (nat \<Rightarrow> cap) \<Rightarrow> bool" where
  "prunes D t t' \<longleftrightarrow>
     (\<forall>j. t' j = t j \<or> c_valid (t j) \<and> \<not> c_valid (t' j) \<and> c_id (t j) \<in> D) \<and>
     (\<forall>j < CAP_TABLE_SIZE. \<forall>m < CAP_TABLE_SIZE. c_valid (t j) \<and> \<not> c_valid (t' j) \<and> c_valid (t m) \<and>
        c_parent (t m) = c_id (t j) \<longrightarrow> \<not> c_valid (t' m))"

lemma prunesI:
  assumes "\<And>j. t' j = t j \<or> c_valid (t j) \<and> \<not> c_valid (t' j) \<and> c_id (t j) \<in> D"
    and "\<And>j m. j < CAP_TABLE_SIZE \<Longrightarrow> m < CAP_TABLE_SIZE \<Longrightarrow> c_valid (t j) \<Longrightarrow> \<not> c_valid (t' j) \<Longrightarrow>
      c_valid (t m) \<Longrightarrow> c_parent (t m) = c_id (t j) \<Longrightarrow> \<not> c_valid (t' m)"
  shows "prunes D t t'"
  using assms unfolding prunes_def by blast

lemma prunes_slot: "prunes D t t' \<Longrightarrow> t' j = t j \<or> c_valid (t j) \<and> \<not> c_valid (t' j) \<and> c_id (t j) \<in> D"
  unfolding prunes_def by blast

lemma prunes_same: "prunes D t t' \<Longrightarrow> c_valid (t' j) \<Longrightarrow> t' j = t j"
  using prunes_slot by blast

lemma prunes_child:
  "prunes D t t' \<Longrightarrow> j < CAP_TABLE_SIZE \<Longrightarrow> m < CAP_TABLE_SIZE \<Longrightarrow> c_valid (t j) \<Longrightarrow> \<not> c_valid (t' j) \<Longrightarrow>
     c_valid (t m) \<Longrightarrow> c_parent (t m) = c_id (t j) \<Longrightarrow> \<not> c_valid (t' m)"
  unfolding prunes_def by blast

lemma prunes_refl: "prunes D t t"
  by (rule prunesI) simp_all

lemma prunes_mono: "prunes D t t' \<Longrightarrow> D \<subseteq> E \<Longrightarrow> prunes E t t'"
  unfolding prunes_def by blast

lemma prunes_trans:
  assumes tu: "prunes D t u" and uv: "prunes D u v"
  shows "prunes D t v"
proof (rule prunesI)
  show "v j = t j \<or> c_valid (t j) \<and> \<not> c_valid (v j) \<and> c_id (t j) \<in> D" for j
    using prunes_slot [OF tu, of j] prunes_slot [OF uv, of j] by metis
  fix j m
  assume jm: "j < CAP_TABLE_SIZE" "m < CAP_TABLE_SIZE" "c_valid (t j)" "\<not> c_valid (v j)" "c_valid (t m)"
    "c_parent (t m) = c_id (t j)"
  show "\<not> c_valid (v m)"
  proof
    assume vm: "c_valid (v m)"
    then have um: "v m = u m" using prunes_same [OF uv] by blast
    then have tm: "u m = t m" using prunes_same [OF tu, of m] vm by metis
    show False
    proof (cases "c_valid (u j)")
      case True
      then have "u j = t j" using prunes_same [OF tu] by blast
      then show False using prunes_child [OF uv jm(1,2) True jm(4)] jm(5,6) tm vm by metis
    next
      case False
      then show False using prunes_child [OF tu jm(1-3) False jm(5,6)] um vm by metis
    qed
  qed
qed

text \<open>No live slot has identifier \<open>a\<close>.\<close>

definition gone :: "u32 \<Rightarrow> (nat \<Rightarrow> cap) \<Rightarrow> bool" where
  "gone a t \<longleftrightarrow> (\<forall>j < CAP_TABLE_SIZE. c_valid (t j) \<longrightarrow> c_id (t j) \<noteq> a)"

lemma gone_prunes: "gone a t \<Longrightarrow> prunes D t t' \<Longrightarrow> gone a t'"
  unfolding gone_def by (metis prunes_same)

lemma cap_get_gone: "gone a (cap_table s) \<Longrightarrow> cap_get a s = None"
  by (auto simp: cap_get_def gone_def for_find_None_iff)

lemma revoke_start_orphan:
  assumes "cap_get cid s = Some i" "gone (c_parent (cap_table s i)) (cap_table s)"
  shows "cap_table (revoke_start cid i s) = (cap_table s)(i := cap_kill (cap_table s i))"
proof -
  have "cap_release (c_parent (cap_table s i)) u = u"
    if "cap_table u = (cap_table s)(i := cap_kill (cap_table s i))" for u :: "'a cap_st_scheme"
  proof -
    have "gone (c_parent (cap_table s i)) (cap_table u)"
      using assms(2) that by (auto simp: gone_def)
    then show ?thesis by (subst cap_release.simps) (simp add: cap_get_gone)
  qed
  then show ?thesis by (simp add: revoke_start_def Let_def kdef)
qed

definition subtree :: "(nat \<Rightarrow> cap) \<Rightarrow> u32 \<Rightarrow> u32 set" where
  "subtree t a = {d. derived t a d}"

lemma subtree_mono:
  assumes "\<And>j. c_valid (t' j) \<Longrightarrow> t' j = t j"
  shows "subtree t' a \<subseteq> subtree t a"
proof
  fix d
  assume "d \<in> subtree t' a"
  then have "derived t' a d" by (simp add: subtree_def)
  then have "derived t a d" by (rule derived_mono) (metis assms)
  then show "d \<in> subtree t a" by (simp add: subtree_def)
qed

lemma subtree_child:
  assumes "i < CAP_TABLE_SIZE" "c_valid (t i)" "c_parent (t i) = a" "a \<noteq> 0"
  shows "insert (c_id (t i)) (subtree t (c_id (t i))) \<subseteq> subtree t a"
proof -
  have base: "derived t a (c_id (t i))" using assms by (rule derived.child [of i t a])
  have "derived t a d" if "derived t (c_id (t i)) d" for d
    using that
  proof induction
    case (child k)
    then show ?case using derived.step [OF base] by simp
  next
    case (step b k)
    then show ?case by (auto intro: derived.step)
  qed
  then show ?thesis using base by (auto simp: subtree_def)
qed

lemma prunes_kill:
  assumes i: "i < CAP_TABLE_SIZE" "c_valid (t i)" and inv: "\<And>j. j < CAP_TABLE_SIZE \<Longrightarrow> c_valid (t j) \<Longrightarrow> c_id (t j) = c_id (t i) \<Longrightarrow> j = i"
    and rest: "prunes (subtree (t(i := cap_kill (t i))) (c_id (t i))) (t(i := cap_kill (t i))) t'"
    and ch: "\<And>k. k < CAP_TABLE_SIZE \<Longrightarrow> c_valid (t k) \<Longrightarrow> k \<noteq> i \<Longrightarrow> c_parent (t k) = c_id (t i) \<Longrightarrow> \<not> c_valid (t' k)"
  shows "prunes (insert (c_id (t i)) (subtree t (c_id (t i)))) t t' \<and> \<not> c_valid (t' i)"
proof -
  let ?u = "t(i := cap_kill (t i))"
  have sub: "subtree ?u (c_id (t i)) \<subseteq> subtree t (c_id (t i))"
    by (rule subtree_mono) (auto split: if_splits)
  have dead: "\<not> c_valid (t' i)" using prunes_slot [OF rest, of i] by auto
  have slot: "t' j = t j \<or> c_valid (t j) \<and> \<not> c_valid (t' j) \<and> c_id (t j) \<in> insert (c_id (t i)) (subtree t (c_id (t i)))" for j
    using prunes_slot [OF rest, of j] dead i sub by (cases "j = i") auto
  have "\<not> c_valid (t' m)"
    if "j < CAP_TABLE_SIZE" "m < CAP_TABLE_SIZE" "c_valid (t j)" "\<not> c_valid (t' j)" "c_valid (t m)"
      "c_parent (t m) = c_id (t j)" for j m
    using that prunes_child [OF rest, of j m] ch [of m] dead by (cases "m = i"; cases "j = i") auto
  with slot dead show ?thesis using prunesI by blast
qed

definition revoke_post :: "u32 \<Rightarrow> 'a cap_st_scheme \<Rightarrow> 'a cap_st_scheme \<Rightarrow> bool" where
  "revoke_post cid s s' \<longleftrightarrow> (cap_inv s \<longrightarrow> cap_inv s' \<and>
     (\<forall>i. cap_get cid s = Some i \<and> gone (c_parent (cap_table s i)) (cap_table s) \<longrightarrow>
        prunes (insert cid (subtree (cap_table s) cid)) (cap_table s) (cap_table s') \<and> \<not> c_valid (cap_table s' i)))"

definition children_post :: "nat \<Rightarrow> u32 \<Rightarrow> 'a cap_st_scheme \<Rightarrow> 'a cap_st_scheme \<Rightarrow> bool" where
  "children_post k cid s s' \<longleftrightarrow> (cap_inv s \<longrightarrow> cap_inv s' \<and>
     (cid \<noteq> 0 \<and> gone cid (cap_table s) \<longrightarrow>
        prunes (subtree (cap_table s) cid) (cap_table s) (cap_table s') \<and>
        (\<forall>j. k \<le> j \<and> j < CAP_TABLE_SIZE \<and> c_valid (cap_table s j) \<and> c_parent (cap_table s j) = cid \<longrightarrow>
           \<not> c_valid (cap_table s' j))))"

lemma revoke_post_found:
  assumes i: "cap_get cid s = Some i" and post: "children_post 0 cid (revoke_start cid i s) s'"
  shows "revoke_post cid s s'"
proof (cases "cap_inv s")
  case inv: True
  let ?t = "cap_table s" and ?u = "cap_table (revoke_start cid i s)"
  note ii = cap_get_SomeD [OF i]
  have inv1: "cap_inv (revoke_start cid i s)" by (rule cap_inv_shrinks [OF inv revoke_start_shrinks [OF i]])
  with post have inv': "cap_inv s'" by (simp add: children_post_def)
  have "prunes (insert cid (subtree ?t cid)) ?t (cap_table s') \<and> \<not> c_valid (cap_table s' i)"
    if par: "gone (c_parent (?t i)) ?t"
  proof -
    have u: "?u = ?t(i := cap_kill (?t i))" by (rule revoke_start_orphan [OF i par])
    have "gone cid ?u"
      using ii cap_inv_unique [OF inv, of _ i] unfolding gone_def u by auto
    with post inv1 ii have q: "prunes (subtree ?u cid) ?u (cap_table s')"
      "\<And>j. j < CAP_TABLE_SIZE \<Longrightarrow> c_valid (?u j) \<Longrightarrow> c_parent (?u j) = cid \<Longrightarrow> \<not> c_valid (cap_table s' j)"
      by (auto simp: children_post_def)
    show ?thesis
      using prunes_kill [of i ?t "cap_table s'"] q ii cap_inv_unique [OF inv, of _ i] unfolding u by auto
  qed
  with inv' i show ?thesis by (auto simp: revoke_post_def)
qed (simp add: revoke_post_def)

lemma children_post_call:
  assumes i: "i < CAP_TABLE_SIZE" "c_valid (cap_table s i)" "c_parent (cap_table s i) = cid"
    and r: "revoke_post (c_id (cap_table s i)) s s1" and c: "children_post (Suc i) cid s1 s'"
  shows "children_post i cid s s'"
proof (cases "cap_inv s \<and> cid \<noteq> 0 \<and> gone cid (cap_table s)")
  case True
  let ?t = "cap_table s" and ?t1 = "cap_table s1" and ?t' = "cap_table s'"
  have inv: "cap_inv s" "cap_inv s1" "cid \<noteq> 0" "gone cid ?t" using True r by (auto simp: revoke_post_def)
  have "cap_get (c_id (?t i)) s = Some i" using i by (simp add: cap_get_iff [OF inv(1)])
  with r inv i have p: "prunes (insert (c_id (?t i)) (subtree ?t (c_id (?t i)))) ?t ?t1" "\<not> c_valid (?t1 i)"
    by (auto simp: revoke_post_def)
  have p1: "prunes (subtree ?t cid) ?t ?t1" by (rule prunes_mono [OF p(1) subtree_child [of i ?t cid, OF i inv(3)]])
  have q: "prunes (subtree ?t1 cid) ?t1 ?t'" "cap_inv s'"
    and dead: "\<And>j. Suc i \<le> j \<Longrightarrow> j < CAP_TABLE_SIZE \<Longrightarrow> c_valid (?t1 j) \<Longrightarrow> c_parent (?t1 j) = cid \<Longrightarrow> \<not> c_valid (?t' j)"
    using c inv gone_prunes [OF inv(4) p1] by (auto simp: children_post_def)
  have q1: "prunes (subtree ?t cid) ?t1 ?t'"
    by (rule prunes_mono [OF q(1) subtree_mono]) (rule prunes_same [OF p1])
  have "\<not> c_valid (?t' j)" if "i \<le> j" "j < CAP_TABLE_SIZE" "c_valid (?t j)" "c_parent (?t j) = cid" for j
  proof (cases "c_valid (?t1 j)")
    case True
    then have "?t1 j = ?t j" "j \<noteq> i" using prunes_same [OF p1] p(2) by auto
    then show ?thesis using dead [of j] that True by simp
  next
    case False
    then show ?thesis using prunes_same [OF q1, of j] by metis
  qed
  then show ?thesis using prunes_trans [OF p1 q1] q(2) by (simp add: children_post_def)
qed (use r c in \<open>auto simp: children_post_def revoke_post_def\<close>)

lemma revoke_children_post: "children_post k cid s (revoke_children k cid s)"
proof (rule cap_revoke_induct(2) [where P = revoke_post])
  fix cid :: u32 and s :: "'a cap_st_scheme"
  assume "cap_get cid s = None"
  then show "revoke_post cid s s" by (simp add: revoke_post_def)
next
  fix i cid and s s' :: "'a cap_st_scheme"
  assume n: "\<not> (c_valid (cap_table s i) \<and> c_parent (cap_table s i) = cid)"
    and post: "children_post (Suc i) cid s s'"
  have "Suc i \<le> j" if "i \<le> j" "c_valid (cap_table s j)" "c_parent (cap_table s j) = cid" for j
    using that n by (cases "i = j") auto
  then show "children_post i cid s s'" using post unfolding children_post_def by blast
next
  fix i cid and s :: "'a cap_st_scheme"
  assume "\<not> i < CAP_TABLE_SIZE"
  then show "children_post i cid s s" by (auto simp: children_post_def prunes_refl)
qed (rule revoke_post_found children_post_call; assumption)+

text \<open>A release touches nothing but the capability and its ancestors.\<close>

lemma derived_up:
  assumes "derived t a b" "i < CAP_TABLE_SIZE" "c_valid (t i)" "c_parent (t i) = b"
  shows "derived t a (c_id (t i))"
  by (rule derived.step [OF assms])

lemma cap_release_ancestors:
  "cap_table (cap_release cid s) j = cap_table s j \<or>
     c_id (cap_table s j) = cid \<or> derived (cap_table s) (c_id (cap_table s j)) cid"
proof (induction rule: cap_release_induct)
  case (none cid s)
  then show ?case by simp
next
  case (dec cid s i)
  then show ?case by (auto dest: cap_get_SomeD)
next
  case (free cid s i s2)
  note i = cap_get_SomeD [OF free(1)]
  let ?u = "cap_table (cap_slot_upd i cap_free s)" and ?p = "c_parent (cap_table s i)"
  show ?case
  proof (cases "?p = 0 \<or> j = i")
    case True
    then show ?thesis using free(3) i by (auto split: if_splits)
  next
    case False
    then have u: "?u j = cap_table s j" "?p \<noteq> 0" by simp_all
    have mono: "derived (cap_table s) a b" if "derived ?u a b" for a b
      by (rule derived_mono [OF that]) (auto split: if_splits)
    consider "cap_table s2 j = cap_table s j" | "c_id (cap_table s j) = ?p"
      | "derived (cap_table s) (c_id (cap_table s j)) ?p"
      using free(4) [OF u(2)] u(1) mono by metis
    then show ?thesis
    proof cases
      case 2
      then have "derived (cap_table s) (c_id (cap_table s j)) (c_id (cap_table s i))"
        using i u(2) derived.child [of i "cap_table s" ?p] by simp
      then show ?thesis using i by simp
    next
      case 3
      then show ?thesis using derived.step [OF 3, of i] i by simp
    qed simp
  qed
qed

lemma revoke_start_slot:
  assumes "cap_get cid s = Some i" "j \<noteq> i"
  shows "cap_table (revoke_start cid i s) j = cap_table s j \<or> derived (cap_table s) (c_id (cap_table s j)) cid"
proof -
  note i = cap_get_SomeD [OF assms(1)]
  let ?u = "(cap_table s)(i := cap_kill (cap_table s i))" and ?p = "c_parent (cap_table s i)"
  have "cap_table (cap_release ?p w) j = cap_table s j \<or> derived (cap_table s) (c_id (cap_table s j)) cid"
    if w: "cap_table w = ?u" and p: "?p \<noteq> 0" for w :: "'a cap_st_scheme"
  proof -
    have mono: "derived (cap_table s) a b" if "derived ?u a b" for a b
      by (rule derived_mono [OF that]) (auto split: if_splits)
    have "cap_table (cap_release ?p w) j = cap_table s j \<or> c_id (cap_table s j) = ?p \<or>
        derived (cap_table s) (c_id (cap_table s j)) ?p"
      using cap_release_ancestors [of ?p w j] assms(2) mono by (auto simp: w)
    then show ?thesis
      using derived.child [of i "cap_table s" ?p] derived.step [of "cap_table s" _ ?p i] i p by auto
  qed
  then show ?thesis using assms(2) by (auto simp: revoke_start_def Let_def kdef)
qed

lemma cap_revoke_found:
  "cap_get cid s = Some i \<Longrightarrow> cap_revoke cid s = (True, revoke_children 0 cid (revoke_start cid i s))"
  by (simp add: cap_revoke.simps)

lemma revoke_phases:
  assumes inv: "cap_inv s" and i: "cap_get cid s = Some i"
  defines "u \<equiv> cap_table (revoke_start cid i s)" and "t' \<equiv> cap_table (snd (cap_revoke cid s))"
  shows "prunes (subtree u cid) u t'" "gone cid t'"
    "\<And>j. j < CAP_TABLE_SIZE \<Longrightarrow> c_valid (u j) \<Longrightarrow> c_parent (u j) = cid \<Longrightarrow> \<not> c_valid (t' j)"
proof -
  have inv1: "cap_inv (revoke_start cid i s)" by (rule cap_inv_shrinks [OF inv revoke_start_shrinks [OF i]])
  have g: "gone cid u"
    using revoke_start_live [of cid i s] shrinksD [OF revoke_start_shrinks [OF i]]
      cap_get_SomeD [OF i] cap_inv_unique [OF inv, of _ i] unfolding gone_def u_def by metis
  have "children_post 0 cid (revoke_start cid i s) (snd (cap_revoke cid s))"
    using revoke_children_post [of 0 cid "revoke_start cid i s"] by (simp add: cap_revoke_found [OF i])
  then show p: "prunes (subtree u cid) u t'"
    "\<And>j. j < CAP_TABLE_SIZE \<Longrightarrow> c_valid (u j) \<Longrightarrow> c_parent (u j) = cid \<Longrightarrow> \<not> c_valid (t' j)"
    using inv1 g cap_get_SomeD [OF i] by (auto simp: children_post_def u_def t'_def)
  show "gone cid t'" by (rule gone_prunes [OF g p(1)])
qed

lemma revoke_start_below:
  assumes inv: "cap_inv s" and i: "cap_get cid s = Some i" and j: "c_valid (cap_table s j)" "cid < c_id (cap_table s j)"
  shows "cap_table (revoke_start cid i s) j = cap_table s j"
proof -
  have "j \<noteq> i" using cap_get_SomeD [OF i] j(2) by auto
  from revoke_start_slot [OF i this] show ?thesis
    using derived_less [OF inv, of "c_id (cap_table s j)" cid] j(2) by auto
qed

lemma revoke_derived_gone:
  assumes inv: "cap_inv s" and i: "cap_get cid s = Some i" and d: "derived (cap_table s) cid d"
  shows "gone d (cap_table (snd (cap_revoke cid s)))"
proof -
  let ?t = "cap_table s" and ?u = "cap_table (revoke_start cid i s)" and ?t' = "cap_table (snd (cap_revoke cid s))"
  note phases = revoke_phases [OF inv i]
  have dead: "gone (c_id (?t k)) ?t'" if "k < CAP_TABLE_SIZE" "c_valid (?t k)" "\<not> c_valid (?t' k)" for k
    using that cap_inv_unique [OF inv, of _ k] shrinksD [OF cap_revoke_shrinks, of cid s]
    unfolding gone_def by metis
  show ?thesis
    using d
  proof induction
    case (child k)
    then have u: "?u k = ?t k" using cap_inv_id(2) [OF inv] revoke_start_below [OF inv i] by metis
    then show ?case using dead [of k] phases(3) [of k] child by simp
  next
    case (step b k)
    have bk: "cid < b" "b < c_id (?t k)" using derived_less [OF inv step.hyps(1)] cap_inv_id(2) [OF inv] step by auto
    obtain j where j: "j < CAP_TABLE_SIZE" "c_valid (?t j)" "c_id (?t j) = b" using derived_slot [OF step.hyps(1)] by auto
    have u: "?u k = ?t k" "?u j = ?t j"
      using revoke_start_below [OF inv i] step.hyps bk j by (metis less_trans)+
    have "\<not> c_valid (?t' j)"
      using step.IH j shrinksD(2) [OF cap_revoke_shrinks, of cid s j] unfolding gone_def by metis
    then have "\<not> c_valid (?t' k)" using prunes_child [OF phases(1), of j k] u j step by simp
    then show ?case using dead step by simp
  qed
qed

lemma revoke_other_kept:
  assumes inv: "cap_inv s" and i: "cap_get cid s = Some i" and j: "cap_get d s = Some j"
    and d: "d \<noteq> cid" "\<not> derived (cap_table s) cid d" "\<not> derived (cap_table s) d cid"
  shows "cap_table (snd (cap_revoke cid s)) j = cap_table s j"
proof -
  let ?t = "cap_table s" and ?u = "cap_table (revoke_start cid i s)"
  note jj = cap_get_SomeD [OF j] and ii = cap_get_SomeD [OF i]
  have u: "?u j = ?t j" using revoke_start_slot [OF i, of j] d jj ii by auto
  have "subtree ?u cid \<subseteq> subtree ?t cid"
  proof
    fix x
    assume "x \<in> subtree ?u cid"
    then have "derived ?u cid x" by (simp add: subtree_def)
    then have "derived ?t cid x" by (rule derived_mono) (metis shrinksD(1-3) revoke_start_shrinks [OF i])
    then show "x \<in> subtree ?t cid" by (simp add: subtree_def)
  qed
  then show ?thesis using prunes_slot [OF revoke_phases(1) [OF inv i], of j] u jj d(2) by (auto simp: subtree_def)
qed

lemma cap_get_unchanged:
  assumes inv: "cap_inv s" "cap_inv s'" and sh: "shrinks s s'"
    and same: "\<And>j. cap_get d s = Some j \<Longrightarrow> cap_table s' j = cap_table s j"
  shows "cap_get d s' = cap_get d s"
proof (cases "cap_get d s")
  case None
  have "cap_get d s' = None"
  proof (rule ccontr)
    assume "cap_get d s' \<noteq> None"
    then obtain j where j: "cap_get d s' = Some j" by auto
    then have "cap_get d s = Some j"
      using cap_get_SomeD [OF j] shrinksD(1,2) [OF sh] by (auto simp: cap_get_iff [OF inv(1)])
    with None show False by simp
  qed
  with None show ?thesis by simp
next
  case (Some j)
  then show ?thesis
    using same [OF Some] cap_get_SomeD [OF Some] by (simp add: cap_get_iff [OF inv(2)])
qed

lemma revoke_exact:
  fixes s :: "'a cap_st_scheme"
  assumes inv: "cap_inv s" and i: "cap_get cid s = Some i"
  shows "fst (cap_revoke cid s)"
    "cap_get cid (snd (cap_revoke cid s)) = None"
    "derived (cap_table s) cid d \<Longrightarrow> cap_get d (snd (cap_revoke cid s)) = None"
    "d \<noteq> cid \<Longrightarrow> \<not> derived (cap_table s) cid d \<Longrightarrow> \<not> derived (cap_table s) d cid \<Longrightarrow>
       cap_get d (snd (cap_revoke cid s)) = cap_get d s \<and>
       (\<forall>j. cap_get d s = Some j \<longrightarrow> cap_table (snd (cap_revoke cid s)) j = cap_table s j)"
proof -
  note inv' = cap_inv_shrinks [OF inv cap_revoke_shrinks [of s cid]]
  show "fst (cap_revoke cid s)" by (simp add: cap_revoke_found [OF i])
  show "cap_get cid (snd (cap_revoke cid s)) = None" by (rule cap_get_gone [OF revoke_phases(2) [OF inv i]])
  show "cap_get d (snd (cap_revoke cid s)) = None" if "derived (cap_table s) cid d"
    by (rule cap_get_gone [OF revoke_derived_gone [OF inv i that]])
  show "cap_get d (snd (cap_revoke cid s)) = cap_get d s \<and>
      (\<forall>j. cap_get d s = Some j \<longrightarrow> cap_table (snd (cap_revoke cid s)) j = cap_table s j)"
    if "d \<noteq> cid" "\<not> derived (cap_table s) cid d" "\<not> derived (cap_table s) d cid"
    using revoke_other_kept [OF inv i _ that] cap_get_unchanged [OF inv inv' cap_revoke_shrinks] by blast
qed

section \<open>Properties\<close>

lemma check_subset: "a AND NOT b = 0 \<Longrightarrow> a AND r = r \<Longrightarrow> b AND r = (r :: u32)"
  unfolding word_and_not_zero_iff by (auto simp: bit_eq_iff bit_and_iff)

lemma cap_alloc_None_iff: "cap_alloc_slot s = None \<longleftrightarrow> live_count s = CAP_TABLE_SIZE"
proof
  assume "cap_alloc_slot s = None"
  then have "\<And>i. i < CAP_TABLE_SIZE \<Longrightarrow> c_valid (cap_table s i)"
    by (simp add: cap_alloc_slot_def for_find_None_iff)
  then show "live_count s = CAP_TABLE_SIZE" unfolding live_count_def by (rule cells_all)
next
  assume "live_count s = CAP_TABLE_SIZE"
  then have "c_valid (cap_table s i)" if "i < CAP_TABLE_SIZE" for i
    using cells_full [OF _ that] by (simp add: live_count_def)
  then show "cap_alloc_slot s = None" by (simp add: cap_alloc_slot_def for_find_None_iff)
qed

text \<open>A state before the first call, for the concrete instances below.\<close>

definition cap_st0 :: cap_st where
  "cap_st0 = \<lparr>tick_count = 0, log_buf = \<lambda>_. audit_zero, log_head = 0, log_count = 0, policy = 0,
     cap_table = \<lambda>_. cap_zero, cap_next_id = 1, cap_active_count = 0\<rparr>"

definition demo_ops :: "cap_op list" where
  "demo_ops = [Cap_Create CAP_TYPE_PORT 0x51 (OPort 3) 1, Cap_Create CAP_TYPE_FILE 0x01 (OOther 8) 2, Cap_Derive 1 0x01]"

lemmas cap_eval = cap_run_def cap_create_def cap_derive_def cap_alloc_slot_def cap_take_id_def
  cap_slot_upd_def cap_get_def cap_addref_def cap_table_init_def cap_zero_def cap_st0_def demo_ops_def
  CAP_TABLE_SIZE_def secmon_audit_cap_def secmon_record_def

lemma demo_table:
  "cap_table (cap_run demo_ops (cap_table_init cap_st0)) =
     (\<lambda>_. cap_zero)(0 := (root_cap 1 CAP_TYPE_PORT 0x51 (OPort 3) 1)\<lparr>c_ref_count := 2\<rparr>,
       1 := root_cap 2 CAP_TYPE_FILE 0x01 (OOther 8) 2,
       2 := sub_cap 3 1 0x01 (root_cap 1 CAP_TYPE_PORT 0x51 (OPort 3) 1))"
  by (simp add: cap_eval Let_def loop_eval root_cap_def sub_cap_def, rule ext, simp add: numeral_2_eq_2)

lemma demo_inv: "cap_inv (cap_run demo_ops (cap_table_init cap_st0))"
  by (rule cap_run_inv) (simp add: demo_ops_def)

lemma demo_get:
  "cap_get 1 (cap_run demo_ops (cap_table_init cap_st0)) = Some 0"
  "cap_get 2 (cap_run demo_ops (cap_table_init cap_st0)) = Some 1"
  "cap_get 3 (cap_run demo_ops (cap_table_init cap_st0)) = Some 2"
  by (simp_all add: cap_get_iff [OF demo_inv] demo_table CAP_TABLE_SIZE_def root_cap_def sub_cap_def)

lemma demo_derived: "derived (cap_table (cap_run demo_ops (cap_table_init cap_st0))) 1 3"
  using derived.child [of 2 "cap_table (cap_run demo_ops (cap_table_init cap_st0))" 1]
  by (simp add: demo_table CAP_TABLE_SIZE_def sub_cap_def)

text \<open>
  C5: after any sequence of capability operations since \<open>cap_table_init\<close> (fewer than \<open>2 ^ 32 - 1\<close>
  of them, the number of identifiers), the table is consistent: no two live slots share an
  identifier, every identifier was handed out, a derivation points to an older capability and
  holds no right that its parent lacks, and \<open>cap_active_count\<close> is the number of live slots.
\<close>

theorem cap_table_invariant:
  assumes "length ops + 1 < 2 ^ 32"
  shows "cap_inv (cap_run ops (cap_table_init s))"
  by (rule cap_run_inv [OF assms])

theorem cap_table_invariant_witness:
  "length demo_ops + 1 < 2 ^ 32 \<and> cap_inv (cap_run demo_ops (cap_table_init cap_st0))"
  using cap_table_invariant [of demo_ops cap_st0] by (simp add: demo_ops_def)

text \<open>
  C1: no escalation. In every state that capability operations can reach, a capability that
  descends from a live capability \<open>a\<close>, through any number of derivations, passes no
  rights check that \<open>a\<close> fails, and it names the same resource.
\<close>

theorem cap_no_escalation:
  assumes "length ops + 1 < 2 ^ 32" "s = cap_run ops (cap_table_init s0)"
    and "derived (cap_table s) a d" "cap_get a s = Some i" "cap_get d s = Some j"
  shows "(cap_check d r s \<longrightarrow> cap_check a r s) \<and>
    c_type (cap_table s j) = c_type (cap_table s i) \<and> c_object (cap_table s j) = c_object (cap_table s i)"
proof -
  have "cap_inv s" unfolding assms(2) by (rule cap_run_inv [OF assms(1)])
  from derived_rights [OF this assms(3-5)] show ?thesis
    using check_subset [of "c_rights (cap_table s j)" "c_rights (cap_table s i)" r] assms(4,5)
    by (simp add: cap_check_def)
qed

theorem cap_no_escalation_witness:
  "cap_check 3 0x01 (cap_run demo_ops (cap_table_init cap_st0)) \<and>
   cap_check 1 0x01 (cap_run demo_ops (cap_table_init cap_st0))"
proof -
  have "cap_check 3 0x01 (cap_run demo_ops (cap_table_init cap_st0))"
    by (simp add: cap_check_def demo_get demo_table sub_cap_def)
  with cap_no_escalation [of demo_ops, OF _ refl demo_derived demo_get(1,3), of "0x01"] show ?thesis
    by (simp add: demo_ops_def)
qed



lemma cap_addref_fields [simp]:
  "c_valid (cap_table (cap_addref cid s) j) = c_valid (cap_table s j)"
  "c_id (cap_table (cap_addref cid s) j) = c_id (cap_table s j)"
  "c_rights (cap_table (cap_addref cid s) j) = c_rights (cap_table s j)"
  by (simp_all add: cap_addref_def split: option.splits)

lemma cap_derive_new:
  assumes "cap_inv s" "id_left s" "cap_alloc_slot s = Some i" "cap_get pid s = Some p"
    "r AND NOT (c_rights (cap_table s p)) = 0" "c_rights (cap_table s p) AND CAP_RIGHT_MANAGE \<noteq> 0"
  shows "fst (cap_derive pid r s) = cap_next_id s" "cap_get (cap_next_id s) s = None"
    "cap_get (cap_next_id s) (snd (cap_derive pid r s)) = Some i"
    "c_rights (cap_table (snd (cap_derive pid r s)) i) = r"
proof -
  note eq = cap_derive_eq [OF assms(2-)]
  show "fst (cap_derive pid r s) = cap_next_id s" by (simp add: eq)
  show "cap_get (cap_next_id s) s = None"
    using cap_inv_id(1) [OF assms(1)] cap_get_SomeD [of "cap_next_id s" s] by (metis less_irrefl not_None_eq)
  show "cap_get (cap_next_id s) (snd (cap_derive pid r s)) = Some i"
    using alloc_slot_SomeD [OF assms(3)]
    by (subst cap_get_iff [OF cap_inv_derive [OF assms(1,2)]]) (simp add: eq Let_def sub_cap_def)
  show "c_rights (cap_table (snd (cap_derive pid r s)) i) = r"
    unfolding eq by (simp add: Let_def sub_cap_def)
qed

text \<open>
  C6: \<open>cap_derive\<close> on every branch. It succeeds exactly when the parent is live, holds
  \<open>CAP_RIGHT_MANAGE\<close> and every requested right, and the table has a free slot. On success the
  new identifier was not in use, and the new capability passes exactly the checks that the
  requested rights cover; on failure the table is unchanged.
\<close>

theorem cap_derive_spec:
  assumes "cap_inv s" "id_left s"
  shows "if live_count s < CAP_TABLE_SIZE \<and>
      (\<exists>p. cap_get pid s = Some p \<and> r AND NOT (c_rights (cap_table s p)) = 0 \<and>
           c_rights (cap_table s p) AND CAP_RIGHT_MANAGE \<noteq> 0)
    then fst (cap_derive pid r s) \<noteq> CAP_INVALID_ID \<and> cap_get (fst (cap_derive pid r s)) s = None \<and>
      (\<forall>q. cap_check (fst (cap_derive pid r s)) q (snd (cap_derive pid r s)) \<longleftrightarrow> r AND q = q)
    else fst (cap_derive pid r s) = CAP_INVALID_ID \<and> cap_table (snd (cap_derive pid r s)) = cap_table s"
    (is "if ?ok then ?new else ?old")
proof (cases ?ok)
  case True
  then obtain p i where "cap_get pid s = Some p" "r AND NOT (c_rights (cap_table s p)) = 0"
    "c_rights (cap_table s p) AND CAP_RIGHT_MANAGE \<noteq> 0" "cap_alloc_slot s = Some i"
    using cap_alloc_None_iff [of s] by (cases "cap_alloc_slot s") auto
  note new = cap_derive_new [OF assms this(4,1-3)]
  have "cap_next_id s \<noteq> 0" using assms(1) by (simp add: cap_inv_def)
  then have ?new using new by (simp add: cap_check_def)
  with True show ?thesis by simp
next
  case False
  have "live_count s \<le> CAP_TABLE_SIZE" unfolding live_count_def by (rule cells_le)
  with False have "cap_alloc_slot s = None \<or> cap_get pid s = None \<or>
      (\<exists>p. cap_get pid s = Some p \<and> (r AND NOT (c_rights (cap_table s p)) \<noteq> 0 \<or>
             c_rights (cap_table s p) AND CAP_RIGHT_MANAGE = 0))"
    using cap_alloc_None_iff [of s] by (cases "cap_get pid s") auto
  from cap_derive_None [OF this] have ?old by simp
  with False show ?thesis by simp
qed

theorem cap_derive_spec_witness:
  "cap_check (fst (cap_derive 1 0x11 (cap_run demo_ops (cap_table_init cap_st0)))) 0x10
     (snd (cap_derive 1 0x11 (cap_run demo_ops (cap_table_init cap_st0))))"
proof -
  let ?s = "cap_run demo_ops (cap_table_init cap_st0)"
  have "id_left ?s"
    using cap_run_inv_count [of demo_ops cap_st0]
    by (auto simp: id_left_def demo_ops_def unsigned_minus_1_eq_mask mask_eq_exp_minus_1)
  note spec = cap_derive_spec [OF demo_inv this, of 1 "0x11"]
  have "cap_alloc_slot ?s = Some 3"
    by (simp add: cap_alloc_slot_def demo_table CAP_TABLE_SIZE_def root_cap_def sub_cap_def cap_zero_def loop_eval numeral_3_eq_3)
  then have "live_count ?s < CAP_TABLE_SIZE"
    using cap_alloc_None_iff [of ?s] cells_le [of "\<lambda>i. c_valid (cap_table ?s i)" CAP_TABLE_SIZE]
    by (simp add: live_count_def le_less)
  moreover have "c_rights (cap_table ?s 0) = 0x51" by (simp add: demo_table root_cap_def)
  ultimately show ?thesis using spec by (simp add: demo_get)
qed

end
