(* ===== verification/Ipc.thy ===== *)
theory Ipc
  imports Cap
begin

text \<open>
  The IPC engine, \<open>kernel/ipc.c\<close>: the port table, sending, receiving with its waiting loop,
  synchronous calls and replies. A port's queue is a ring of 64 cells, read as a list by
  \<open>port_queue\<close>; it is an instance of the queue interface \<open>bounded_fifo\<close>. What other tasks do
  while a receiver yields is a parameter: a function on the kernel state.
\<close>

section \<open>State\<close>

abbreviation (input) IPC_MSG_CAPS_MAX :: nat where "IPC_MSG_CAPS_MAX \<equiv> 4"
abbreviation (input) IPC_PORT_QUEUE_SIZE :: nat where "IPC_PORT_QUEUE_SIZE \<equiv> 64"
abbreviation (input) IPC_TIMEOUT_FOREVER :: u32 where "IPC_TIMEOUT_FOREVER \<equiv> 0xFFFFFFFF"
abbreviation (input) IPC_TIMEOUT_NONE :: u32 where "IPC_TIMEOUT_NONE \<equiv> 0"
abbreviation (input) PORT_INVALID :: u32 where "PORT_INVALID \<equiv> 0"
abbreviation (input) MSG_FLAG_REPLY :: u32 where "MSG_FLAG_REPLY \<equiv> 0x08"

definition IPC_MAX_PORTS :: nat where
  "IPC_MAX_PORTS = 1024"

text \<open>\<open>caps\<close> and \<open>data\<close> are the arrays of the message, by index.\<close>

record ipc_msg =
  m_msg_id :: u32
  m_type :: u32
  m_flags :: u32
  m_reply_port :: u32
  m_sender_tid :: u32
  m_cap_count :: u32
  m_caps :: "nat \<Rightarrow> u32"
  m_data_len :: u32
  m_data :: "nat \<Rightarrow> u8"

record ipc_port =
  p_id :: u32
  p_cap :: u32
  p_owner_tid :: u32
  p_queue :: "nat \<Rightarrow> ipc_msg"
  p_q_head :: u32
  p_q_tail :: u32
  p_q_count :: u32
  p_valid :: bool
  p_closed :: bool

definition msg_zero :: ipc_msg where
  "msg_zero = \<lparr>m_msg_id = 0, m_type = 0, m_flags = 0, m_reply_port = 0, m_sender_tid = 0,
     m_cap_count = 0, m_caps = \<lambda>_. 0, m_data_len = 0, m_data = \<lambda>_. 0\<rparr>"

definition port_zero :: ipc_port where
  "port_zero = \<lparr>p_id = 0, p_cap = 0, p_owner_tid = 0, p_queue = \<lambda>_. msg_zero, p_q_head = 0,
     p_q_tail = 0, p_q_count = 0, p_valid = False, p_closed = False\<rparr>"

datatype ipc_err =
  IPC_OK | IPC_ERR_INVALID | IPC_ERR_NOPERM | IPC_ERR_FULL | IPC_ERR_CLOSED | IPC_ERR_TIMEOUT | IPC_ERR_AGAIN

record ipc_st = cap_st +
  port_table :: "nat \<Rightarrow> ipc_port"
  port_next_id :: u32
  port_active :: u32
  msg_seq :: u32

section \<open>Operations\<close>

definition find_port :: "u32 \<Rightarrow> 'a ipc_st_scheme \<Rightarrow> nat option" where
  "find_port pid s =
     (if pid = PORT_INVALID then None
      else for_find (\<lambda>i. p_valid (port_table s i) \<and> p_id (port_table s i) = pid) 0 IPC_MAX_PORTS)"

definition alloc_port :: "'a ipc_st_scheme \<Rightarrow> nat option" where
  "alloc_port s = for_find (\<lambda>i. \<not> p_valid (port_table s i)) 0 IPC_MAX_PORTS"

definition port_upd :: "nat \<Rightarrow> (ipc_port \<Rightarrow> ipc_port) \<Rightarrow> 'a ipc_st_scheme \<Rightarrow> 'a ipc_st_scheme" where
  "port_upd i f s = s\<lparr>port_table := (port_table s)(i := f (port_table s i))\<rparr>"

definition ipc_init :: "'a ipc_st_scheme \<Rightarrow> 'a ipc_st_scheme" where
  "ipc_init s = s\<lparr>port_table := \<lambda>_. port_zero, port_next_id := 1, port_active := 0, msg_seq := 1\<rparr>"

definition ipc_port_create :: "u32 \<Rightarrow> 'a ipc_st_scheme \<Rightarrow> u32 \<times> 'a ipc_st_scheme" where
  "ipc_port_create owner_tid s =
     (case alloc_port s of
        None \<Rightarrow> (PORT_INVALID, s)
      | Some i \<Rightarrow>
          (let pid = port_next_id s;
               s1 = s\<lparr>port_next_id := (if port_next_id s + 1 = 0 then 1 else port_next_id s + 1)\<rparr>;
               s2 = port_upd i (\<lambda>p. p\<lparr>p_id := pid, p_owner_tid := owner_tid, p_q_head := 0, p_q_tail := 0,
                      p_q_count := 0, p_valid := True, p_closed := False\<rparr>) s1;
               (cid, s3) = cap_create CAP_TYPE_PORT (CAP_RIGHT_READ OR CAP_RIGHT_WRITE OR CAP_RIGHT_GRANT)
                             (OPort i) owner_tid s2;
               s4 = port_upd i (\<lambda>p. p\<lparr>p_cap := cid\<rparr>) s3
           in (pid, s4\<lparr>port_active := port_active s4 + 1\<rparr>)))"

definition ipc_port_destroy :: "u32 \<Rightarrow> 'a ipc_st_scheme \<Rightarrow> 'a ipc_st_scheme" where
  "ipc_port_destroy pid s =
     (case find_port pid s of
        None \<Rightarrow> s
      | Some i \<Rightarrow>
          (let s1 = port_upd i (\<lambda>p. p\<lparr>p_closed := True, p_valid := False\<rparr>) s;
               s2 = (if p_cap (port_table s1 i) \<noteq> CAP_INVALID_ID
                     then port_upd i (\<lambda>p. p\<lparr>p_cap := CAP_INVALID_ID\<rparr>) (cap_release (p_cap (port_table s1 i)) s1)
                     else s1)
           in s2\<lparr>port_active := port_active s2 - 1\<rparr>))"

definition ipc_port_cap :: "u32 \<Rightarrow> 'a ipc_st_scheme \<Rightarrow> u32" where
  "ipc_port_cap pid s = (case find_port pid s of None \<Rightarrow> CAP_INVALID_ID | Some i \<Rightarrow> p_cap (port_table s i))"

text \<open>The loop over the capability tokens of a message: true when one may not be granted.\<close>

definition caps_denied :: "ipc_msg \<Rightarrow> 'a ipc_st_scheme \<Rightarrow> bool" where
  "caps_denied msg s =
     (for_find (\<lambda>i. \<not> cap_check (m_caps msg i) CAP_RIGHT_GRANT s) 0
        (if m_cap_count msg < of_nat IPC_MSG_CAPS_MAX then unat (m_cap_count msg) else IPC_MSG_CAPS_MAX) \<noteq> None)"

text \<open>The two queue operations on a port: the tail write of \<open>ipc_send\<close>, the head read of \<open>ipc_receive\<close>.\<close>

definition port_push :: "ipc_msg \<Rightarrow> ipc_port \<Rightarrow> ipc_port" where
  "port_push msg p = p\<lparr>p_queue := (p_queue p)(unat (p_q_tail p) := msg),
     p_q_tail := (p_q_tail p + 1) mod of_nat IPC_PORT_QUEUE_SIZE, p_q_count := p_q_count p + 1\<rparr>"

definition port_pop :: "ipc_port \<Rightarrow> ipc_msg \<times> ipc_port" where
  "port_pop p = (p_queue p (unat (p_q_head p)),
     p\<lparr>p_q_head := (p_q_head p + 1) mod of_nat IPC_PORT_QUEUE_SIZE, p_q_count := p_q_count p - 1\<rparr>)"

definition ipc_send :: "u32 \<Rightarrow> ipc_msg option \<Rightarrow> 'a ipc_st_scheme \<Rightarrow> ipc_err \<times> 'a ipc_st_scheme" where
  "ipc_send pid msg s =
     (case msg of
        None \<Rightarrow> (IPC_ERR_INVALID, s)
      | Some m \<Rightarrow>
          (case find_port pid s of
             None \<Rightarrow> (IPC_ERR_INVALID, s)
           | Some i \<Rightarrow>
               if p_closed (port_table s i) then (IPC_ERR_CLOSED, s)
               else if p_q_count (port_table s i) \<ge> of_nat IPC_PORT_QUEUE_SIZE then (IPC_ERR_FULL, s)
               else if caps_denied m s then (IPC_ERR_NOPERM, s)
               else (let s1 = port_upd i (port_push (m\<lparr>m_msg_id := msg_seq s\<rparr>)) s;
                         s2 = s1\<lparr>msg_seq := msg_seq s + 1\<rparr>
                     in (IPC_OK, secmon_audit_ipc AUDIT_IPC_SEND (m_sender_tid m) pid (m_type m) s2))))"

text \<open>
  One pass through the body of the receive loop on the port in slot \<open>i\<close>: the answer, or
  \<open>None\<close> when the loop goes on to yield.
\<close>

definition receive_try ::
  "u32 \<Rightarrow> nat \<Rightarrow> u32 \<Rightarrow> u32 \<Rightarrow> 'a ipc_st_scheme \<Rightarrow> (ipc_err \<times> ipc_msg option \<times> 'a ipc_st_scheme) option" where
  "receive_try pid i timeout_ms waited s =
     (if p_q_count (port_table s i) > 0
      then (let (m, p) = port_pop (port_table s i)
            in Some (IPC_OK, Some m,
                     secmon_audit_ipc AUDIT_IPC_RECV (m_sender_tid m) pid (m_type m) (port_upd i (\<lambda>_. p) s)))
      else if p_closed (port_table s i) then Some (IPC_ERR_CLOSED, None, s)
      else if timeout_ms = IPC_TIMEOUT_NONE then Some (IPC_ERR_AGAIN, None, s)
      else if timeout_ms \<noteq> IPC_TIMEOUT_FOREVER \<and> waited \<ge> timeout_ms then Some (IPC_ERR_TIMEOUT, None, s)
      else None)"

text \<open>
  The loop itself. \<open>yield k\<close> is what the rest of the system does to the state while
  \<open>scheduler_yield\<close> is called for the \<open>k\<close>-th time; a loop that never returns is \<open>None\<close>.
\<close>

partial_function (option) receive_loop ::
  "(nat \<Rightarrow> 'a ipc_st_scheme \<Rightarrow> 'a ipc_st_scheme) \<Rightarrow> u32 \<Rightarrow> nat \<Rightarrow> u32 \<Rightarrow> u32 \<Rightarrow> nat \<Rightarrow> 'a ipc_st_scheme \<Rightarrow>
     (ipc_err \<times> ipc_msg option \<times> 'a ipc_st_scheme) option" where
  "receive_loop yield pid i timeout_ms waited k s =
     (case receive_try pid i timeout_ms waited s of
        Some r \<Rightarrow> Some r
      | None \<Rightarrow> receive_loop yield pid i timeout_ms (waited + 2) (Suc k) (yield k s))"

text \<open>\<open>has_out\<close>: whether the caller passed a buffer for the message.\<close>

definition ipc_receive ::
  "(nat \<Rightarrow> 'a ipc_st_scheme \<Rightarrow> 'a ipc_st_scheme) \<Rightarrow> u32 \<Rightarrow> bool \<Rightarrow> u32 \<Rightarrow> 'a ipc_st_scheme \<Rightarrow>
     (ipc_err \<times> ipc_msg option \<times> 'a ipc_st_scheme) option" where
  "ipc_receive yield pid has_out timeout_ms s =
     (case find_port pid s of
        None \<Rightarrow> Some (IPC_ERR_INVALID, None, s)
      | Some i \<Rightarrow> if \<not> has_out then Some (IPC_ERR_INVALID, None, s)
                  else receive_loop yield pid i timeout_ms 0 0 s)"

definition ipc_call ::
  "(nat \<Rightarrow> 'a ipc_st_scheme \<Rightarrow> 'a ipc_st_scheme) \<Rightarrow> u32 \<Rightarrow> ipc_msg \<Rightarrow> u32 \<Rightarrow> 'a ipc_st_scheme \<Rightarrow>
     (ipc_err \<times> ipc_msg \<times> 'a ipc_st_scheme) option" where
  "ipc_call yield pid msg timeout_ms s =
     (let (reply, s1) = ipc_port_create (m_sender_tid msg) s in
      if reply = PORT_INVALID then Some (IPC_ERR_INVALID, msg, s1)
      else (let msg1 = msg\<lparr>m_reply_port := reply\<rparr>; (err, s2) = ipc_send pid (Some msg1) s1 in
            if err \<noteq> IPC_OK then Some (err, msg1, ipc_port_destroy reply s2)
            else (case ipc_receive yield reply True timeout_ms s2 of
                    None \<Rightarrow> None
                  | Some (err', out, s3) \<Rightarrow>
                      Some (err', (case out of None \<Rightarrow> msg1 | Some m \<Rightarrow> m), ipc_port_destroy reply s3))))"

definition ipc_reply :: "ipc_msg option \<Rightarrow> ipc_msg \<Rightarrow> 'a ipc_st_scheme \<Rightarrow> ipc_err \<times> 'a ipc_st_scheme" where
  "ipc_reply request reply_data s =
     (case request of
        None \<Rightarrow> (IPC_ERR_INVALID, s)
      | Some req \<Rightarrow>
          if m_reply_port req = PORT_INVALID then (IPC_ERR_INVALID, s)
          else (let reply = reply_data\<lparr>m_flags := m_flags reply_data OR MSG_FLAG_REPLY, m_msg_id := msg_seq s\<rparr>;
                    s1 = s\<lparr>msg_seq := msg_seq s + 1\<rparr>
                in ipc_send (m_reply_port req) (Some reply) s1))"

definition ipc_pending :: "u32 \<Rightarrow> 'a ipc_st_scheme \<Rightarrow> u32" where
  "ipc_pending pid s = (case find_port pid s of None \<Rightarrow> 0 | Some i \<Rightarrow> p_q_count (port_table s i))"

section \<open>The queue of a port\<close>

definition port_inv :: "ipc_port \<Rightarrow> bool" where
  "port_inv p \<longleftrightarrow> unat (p_q_head p) < IPC_PORT_QUEUE_SIZE \<and> unat (p_q_count p) \<le> IPC_PORT_QUEUE_SIZE \<and>
     unat (p_q_tail p) = (unat (p_q_head p) + unat (p_q_count p)) mod IPC_PORT_QUEUE_SIZE"

definition port_queue :: "ipc_port \<Rightarrow> ipc_msg list" where
  "port_queue p = ring_list IPC_PORT_QUEUE_SIZE (p_queue p) (unat (p_q_head p)) (unat (p_q_count p))"

text \<open>The queue operations with the guards that the callers put around them.\<close>

definition port_enq :: "ipc_msg \<Rightarrow> ipc_port \<Rightarrow> ipc_port" where
  "port_enq m p = (if p_q_count p \<ge> of_nat IPC_PORT_QUEUE_SIZE then p else port_push m p)"

definition port_deq :: "ipc_port \<Rightarrow> ipc_msg option \<times> ipc_port" where
  "port_deq p = (if p_q_count p > 0 then map_prod Some (\<lambda>q. q) (port_pop p) else (None, p))"

lemma unat_next_index: "unat (w :: u32) < 64 \<Longrightarrow> unat ((w + 1) mod 64) = Suc (unat w) mod 64"
  by (simp add: unat_mod unat_Suc_no_wrap word_unat_eq_iff unsigned_minus_1_eq_mask mask_eq_exp_minus_1)

lemma length_port_queue [simp]: "length (port_queue p) = unat (p_q_count p)"
  by (simp add: port_queue_def)

lemma port_push_inv: "port_inv p \<Longrightarrow> unat (p_q_count p) < 64 \<Longrightarrow> port_inv (port_push m p)"
  unfolding port_inv_def port_push_def
  by (auto simp: unat_next_index unat_Suc_no_wrap word_unat_eq_iff unsigned_minus_1_eq_mask mask_eq_exp_minus_1 mod_Suc_eq)

lemma port_push_queue: "port_inv p \<Longrightarrow> unat (p_q_count p) < 64 \<Longrightarrow> port_queue (port_push m p) = port_queue p @ [m]"
  unfolding port_inv_def port_push_def port_queue_def
  by (auto simp: unat_Suc_no_wrap word_unat_eq_iff unsigned_minus_1_eq_mask mask_eq_exp_minus_1 ring_list_push)

lemma port_pop_inv: "port_inv p \<Longrightarrow> p_q_count p \<noteq> 0 \<Longrightarrow> port_inv (snd (port_pop p))"
  unfolding port_inv_def port_pop_def
  by (cases "unat (p_q_count p)") (auto simp: unat_next_index unat_minus_1 unat_eq_zero mod_add_left_eq)

lemma port_pop_queue:
  "port_inv p \<Longrightarrow> p_q_count p \<noteq> 0 \<Longrightarrow> port_queue p = fst (port_pop p) # port_queue (snd (port_pop p))"
  unfolding port_inv_def port_pop_def port_queue_def
  by (cases "unat (p_q_count p)") (auto simp: unat_next_index unat_minus_1 unat_eq_zero ring_list_pop)

lemma count_full: "(p_q_count p \<ge> 64) \<longleftrightarrow> unat (p_q_count p) \<ge> 64"
  by (simp add: word_le_nat_alt)

interpretation ipcq: bounded_fifo port_queue 64 port_inv port_enq port_deq
proof unfold_locales
  fix p :: ipc_port and m
  assume p: "port_inv p"
  show "length (port_queue p) \<le> 64" using p by (simp add: port_inv_def)
  show "port_inv (port_enq m p)" using p by (simp add: port_enq_def count_full port_push_inv)
  show "port_queue (port_enq m p) = port_queue p @ [m]" if "length (port_queue p) < 64"
    using p that by (simp add: port_enq_def count_full port_push_queue)
  show "port_queue (port_enq m p) = port_queue p" if "length (port_queue p) = 64"
    using that by (simp add: port_enq_def count_full)
  show "port_inv (snd (port_deq p))" using p port_pop_inv [OF p] by (simp add: port_deq_def word_gt_0)
  show "fst (port_deq p) = None \<and> port_queue (snd (port_deq p)) = []" if "port_queue p = []"
  proof -
    have "p_q_count p = 0" using that by (metis length_port_queue list.size(3) unat_eq_zero)
    then show ?thesis using that by (simp add: port_deq_def)
  qed
  show "fst (port_deq p) = Some x \<and> port_queue (snd (port_deq p)) = xs" if "port_queue p = x # xs" for x xs
  proof -
    have "p_q_count p \<noteq> 0" using that by (metis length_port_queue list.size(3) unat_0 list.distinct(1) length_0_conv)
    then show ?thesis using that port_pop_queue [OF p] by (simp add: port_deq_def word_gt_0)
  qed
qed

section \<open>The port table\<close>

definition port_count :: "'a ipc_st_scheme \<Rightarrow> nat" where
  "port_count s = cells (\<lambda>i. p_valid (port_table s i)) IPC_MAX_PORTS"

definition ipc_inv :: "'a ipc_st_scheme \<Rightarrow> bool" where
  "ipc_inv s \<longleftrightarrow> port_next_id s \<noteq> 0 \<and> port_active s = of_nat (port_count s) \<and>
     (\<forall>i < IPC_MAX_PORTS. p_valid (port_table s i) \<longrightarrow>
        port_inv (port_table s i) \<and> \<not> p_closed (port_table s i) \<and>
        p_id (port_table s i) \<noteq> 0 \<and> p_id (port_table s i) < port_next_id s \<and>
        (\<forall>j < IPC_MAX_PORTS. p_valid (port_table s j) \<and> p_id (port_table s i) = p_id (port_table s j) \<longrightarrow> i = j))"

definition queue_of :: "u32 \<Rightarrow> 'a ipc_st_scheme \<Rightarrow> ipc_msg list option" where
  "queue_of pid s = map_option (\<lambda>i. port_queue (port_table s i)) (find_port pid s)"

lemma ipc_invD:
  assumes "ipc_inv s" "i < IPC_MAX_PORTS" "p_valid (port_table s i)"
  shows "port_inv (port_table s i)" "\<not> p_closed (port_table s i)" "p_id (port_table s i) \<noteq> 0"
    "p_id (port_table s i) < port_next_id s"
    "\<And>j. j < IPC_MAX_PORTS \<Longrightarrow> p_valid (port_table s j) \<Longrightarrow> p_id (port_table s i) = p_id (port_table s j) \<Longrightarrow> i = j"
  using assms unfolding ipc_inv_def by blast+

lemma find_port_SomeD:
  "find_port pid s = Some i \<Longrightarrow> i < IPC_MAX_PORTS \<and> p_valid (port_table s i) \<and> p_id (port_table s i) = pid \<and> pid \<noteq> 0"
  by (auto simp: find_port_def dest: for_find_SomeD split: if_splits)

lemma find_port_iff:
  assumes "ipc_inv s"
  shows "find_port pid s = Some i \<longleftrightarrow> i < IPC_MAX_PORTS \<and> p_valid (port_table s i) \<and> p_id (port_table s i) = pid"
proof
  assume i: "i < IPC_MAX_PORTS \<and> p_valid (port_table s i) \<and> p_id (port_table s i) = pid"
  then have "for_find (\<lambda>i. p_valid (port_table s i) \<and> p_id (port_table s i) = pid) 0 IPC_MAX_PORTS = Some i"
    using ipc_invD(5) [OF assms, of i] by (intro for_find_unique) auto
  with i ipc_invD(3) [OF assms, of i] show "find_port pid s = Some i" by (simp add: find_port_def)
qed (auto dest: find_port_SomeD)

lemma find_port_cong:
  assumes "\<And>i. p_valid (port_table s i) = p_valid (port_table t i)" "\<And>i. p_id (port_table s i) = p_id (port_table t i)"
  shows "find_port pid s = find_port pid t"
  using assms by (simp add: find_port_def)

text \<open>What the audit calls and the capability calls leave alone.\<close>

lemma audit_ipc_frame [frame, simp]:
  "port_table (secmon_audit_ipc ty a p m s) = port_table s"
  "port_next_id (secmon_audit_ipc ty a p m s) = port_next_id s"
  "port_active (secmon_audit_ipc ty a p m s) = port_active s"
  "msg_seq (secmon_audit_ipc ty a p m s) = msg_seq s"
  "cap_table (secmon_audit_ipc ty a p m s) = cap_table s"
  by (simp_all add: secmon_audit_ipc_def secmon_record_def Let_def)

lemma cap_create_frame [frame, simp]:
  "port_table (snd (cap_create ty r obj tid s)) = port_table s"
  "port_next_id (snd (cap_create ty r obj tid s)) = port_next_id s"
  "port_active (snd (cap_create ty r obj tid s)) = port_active s"
  "msg_seq (snd (cap_create ty r obj tid s)) = msg_seq s"
  by (simp_all add: cap_create_def cap_take_id_def cap_slot_upd_def kdef secmon_record_def Let_def split: option.splits)

lemma cap_release_frame_all:
  "port_table (cap_release cid s) = port_table s \<and> port_next_id (cap_release cid s) = port_next_id s \<and>
   port_active (cap_release cid s) = port_active s \<and> msg_seq (cap_release cid s) = msg_seq s"
proof (rule cap_release_induct [where P = "\<lambda>cid s t. port_table t = port_table s \<and>
    port_next_id t = port_next_id s \<and> port_active t = port_active s \<and> msg_seq t = msg_seq s"], goal_cases)
  case (3 cid s i s2)
  then show ?case by (cases "c_parent (cap_table s i) = 0") (simp_all add: cap_slot_upd_def)
qed (simp_all add: cap_slot_upd_def)

lemmas cap_release_frame [frame, simp] = cap_release_frame_all [THEN conjunct1]
  cap_release_frame_all [THEN conjunct2, THEN conjunct1]
  cap_release_frame_all [THEN conjunct2, THEN conjunct2, THEN conjunct1]
  cap_release_frame_all [THEN conjunct2, THEN conjunct2, THEN conjunct2]

lemma port_upd_sel [simp]:
  "port_table (port_upd i f s) = (port_table s)(i := f (port_table s i))"
  "port_next_id (port_upd i f s) = port_next_id s" "port_active (port_upd i f s) = port_active s"
  "msg_seq (port_upd i f s) = msg_seq s" "cap_table (port_upd i f s) = cap_table s"
  by (simp_all add: port_upd_def)

lemma port_queue_ops [simp]:
  "p_valid (port_push m p) = p_valid p" "p_id (port_push m p) = p_id p" "p_closed (port_push m p) = p_closed p"
  "p_valid (snd (port_pop p)) = p_valid p" "p_id (snd (port_pop p)) = p_id p" "p_closed (snd (port_pop p)) = p_closed p"
  by (simp_all add: port_push_def port_pop_def)

text \<open>Steps that exchange the queue of one port keep the invariant and every other port.\<close>

lemma ipc_inv_requeue:
  assumes inv: "ipc_inv s" and i: "i < IPC_MAX_PORTS" "p_valid (port_table s i)"
    and t: "port_table t = (port_table s)(i := p)" "port_next_id t = port_next_id s" "port_active t = port_active s"
    and p: "port_inv p" "p_valid p" "p_id p = p_id (port_table s i)" "\<not> p_closed p"
  shows "ipc_inv t" "find_port pid t = find_port pid s"
    "queue_of pid t = (if find_port pid s = Some i then Some (port_queue p) else queue_of pid s)"
proof -
  have same: "p_valid (port_table t k) = p_valid (port_table s k)" "p_id (port_table t k) = p_id (port_table s k)" for k
    using i t p by auto
  have count: "port_count t = port_count s"
    unfolding port_count_def by (rule cells_cong) (simp add: same)
  have "port_inv (port_table t k) \<and> \<not> p_closed (port_table t k)" if "k < IPC_MAX_PORTS" "p_valid (port_table s k)" for k
    using ipc_invD(1,2) [OF inv that] t p by auto
  then show "ipc_inv t"
    using inv unfolding ipc_inv_def same count t(2,3) by blast
  show f: "find_port pid t = find_port pid s" for pid by (rule find_port_cong) (simp_all add: same)
  show "queue_of pid t = (if find_port pid s = Some i then Some (port_queue p) else queue_of pid s)"
    by (cases "find_port pid s") (auto simp: queue_of_def f t)
qed

section \<open>Sending and receiving\<close>

lemma ipc_send_ok:
  assumes "find_port pid s = Some i" "\<not> p_closed (port_table s i)" "unat (p_q_count (port_table s i)) < 64" "\<not> caps_denied m s"
  shows "ipc_send pid (Some m) s = (IPC_OK, secmon_audit_ipc AUDIT_IPC_SEND (m_sender_tid m) pid (m_type m)
    ((port_upd i (port_push (m\<lparr>m_msg_id := msg_seq s\<rparr>)) s)\<lparr>msg_seq := msg_seq s + 1\<rparr>))"
  using assms by (simp add: ipc_send_def count_full Let_def)

lemma ipc_send_effect:
  assumes inv: "ipc_inv s" and i: "find_port pid s = Some i"
    and room: "unat (p_q_count (port_table s i)) < 64" and caps: "\<not> caps_denied m s"
  defines "s' \<equiv> snd (ipc_send pid (Some m) s)"
  shows "fst (ipc_send pid (Some m) s) = IPC_OK" "ipc_inv s'" "find_port q s' = find_port q s"
    "queue_of q s' = (if find_port q s = Some i then Some (port_queue (port_table s i) @ [m\<lparr>m_msg_id := msg_seq s\<rparr>]) else queue_of q s)"
    "port_table s' = (port_table s)(i := port_enq (m\<lparr>m_msg_id := msg_seq s\<rparr>) (port_table s i))"
    "msg_seq s' = msg_seq s + 1" "cap_table s' = cap_table s"
proof -
  note ii = find_port_SomeD [OF i]
  note p = ipc_invD(1,2) [OF inv, of i]
  have eq: "ipc_send pid (Some m) s = (IPC_OK, s')"
    unfolding s'_def using ipc_send_ok [OF i _ room caps] p ii by simp
  have s': "s' = secmon_audit_ipc AUDIT_IPC_SEND (m_sender_tid m) pid (m_type m)
    ((port_upd i (port_push (m\<lparr>m_msg_id := msg_seq s\<rparr>)) s)\<lparr>msg_seq := msg_seq s + 1\<rparr>)"
    unfolding s'_def using ipc_send_ok [OF i _ room caps] p ii by simp
  show "fst (ipc_send pid (Some m) s) = IPC_OK" using eq by simp
  have t: "port_table s' = (port_table s)(i := port_push (m\<lparr>m_msg_id := msg_seq s\<rparr>) (port_table s i))"
    "port_next_id s' = port_next_id s" "port_active s' = port_active s"
    by (simp_all add: s')
  then show "port_table s' = (port_table s)(i := port_enq (m\<lparr>m_msg_id := msg_seq s\<rparr>) (port_table s i))"
    using room by (simp add: port_enq_def count_full)
  note rq = ipc_inv_requeue [OF inv _ _ t]
  show "ipc_inv s'" "find_port q s' = find_port q s"
    "queue_of q s' = (if find_port q s = Some i then Some (port_queue (port_table s i) @ [m\<lparr>m_msg_id := msg_seq s\<rparr>]) else queue_of q s)"
    using rq ii p room by (simp_all add: port_push_inv port_push_queue)
  show "msg_seq s' = msg_seq s + 1" "cap_table s' = cap_table s" by (simp_all add: s')
qed

lemma receive_try_some:
  assumes inv: "ipc_inv s" and i: "find_port pid s = Some i" and q: "port_queue (port_table s i) = m # ms"
  shows "\<exists>s'. receive_try pid i t w s = Some (IPC_OK, Some m, s') \<and> ipc_inv s' \<and>
    port_table s' = (port_table s)(i := snd (port_deq (port_table s i))) \<and> find_port r s' = find_port r s \<and>
    queue_of r s' = (if find_port r s = Some i then Some ms else queue_of r s)"
proof -
  note ii = find_port_SomeD [OF i]
  note p = ipc_invD(1,2) [OF inv, of i]
  have c: "p_q_count (port_table s i) \<noteq> 0" using q length_port_queue [of "port_table s i"] by auto
  have pop: "m = fst (port_pop (port_table s i))" "ms = port_queue (snd (port_pop (port_table s i)))"
    using port_pop_queue [of "port_table s i"] p ii c q by auto
  let ?s = "secmon_audit_ipc AUDIT_IPC_RECV (m_sender_tid m) pid (m_type m) (port_upd i (\<lambda>_. snd (port_pop (port_table s i))) s)"
  have "receive_try pid i t w s = Some (IPC_OK, Some m, ?s)"
    using c pop by (simp add: receive_try_def word_gt_0 case_prod_beta)
  moreover have t: "port_table ?s = (port_table s)(i := snd (port_pop (port_table s i)))"
    "port_next_id ?s = port_next_id s" "port_active ?s = port_active s" by simp_all
  note rq = ipc_inv_requeue [OF inv _ _ t]
  have "ipc_inv ?s \<and> find_port r ?s = find_port r s \<and> queue_of r ?s = (if find_port r s = Some i then Some ms else queue_of r s)"
    using rq ii p c pop(2) port_pop_inv by (simp only: port_queue_ops) simp
  ultimately show ?thesis using c by (auto simp: port_deq_def word_gt_0)
qed

lemma queue_empty_iff: "port_queue p = [] \<longleftrightarrow> p_q_count p = 0"
  by (metis length_0_conv length_port_queue unat_eq_zero)

text \<open>The waiting loop: with a finite timeout it returns, whatever the other tasks do.\<close>

lemma receive_loop_returns:
  assumes "timeout \<noteq> IPC_TIMEOUT_FOREVER"
  shows "\<exists>r. receive_loop yield pid i timeout w k s = Some r"
proof (induction "unat timeout - unat w" arbitrary: w k s rule: less_induct)
  case less
  show ?case
  proof (cases "receive_try pid i timeout w s")
    case (Some r)
    then show ?thesis by (subst receive_loop.simps) (cases r; simp)
  next
    case None
    then have w: "w < timeout" using assms
      by (auto simp: receive_try_def Let_def not_le case_prod_beta split: if_splits)
    have "unat timeout < 2 ^ 32 - 1"
    proof -
      have "unat timeout \<noteq> unat (0xFFFFFFFF :: u32)" using assms by (simp only: word_unat_eq_iff [symmetric]) simp
      then show ?thesis using unat_u32_less [of timeout] by simp
    qed
    with w have "unat (w + 2) = unat w + 2" by (subst unat_add_lem [THEN iffD1]) (auto simp: word_less_nat_alt)
    with w have "unat timeout - unat (w + 2) < unat timeout - unat w" by (simp add: word_less_nat_alt)
    from less.hyps [OF this] None show ?thesis by (subst receive_loop.simps) simp
  qed
qed

text \<open>A burst of sends to one port, and as many receives without waiting.\<close>

primrec ipc_send_all :: "u32 \<Rightarrow> ipc_msg list \<Rightarrow> 'a ipc_st_scheme \<Rightarrow> 'a ipc_st_scheme" where
  "ipc_send_all pid [] s = s"
| "ipc_send_all pid (m # ms) s = ipc_send_all pid ms (snd (ipc_send pid (Some m) s))"

primrec ipc_drain :: "u32 \<Rightarrow> nat \<Rightarrow> 'a ipc_st_scheme \<Rightarrow> ipc_msg option list" where
  "ipc_drain pid 0 s = []"
| "ipc_drain pid (Suc n) s =
     (case ipc_receive (\<lambda>_ s. s) pid True IPC_TIMEOUT_NONE s of
        None \<Rightarrow> []
      | Some (err, out, s') \<Rightarrow> out # ipc_drain pid n s')"

primrec stamp :: "u32 \<Rightarrow> ipc_msg list \<Rightarrow> ipc_msg list" where
  "stamp k [] = []"
| "stamp k (m # ms) = m\<lparr>m_msg_id := k\<rparr> # stamp (k + 1) ms"

lemma length_stamp [simp]: "length (stamp k ms) = length ms"
  by (induction ms arbitrary: k) auto

lemma caps_denied_cong: "cap_table s = cap_table t \<Longrightarrow> caps_denied m s = caps_denied m t"
  by (simp only: caps_denied_def cap_check_def cap_get_def)

lemma ipc_send_all_port:
  assumes "ipc_inv s" "find_port pid s = Some i" "unat (p_q_count (port_table s i)) + length ms \<le> 64"
    and "\<And>m. m \<in> set ms \<Longrightarrow> \<not> caps_denied m s"
  shows "ipc_inv (ipc_send_all pid ms s) \<and> find_port pid (ipc_send_all pid ms s) = Some i \<and>
    port_table (ipc_send_all pid ms s) i = ipcq.enq_all (stamp (msg_seq s) ms) (port_table s i)"
  using assms
proof (induction ms arbitrary: s)
  case Nil
  then show ?case by simp
next
  case (Cons m ms)
  have room: "unat (p_q_count (port_table s i)) < 64" and caps: "\<not> caps_denied m s" using Cons.prems by auto
  let ?s1 = "snd (ipc_send pid (Some m) s)"
  note eff = ipc_send_effect [OF Cons.prems(1,2) room caps]
  have f: "find_port pid ?s1 = Some i" using eff(3) Cons.prems(2) by simp
  have "port_queue (port_table ?s1 i) = port_queue (port_table s i) @ [m\<lparr>m_msg_id := msg_seq s\<rparr>]"
    using eff(4) [of pid] f Cons.prems(2) by (simp add: queue_of_def)
  then have "unat (p_q_count (port_table ?s1 i)) = Suc (unat (p_q_count (port_table s i)))"
    using length_port_queue [of "port_table ?s1 i"] by simp
  then have len: "unat (p_q_count (port_table ?s1 i)) + length ms \<le> 64" using Cons.prems(3) by simp
  have "\<not> caps_denied x ?s1" if "x \<in> set ms" for x
    using Cons.prems(4) [of x] caps_denied_cong [OF eff(7)] that by simp
  from Cons.IH [OF eff(2) f len this] show ?case
    unfolding ipc_send_all.simps stamp.simps ipcq.enq_all.simps eff(5) eff(6) by simp
qed

lemma ipc_drain_port:
  assumes "ipc_inv s" "find_port pid s = Some i" "n \<le> length (port_queue (port_table s i))"
  shows "ipc_drain pid n s = map Some (fst (ipcq.deq_n n (port_table s i)))"
  using assms
proof (induction n arbitrary: s)
  case 0
  then show ?case by simp
next
  case (Suc n)
  then obtain m ms where q: "port_queue (port_table s i) = m # ms" by (cases "port_queue (port_table s i)") auto
  from receive_try_some [OF Suc.prems(1,2) q, of 0 0 pid] obtain s' where
    r: "receive_try pid i 0 0 s = Some (IPC_OK, Some m, s')" and inv: "ipc_inv s'"
    and t: "port_table s' = (port_table s)(i := snd (port_deq (port_table s i)))" and f: "find_port pid s' = Some i"
    and ms: "queue_of pid s' = Some ms" using Suc.prems(2) by auto
  have "n \<le> length (port_queue (port_table s' i))" using ms f Suc.prems(3) q by (simp add: queue_of_def)
  from Suc.IH [OF inv f this] have IH: "ipc_drain pid n s' = map Some (fst (ipcq.deq_n n (port_table s' i)))" .
  have d: "port_deq (port_table s i) = (Some m, port_table s' i)"
    using ipcq.deq_cons [OF ipc_invD(1) [OF Suc.prems(1)] q] find_port_SomeD [OF Suc.prems(2)] t
    by (simp add: prod_eq_iff)
  have "ipc_receive (\<lambda>_ s. s) pid True 0 s = Some (IPC_OK, Some m, s')"
    using r by (simp add: ipc_receive_def Suc.prems(2)) (subst receive_loop.simps, simp)
  with IH d show ?case by (simp add: case_prod_beta)
qed

section \<open>Creating and destroying ports\<close>

lemma ipc_inv_init: "ipc_inv (ipc_init s)"
  by (simp add: ipc_inv_def ipc_init_def port_count_def port_zero_def cells_none)

lemma alloc_port_SomeD: "alloc_port s = Some i \<Longrightarrow> i < IPC_MAX_PORTS \<and> \<not> p_valid (port_table s i)"
  by (auto simp: alloc_port_def dest: for_find_SomeD)

lemma ipc_port_create_table:
  assumes "alloc_port s = Some i"
  shows "\<exists>cid. port_table (snd (ipc_port_create tid s)) = (port_table s)(i := (port_table s i)\<lparr>p_id := port_next_id s,
      p_owner_tid := tid, p_q_head := 0, p_q_tail := 0, p_q_count := 0, p_valid := True, p_closed := False, p_cap := cid\<rparr>)"
    "port_next_id (snd (ipc_port_create tid s)) = (if port_next_id s + 1 = 0 then 1 else port_next_id s + 1)"
    "port_active (snd (ipc_port_create tid s)) = port_active s + 1"
    "fst (ipc_port_create tid s) = port_next_id s"
  by (auto simp: ipc_port_create_def assms Let_def case_prod_beta)

lemma ipc_create_effect:
  fixes tid :: u32
  assumes inv: "ipc_inv s" and i: "alloc_port s = Some i" and left: "port_next_id s \<noteq> - 1"
  defines "s' \<equiv> snd (ipc_port_create tid s)"
  shows "ipc_inv s'" "find_port (port_next_id s) s' = Some i" "queue_of (port_next_id s) s' = Some []"
    "find_port (port_next_id s) s = None"
proof -
  note ii = alloc_port_SomeD [OF i]
  obtain p where t: "port_table s' = (port_table s)(i := p)" and p: "p_id p = port_next_id s" "p_valid p"
      "\<not> p_closed p" "port_inv p" "port_queue p = []"
    using ipc_port_create_table(1) [OF i, of tid] by (auto simp: s'_def port_inv_def port_queue_def)
  have less: "port_next_id s < port_next_id s + 1"
    using unat_Suc_no_wrap [OF left] by (simp add: word_less_nat_alt)
  then have n: "port_next_id s' = port_next_id s + 1" "port_next_id s' \<noteq> 0"
    using ipc_port_create_table(2) [OF i, of tid] by (auto simp: s'_def)
  have "port_count s' = Suc (port_count s)"
    using cells_set [where P = "\<lambda>k. p_valid (port_table s k)" and k = i and n = IPC_MAX_PORTS
        and Q = "\<lambda>k. p_valid (((port_table s)(i := p)) k)"] ii p by (simp add: port_count_def t)
  then have a: "port_active s' = of_nat (port_count s')"
    using ipc_port_create_table(3) [OF i, of tid] inv by (simp add: s'_def ipc_inv_def)
  have old: "p_id (port_table s k) \<noteq> p_id p" "p_id (port_table s k) < port_next_id s + 1"
    if "k < IPC_MAX_PORTS" "p_valid (port_table s k)" for k
    using ipc_invD(4) [OF inv that] less p by auto
  show inv': "ipc_inv s'"
    unfolding ipc_inv_def
  proof (intro conjI allI impI)
    fix k j
    assume "k < IPC_MAX_PORTS" "p_valid (port_table s' k)" "j < IPC_MAX_PORTS"
      "p_valid (port_table s' j) \<and> p_id (port_table s' k) = p_id (port_table s' j)"
    then show "k = j" using old(1) [of k] old(1) [of j] ipc_invD(5) [OF inv, of k j] unfolding t
      by (cases "k = i"; cases "j = i") auto
  next
    fix k
    assume k: "k < IPC_MAX_PORTS" "p_valid (port_table s' k)"
    show "port_inv (port_table s' k)" "\<not> p_closed (port_table s' k)" "p_id (port_table s' k) \<noteq> 0"
      "p_id (port_table s' k) < port_next_id s'"
      using k ipc_invD(1-3) [OF inv, of k] old(2) [of k] p inv less unfolding t n
      by (cases "k = i"; simp add: ipc_inv_def)+
  qed (use n a in simp_all)
  show f: "find_port (port_next_id s) s' = Some i" using ii p by (simp add: find_port_iff [OF inv'] t)
  then show "queue_of (port_next_id s) s' = Some []" using p by (simp add: queue_of_def t)
  show "find_port (port_next_id s) s = None"
    using ipc_invD(4) [OF inv] find_port_SomeD [of "port_next_id s" s] by (metis less_irrefl not_None_eq)
qed

lemma ipc_port_destroy_table:
  assumes "find_port pid s = Some i"
  shows "\<exists>p. port_table (ipc_port_destroy pid s) = (port_table s)(i := p) \<and> \<not> p_valid p"
    "port_next_id (ipc_port_destroy pid s) = port_next_id s"
    "port_active (ipc_port_destroy pid s) = port_active s - 1"
  by (auto simp: ipc_port_destroy_def assms Let_def)

lemma ipc_destroy_effect:
  assumes inv: "ipc_inv s" and i: "find_port pid s = Some i"
  defines "s' \<equiv> ipc_port_destroy pid s"
  shows "ipc_inv s'" "find_port pid s' = None"
    "q \<noteq> pid \<Longrightarrow> find_port q s' = find_port q s" "q \<noteq> pid \<Longrightarrow> queue_of q s' = queue_of q s"
proof -
  note ii = find_port_SomeD [OF i]
  obtain p where t: "port_table s' = (port_table s)(i := p)" and p: "\<not> p_valid p"
    using ipc_port_destroy_table(1) [OF i] by (auto simp: s'_def)
  have "port_count s = Suc (port_count s')"
    using cells_clear [where P = "\<lambda>k. p_valid (port_table s k)" and k = i and n = IPC_MAX_PORTS
        and Q = "\<lambda>k. p_valid (((port_table s)(i := p)) k)"] ii p by (simp add: port_count_def t)
  then have a: "port_active s' = of_nat (port_count s')"
    using ipc_port_destroy_table(3) [OF i] inv by (simp add: s'_def ipc_inv_def)
  have old: "port_table s' k = port_table s k \<and> p_valid (port_table s k)" if "p_valid (port_table s' k)" for k
    using that t p by (auto split: if_splits)
  show inv': "ipc_inv s'"
    using inv a old unfolding ipc_inv_def s'_def ipc_port_destroy_table(2) [OF i] by metis
  have only: "find_port q s' = Some k \<longleftrightarrow> k \<noteq> i \<and> find_port q s = Some k" for q k
    unfolding find_port_iff [OF inv'] find_port_iff [OF inv] t using p by auto
  have uniq: "find_port q s \<noteq> Some i" if "q \<noteq> pid" for q
    using that ii by (auto simp: find_port_iff [OF inv])
  show "find_port pid s' = None" using only [of pid] i by (metis not_None_eq option.inject)
  show f: "find_port q s' = find_port q s" if "q \<noteq> pid" for q
    using only [of q] uniq [OF that] by (cases "find_port q s"; cases "find_port q s'") auto
  show "queue_of q s' = queue_of q s" if "q \<noteq> pid"
    unfolding queue_of_def f [OF that] using uniq [OF that] t by (cases "find_port q s") auto
qed

lemma alloc_port_None_iff: "alloc_port s = None \<longleftrightarrow> port_count s = IPC_MAX_PORTS"
proof
  assume "alloc_port s = None"
  then have "\<And>i. i < IPC_MAX_PORTS \<Longrightarrow> p_valid (port_table s i)"
    by (simp add: alloc_port_def for_find_None_iff)
  then show "port_count s = IPC_MAX_PORTS" unfolding port_count_def by (rule cells_all)
next
  assume "port_count s = IPC_MAX_PORTS"
  then have "p_valid (port_table s i)" if "i < IPC_MAX_PORTS" for i
    using cells_full [OF _ that] by (simp add: port_count_def)
  then show "alloc_port s = None" by (simp add: alloc_port_def for_find_None_iff)
qed

lemma ipc_create_others:
  assumes inv: "ipc_inv s" and i: "alloc_port s = Some i" and left: "port_next_id s \<noteq> - 1" and q: "q \<noteq> port_next_id s"
  shows "queue_of q (snd (ipc_port_create tid s)) = queue_of q s"
proof -
  let ?s = "snd (ipc_port_create tid s)"
  note inv' = ipc_create_effect(1) [OF inv i left, of tid]
  obtain p where t: "port_table ?s = (port_table s)(i := p)" and p: "p_id p = port_next_id s"
    using ipc_port_create_table(1) [OF i, of tid] by auto
  have only: "find_port q ?s = Some k \<longleftrightarrow> find_port q s = Some k" for k
    unfolding find_port_iff [OF inv'] find_port_iff [OF inv] t
    using p q alloc_port_SomeD [OF i] by auto
  then have f: "find_port q ?s = find_port q s" by (cases "find_port q s"; cases "find_port q ?s") auto
  have "find_port q s \<noteq> Some i" using alloc_port_SomeD [OF i] by (auto dest: find_port_SomeD)
  then show ?thesis unfolding queue_of_def f using t by (cases "find_port q s") auto
qed

section \<open>Properties\<close>

text \<open>A kernel state before the first call, and one with two ports, for the concrete instances.\<close>

definition ipc_st0 :: ipc_st where
  "ipc_st0 = \<lparr>tick_count = 0, log_buf = \<lambda>_. audit_zero, log_head = 0, log_count = 0, policy = 0,
     cap_table = \<lambda>_. cap_zero, cap_next_id = 1, cap_active_count = 0,
     port_table = \<lambda>_. port_zero, port_next_id = 0, port_active = 0, msg_seq = 0\<rparr>"

definition ipc_demo :: ipc_st where
  "ipc_demo = snd (ipc_port_create 7 (ipc_init ipc_st0))"

lemma init_alloc: "alloc_port (ipc_init s) = Some 0"
  by (simp add: alloc_port_def ipc_init_def port_zero_def IPC_MAX_PORTS_def loop_eval)

lemma ipc_demo_facts: "ipc_inv ipc_demo" "queue_of 1 ipc_demo = Some []" "find_port 1 ipc_demo = Some 0"
  "msg_seq ipc_demo = 1"
  using ipc_create_effect(1-3) [where s = "ipc_init ipc_st0" and i = 0 and tid = 7, OF ipc_inv_init init_alloc]
  by (simp_all add: ipc_demo_def ipc_init_def ipc_port_create_def Let_def case_prod_beta split: option.splits)



text \<open>
  C8: \<open>ipc_receive\<close> with any timeout but \<open>IPC_TIMEOUT_FOREVER\<close> returns, whatever the tasks that
  run during its yields do to the kernel state: the wait counter cannot wrap past the timeout.
\<close>

theorem ipc_receive_returns:
  assumes "timeout_ms \<noteq> IPC_TIMEOUT_FOREVER"
  shows "\<exists>r. ipc_receive yield pid has_out timeout_ms s = Some r"
proof (cases "find_port pid s")
  case (Some i)
  then show ?thesis using receive_loop_returns [OF assms, of yield pid i 0 0 s] by (simp add: ipc_receive_def)
qed (simp add: ipc_receive_def)

theorem ipc_receive_returns_witness:
  "\<exists>r. ipc_receive (\<lambda>_ s. s) 1 True 0xFFFFFFFE ipc_demo = Some r"
  by (rule ipc_receive_returns) simp



text \<open>
  C9: the life of a port. With a free slot, \<open>ipc_port_create\<close> returns an identifier that no port had
  and a port with an empty queue; destroying it again removes it, restores the count of active
  ports and, like the creation, leaves the queue of every other port as it was.
\<close>

theorem ipc_port_lifecycle:
  assumes "ipc_inv s" "port_next_id s \<noteq> - 1" "port_count s < IPC_MAX_PORTS" "ipc_port_create tid s = (pid, s1)"
  shows "find_port pid s = None \<and> queue_of pid s1 = Some [] \<and> ipc_inv s1 \<and>
    ipc_inv (ipc_port_destroy pid s1) \<and> find_port pid (ipc_port_destroy pid s1) = None \<and>
    port_active (ipc_port_destroy pid s1) = port_active s \<and>
    (\<forall>q. q \<noteq> pid \<longrightarrow> queue_of q s1 = queue_of q s \<and> queue_of q (ipc_port_destroy pid s1) = queue_of q s)"
proof -
  obtain i where i: "alloc_port s = Some i" using assms(3) alloc_port_None_iff [of s] by (cases "alloc_port s") auto
  have pid: "pid = port_next_id s" and s1: "s1 = snd (ipc_port_create tid s)"
    using assms(4) ipc_port_create_table(4) [OF i, of tid] by auto
  note eff = ipc_create_effect(1-3) [OF assms(1) i assms(2), of tid, folded s1 pid]
  note des = ipc_destroy_effect [OF eff(1,2)]
  have act: "port_active (ipc_port_destroy pid s1) = port_active s"
    using ipc_port_destroy_table(3) [OF eff(2)] ipc_port_create_table(3) [OF i, of tid] by (simp add: s1)
  have "queue_of q s1 = queue_of q s" if "q \<noteq> pid" for q
    using ipc_create_others [OF assms(1) i assms(2), of q tid] that by (simp add: s1 pid)
  with eff des act ipc_create_effect(4) [OF assms(1) i assms(2)] show ?thesis by (simp add: pid)
qed

theorem ipc_port_lifecycle_witness:
  "port_active (ipc_port_destroy 2 (snd (ipc_port_create 8 ipc_demo))) = port_active ipc_demo"
proof -
  have p: "port_next_id ipc_demo = 2" "port_table ipc_demo 1 = port_zero"
    using ipc_port_create_table(1,2) [where s = "ipc_init ipc_st0" and tid = 7, OF init_alloc]
    by (auto simp: ipc_demo_def ipc_init_def)
  have "alloc_port ipc_demo \<noteq> None"
    using p(2) by (auto simp: alloc_port_def for_find_None_iff port_zero_def IPC_MAX_PORTS_def intro!: exI [of _ 1])
  then have free: "port_count ipc_demo < IPC_MAX_PORTS" "alloc_port ipc_demo \<noteq> None"
    using alloc_port_None_iff [of ipc_demo] cells_le [of "\<lambda>i. p_valid (port_table ipc_demo i)" IPC_MAX_PORTS]
    by (auto simp: port_count_def le_less)
  then have "ipc_port_create 8 ipc_demo = (2, snd (ipc_port_create 8 ipc_demo))"
    using ipc_port_create_table(4) [of ipc_demo _ 8] p(1) by (auto simp: prod_eq_iff)
  from ipc_port_lifecycle [OF ipc_demo_facts(1) _ free(1) this] p(1) show ?thesis by simp
qed

text \<open>Other tasks destroy the port, make a new one in its slot and send to that.\<close>

definition slot_reuse :: "nat \<Rightarrow> ipc_st \<Rightarrow> ipc_st" where
  "slot_reuse k s = snd (ipc_send 2 (Some (msg_zero\<lparr>m_type := 9\<rparr>)) (snd (ipc_port_create 8 (ipc_port_destroy 1 s))))"

text \<open>
  A receiver that waits keeps a pointer to its port's slot across the yields. When the port is
  destroyed meanwhile and its slot is taken by a new port, the receiver on the old identifier, which
  no longer names a port, returns \<open>IPC_OK\<close> with a message that was sent to the new port.
\<close>

theorem ipc_receive_slot_reuse:
  "\<exists>s'. ipc_receive slot_reuse 1 True 10 ipc_demo = Some (IPC_OK, Some (msg_zero\<lparr>m_type := 9, m_msg_id := 1\<rparr>), s') \<and>
     find_port 1 s' = None"
proof -
  let ?d = "ipc_port_destroy 1 ipc_demo"
  let ?c = "snd (ipc_port_create 8 ?d)"
  let ?m = "msg_zero\<lparr>m_type := 9\<rparr>"
  have n: "port_next_id ipc_demo = 2" "p_q_count (port_table ipc_demo 0) = 0" "\<not> p_closed (port_table ipc_demo 0)"
    using ipc_port_create_table(1,2) [where s = "ipc_init ipc_st0" and tid = 7, OF init_alloc]
    by (auto simp: ipc_demo_def ipc_init_def)
  note des = ipc_destroy_effect [OF ipc_demo_facts(1,3)]
  have nd: "port_next_id ?d = 2" "msg_seq ?d = 1"
    using ipc_port_destroy_table(2) [OF ipc_demo_facts(3)] n(1) ipc_demo_facts(4)
    by (simp_all add: ipc_port_destroy_def ipc_demo_facts(3) Let_def)
  have "alloc_port ?d = Some 0"
    using ipc_port_destroy_table(1) [OF ipc_demo_facts(3)] by (auto simp: alloc_port_def IPC_MAX_PORTS_def loop_eval)
  note cre = ipc_create_effect(1-3) [OF des(1) this, of 8, unfolded nd]
  have mc: "msg_seq ?c = 1"
    using nd(2) by (simp add: ipc_port_create_def Let_def case_prod_beta split: option.splits)
  have g1: "find_port 1 ?c = None"
    using des(2) ipc_create_others [OF des(1) \<open>alloc_port ?d = Some 0\<close>, of 1 8] nd(1) by (simp add: queue_of_def)
  have caps: "\<not> caps_denied ?m ?c" by (simp add: caps_denied_def msg_zero_def loop_eval)
  have q0: "port_queue (port_table ?c 0) = []" using cre by (simp add: queue_of_def)
  then have room: "unat (p_q_count (port_table ?c 0)) < 64" by (simp add: queue_empty_iff)
  have cre': "ipc_inv ?c" "find_port 2 ?c = Some 0" using cre by simp_all
  note snd = ipc_send_effect [OF cre' room caps]
  let ?s = "slot_reuse 0 ipc_demo"
  have s: "ipc_inv ?s" "find_port 2 ?s = Some 0" "find_port 1 ?s = None"
    "port_queue (port_table ?s 0) = [?m\<lparr>m_msg_id := 1\<rparr>]"
    using snd(2) snd(3) [of 2] snd(3) [of 1] snd(4) [of 2] cre'(2) g1 q0 mc by (simp_all add: slot_reuse_def queue_of_def)
  obtain s' where s': "receive_try 2 0 10 2 ?s = Some (IPC_OK, Some (?m\<lparr>m_msg_id := 1\<rparr>), s')" "find_port 1 s' = None"
    using receive_try_some [OF s(1,2,4), of 10 2 1] s(3) by auto
  then obtain s'' where s'': "receive_try 1 0 10 2 ?s = Some (IPC_OK, Some (?m\<lparr>m_msg_id := 1\<rparr>), s'')"
    and t: "port_table s'' = port_table s'"
    by (auto simp: receive_try_def case_prod_beta split: if_splits)
  have "find_port 1 s'' = None" using s'(2) t by (simp add: find_port_def)
  moreover have "receive_try 1 0 10 0 ipc_demo = None" using n by (simp add: receive_try_def)
  ultimately show ?thesis
    using s'' by (simp add: ipc_receive_def ipc_demo_facts(3) receive_loop.simps [of _ _ _ _ 0] receive_loop.simps [of _ _ _ _ 2])
qed

end
