(* ===== verification/Svcbus.thy ===== *)
theory Svcbus
  imports Ipc
begin

text \<open>
  The service bus, \<open>kernel/svcbus.c\<close>: the registry of service names. The registry refines a map
  from names to service data; the lemmas give the effect of registration, lookup and
  unregistration on that map, and what happens to names that do not fit the entry.
\<close>

section \<open>State\<close>

abbreviation (input) SVCBUS_NAME_LEN :: nat where "SVCBUS_NAME_LEN \<equiv> 64"

definition SVCBUS_MAX_SERVICES :: nat where
  "SVCBUS_MAX_SERVICES = 64"

text \<open>\<open>e_name\<close> is the buffer of 64 characters, its NULs included.\<close>

record svc_entry =
  e_name :: string
  e_port :: u32
  e_cap :: u32
  e_owner_tid :: u32
  e_version :: u32
  e_active :: bool

datatype svc_err = SVC_OK | SVC_ERR_INVALID | SVC_ERR_EXISTS | SVC_ERR_FULL | SVC_ERR_NOTFOUND | SVC_ERR_NOPERM

definition svc_zero :: svc_entry where
  "svc_zero = \<lparr>e_name = replicate SVCBUS_NAME_LEN (CHR 0x00), e_port = 0, e_cap = 0, e_owner_tid = 0,
     e_version = 0, e_active = False\<rparr>"

record svc_st = ipc_st +
  svc_table :: "nat \<Rightarrow> svc_entry"
  svc_count :: u32

section \<open>Operations\<close>

definition svcbus_init :: "'a svc_st_scheme \<Rightarrow> 'a svc_st_scheme" where
  "svcbus_init s = s\<lparr>svc_table := \<lambda>_. svc_zero, svc_count := 0\<rparr>"

text \<open>The search that the three operations share: an active entry whose name compares equal.\<close>

definition svc_find :: "string \<Rightarrow> 'a svc_st_scheme \<Rightarrow> nat option" where
  "svc_find name s =
     for_find (\<lambda>i. e_active (svc_table s i) \<and> c_strncmp (c_str (e_name (svc_table s i))) name SVCBUS_NAME_LEN = 0)
       0 SVCBUS_MAX_SERVICES"

definition svc_free :: "'a svc_st_scheme \<Rightarrow> nat option" where
  "svc_free s = for_find (\<lambda>i. \<not> e_active (svc_table s i)) 0 SVCBUS_MAX_SERVICES"

text \<open>\<open>strncpy(buf, name, 63); buf[63] = '\0'\<close>; the buffer has 64 cells, so the copy stays inside it.\<close>

definition svc_set_name :: "string \<Rightarrow> string \<Rightarrow> string" where
  "svc_set_name name buf =
     (case c_strncpy buf name (SVCBUS_NAME_LEN - 1) of
        None \<Rightarrow> buf
      | Some b \<Rightarrow> b[SVCBUS_NAME_LEN - 1 := CHR 0x00])"

definition svc_upd :: "nat \<Rightarrow> (svc_entry \<Rightarrow> svc_entry) \<Rightarrow> 'a svc_st_scheme \<Rightarrow> 'a svc_st_scheme" where
  "svc_upd i f s = s\<lparr>svc_table := (svc_table s)(i := f (svc_table s i))\<rparr>"

definition svcbus_register ::
  "string option \<Rightarrow> u32 \<Rightarrow> u32 \<Rightarrow> u32 \<Rightarrow> 'a svc_st_scheme \<Rightarrow> svc_err \<times> 'a svc_st_scheme" where
  "svcbus_register name port owner_tid version s =
     (case name of
        None \<Rightarrow> (SVC_ERR_INVALID, s)
      | Some nm \<Rightarrow>
          if port = PORT_INVALID then (SVC_ERR_INVALID, s)
          else if svc_find nm s \<noteq> None then (SVC_ERR_EXISTS, s)
          else (case svc_free s of
             None \<Rightarrow> (SVC_ERR_FULL, s)
           | Some i \<Rightarrow>
               (let s1 = svc_upd i (\<lambda>e. e\<lparr>e_name := svc_set_name nm (e_name e), e_port := port,
                           e_owner_tid := owner_tid, e_version := version, e_active := True\<rparr>) s;
                    (cid, s2) = cap_create CAP_TYPE_SERVICE (CAP_RIGHT_READ OR CAP_RIGHT_WRITE OR CAP_RIGHT_GRANT)
                                  (OSvc i) owner_tid s1;
                    s3 = svc_upd i (\<lambda>e. e\<lparr>e_cap := cid\<rparr>) s2;
                    s4 = s3\<lparr>svc_count := svc_count s3 + 1\<rparr>
                in (SVC_OK, secmon_audit_svc AUDIT_SVC_REGISTER owner_tid (Some nm) s4))))"

text \<open>
  \<open>has_port\<close> and \<open>has_cap\<close>: which of the result pointers the caller passed. The results are the
  values stored through them.
\<close>

definition svcbus_lookup ::
  "string option \<Rightarrow> bool \<Rightarrow> bool \<Rightarrow> 'a svc_st_scheme \<Rightarrow> svc_err \<times> u32 option \<times> u32 option \<times> 'a svc_st_scheme" where
  "svcbus_lookup name has_port has_cap s =
     (case name of
        None \<Rightarrow> (SVC_ERR_INVALID, None, None, s)
      | Some nm \<Rightarrow>
          if \<not> has_port then (SVC_ERR_INVALID, None, None, s)
          else (case svc_find nm s of
             None \<Rightarrow> (SVC_ERR_NOTFOUND, None, None, s)
           | Some i \<Rightarrow> (SVC_OK, Some (e_port (svc_table s i)),
                         if has_cap then Some (e_cap (svc_table s i)) else None,
                         secmon_audit_svc AUDIT_SVC_LOOKUP 0 (Some nm) s)))"

definition svcbus_unregister :: "string \<Rightarrow> u32 \<Rightarrow> 'a svc_st_scheme \<Rightarrow> svc_err \<times> 'a svc_st_scheme" where
  "svcbus_unregister name owner_tid s =
     (case svc_find name s of
        None \<Rightarrow> (SVC_ERR_NOTFOUND, s)
      | Some i \<Rightarrow>
          if e_owner_tid (svc_table s i) \<noteq> owner_tid then (SVC_ERR_NOPERM, s)
          else (let s1 = cap_release (e_cap (svc_table s i)) s;
                    s2 = svc_upd i (\<lambda>e. e\<lparr>e_active := False\<rparr>) s1;
                    s3 = s2\<lparr>svc_count := svc_count s2 - 1\<rparr>
                in (SVC_OK, secmon_audit_svc AUDIT_SVC_UNREGISTER owner_tid (Some name) s3)))"

definition svcbus_count :: "'a svc_st_scheme \<Rightarrow> u32" where
  "svcbus_count s = svc_count s"

section \<open>The registry as a map\<close>

definition svc_name :: "svc_entry \<Rightarrow> string" where
  "svc_name e = c_str (e_name e)"

text \<open>Every buffer ends in NUL, and no two active entries hold the same name.\<close>

definition svc_inv :: "'a svc_st_scheme \<Rightarrow> bool" where
  "svc_inv s \<longleftrightarrow>
     svc_count s = of_nat (cells (\<lambda>i. e_active (svc_table s i)) SVCBUS_MAX_SERVICES) \<and>
     (\<forall>i. length (e_name (svc_table s i)) = SVCBUS_NAME_LEN \<and> e_name (svc_table s i) ! (SVCBUS_NAME_LEN - 1) = CHR 0x00) \<and>
     (\<forall>i < SVCBUS_MAX_SERVICES. \<forall>j < SVCBUS_MAX_SERVICES. e_active (svc_table s i) \<and> e_active (svc_table s j) \<and>
        svc_name (svc_table s i) = svc_name (svc_table s j) \<longrightarrow> i = j)"

text \<open>Port, owner and version of the service with a name.\<close>

definition registry :: "'a svc_st_scheme \<Rightarrow> string \<Rightarrow> (u32 \<times> u32 \<times> u32) option" where
  "registry s name = map_option (\<lambda>i. (e_port (svc_table s i), e_owner_tid (svc_table s i), e_version (svc_table s i)))
     (svc_find name s)"

lemma c_str_cstring [simp]: "cstring (c_str b)"
  by (auto simp: c_str_def cstring_def dest: set_takeWhileD)

lemma c_str_short:
  assumes "b ! i = CHR 0x00"
  shows "length (c_str b) \<le> i"
proof (rule ccontr)
  assume "\<not> length (c_str b) \<le> i"
  then have i: "i < length (c_str b)" by simp
  then have "c_str b ! i = CHR 0x00" using assms by (simp add: c_str_def takeWhile_nth)
  then have "CHR 0x00 \<in> set (c_str b)" using nth_mem [OF i] by simp
  then show False using c_str_cstring [of b] by (simp add: cstring_def)
qed

lemma svc_compare:
  assumes "length (e_name e) = 64" "e_name e ! 63 = CHR 0x00" "cstring nm"
  shows "c_strncmp (c_str (e_name e)) nm 64 = 0 \<longleftrightarrow> svc_name e = nm"
proof -
  have len: "length (svc_name e) \<le> 63" using c_str_short [of "e_name e" 63] assms by (simp add: svc_name_def)
  have "take 64 (svc_name e) = take 64 nm \<longleftrightarrow> svc_name e = nm"
  proof
    assume "take 64 (svc_name e) = take 64 nm"
    with len have eq: "take 64 nm = svc_name e" by simp
    have "length nm < 64" using len arg_cong [OF eq, of length] by (cases "length nm < 64") simp_all
    with eq show "svc_name e = nm" by simp
  qed simp
  then show ?thesis using strncmp_zero_iff [of "c_str (e_name e)" nm 64] assms(3) by (simp add: svc_name_def)
qed

lemma svc_find_iff:
  assumes "svc_inv s" "cstring nm"
  shows "svc_find nm s = Some i \<longleftrightarrow> i < SVCBUS_MAX_SERVICES \<and> e_active (svc_table s i) \<and> svc_name (svc_table s i) = nm"
proof -
  have eq: "(\<lambda>i. e_active (svc_table s i) \<and> c_strncmp (c_str (e_name (svc_table s i))) nm SVCBUS_NAME_LEN = 0)
      = (\<lambda>i. e_active (svc_table s i) \<and> svc_name (svc_table s i) = nm)"
    using assms svc_compare by (intro ext) (simp add: svc_inv_def)
  show ?thesis
    unfolding svc_find_def eq
  proof
    assume "i < SVCBUS_MAX_SERVICES \<and> e_active (svc_table s i) \<and> svc_name (svc_table s i) = nm"
    then show "for_find (\<lambda>i. e_active (svc_table s i) \<and> svc_name (svc_table s i) = nm) 0 SVCBUS_MAX_SERVICES = Some i"
      using assms(1) unfolding svc_inv_def by (intro for_find_unique) blast+
  qed (auto dest: for_find_SomeD)
qed

lemma svc_find_long:
  assumes "\<And>i. length (e_name (svc_table s i)) = 64 \<and> e_name (svc_table s i) ! 63 = CHR 0x00"
    and nm: "cstring nm" "64 \<le> length nm"
  shows "svc_find nm s = None"
proof -
  have "svc_name (svc_table s i) \<noteq> nm" for i
    using c_str_short [of "e_name (svc_table s i)" 63] assms(1) nm(2) by (auto simp: svc_name_def)
  then show ?thesis
    using svc_compare [OF _ _ nm(1)] assms(1) by (simp add: svc_find_def for_find_None_iff)
qed

lemma svc_upd_sel [simp]:
  "svc_table (svc_upd i f s) = (svc_table s)(i := f (svc_table s i))" "svc_count (svc_upd i f s) = svc_count s"
  by (simp_all add: svc_upd_def)

lemma audit_svc_frame [frame, simp]:
  "svc_table (secmon_audit_svc ty a nm s) = svc_table s" "svc_count (secmon_audit_svc ty a nm s) = svc_count s"
  by (simp_all add: secmon_audit_svc_def secmon_record_def Let_def split: option.splits)

lemma cap_create_svc_frame [frame, simp]:
  "svc_table (snd (cap_create ty r obj tid s)) = svc_table s" "svc_count (snd (cap_create ty r obj tid s)) = svc_count s"
  by (simp_all add: cap_create_def cap_take_id_def cap_slot_upd_def kdef secmon_record_def Let_def split: option.splits)

lemma cap_release_svc_frame_all: "svc_table (cap_release cid s) = svc_table s \<and> svc_count (cap_release cid s) = svc_count s"
proof (rule cap_release_induct [where P = "\<lambda>cid s t. svc_table t = svc_table s \<and> svc_count t = svc_count s"], goal_cases)
  case (3 cid s i s2)
  then show ?case by (cases "c_parent (cap_table s i) = 0") (simp_all add: cap_slot_upd_def)
qed (simp_all add: cap_slot_upd_def)

lemmas cap_release_svc_frame [frame, simp] = cap_release_svc_frame_all [THEN conjunct1] cap_release_svc_frame_all [THEN conjunct2]

lemma svc_set_name:
  assumes "length buf = 64" "cstring nm"
  shows "length (svc_set_name nm buf) = 64" "svc_set_name nm buf ! 63 = CHR 0x00" "c_str (svc_set_name nm buf) = take 63 nm"
proof -
  let ?b = "take 63 nm @ replicate (63 - length nm) (CHR 0x00)"
  have cells: "c_strncpy buf nm 63 = Some (?b @ drop 63 buf)" using assms(1) by (simp add: strncpy_cells)
  have lb: "length ?b = 63" by simp
  have "length (drop 63 buf) = Suc 0" using assms(1) by simp
  then obtain z where z: "drop 63 buf = [z]" by (cases "drop 63 buf") (simp_all del: length_drop)
  have "(?b @ [z])[length ?b := CHR 0x00] = ?b @ [CHR 0x00]" by (rule list_update_length)
  then have eq: "svc_set_name nm buf = ?b @ [CHR 0x00]"
    unfolding svc_set_name_def using cells z unfolding lb by simp
  show "length (svc_set_name nm buf) = 64" unfolding eq using lb by simp
  have "(?b @ [CHR 0x00]) ! length ?b = CHR 0x00" by (rule nth_append_length)
  then show "svc_set_name nm buf ! 63 = CHR 0x00" unfolding eq lb .
  show "c_str (svc_set_name nm buf) = take 63 nm"
    unfolding eq using c_str_append [OF cstring_take [OF assms(2)], of 63]
    by (cases "63 - length nm") simp_all
qed

lemma svcbus_register_table:
  assumes "port \<noteq> 0" "svc_find nm s = None" "svc_free s = Some i"
  shows "fst (svcbus_register (Some nm) port tid ver s) = SVC_OK"
    "\<exists>cid. svc_table (snd (svcbus_register (Some nm) port tid ver s)) = (svc_table s)(i := (svc_table s i)\<lparr>
       e_name := svc_set_name nm (e_name (svc_table s i)), e_port := port, e_owner_tid := tid,
       e_version := ver, e_active := True, e_cap := cid\<rparr>)"
    "svc_count (snd (svcbus_register (Some nm) port tid ver s)) = svc_count s + 1"
  using assms by (auto simp: svcbus_register_def Let_def case_prod_beta)

lemma svc_free_SomeD: "svc_free s = Some i \<Longrightarrow> i < SVCBUS_MAX_SERVICES \<and> \<not> e_active (svc_table s i)"
  by (auto simp: svc_free_def dest: for_find_SomeD)

lemma registry_upd:
  assumes inv: "svc_inv s" "svc_inv t" and i: "i < SVCBUS_MAX_SERVICES"
    and t: "svc_table t = (svc_table s)(i := e)" and nm: "cstring nm" "e_active e \<Longrightarrow> svc_name e = nm"
      "e_active (svc_table s i) \<Longrightarrow> svc_name (svc_table s i) = nm"
      "svc_find nm s = None \<or> svc_find nm s = Some i" and x: "cstring x"
  shows "registry t x = ((registry s)(nm := if e_active e then Some (e_port e, e_owner_tid e, e_version e) else None)) x"
proof (cases "x = nm")
  case True
  have "svc_find nm t = Some i" if "e_active e" using that i nm(2) by (simp add: svc_find_iff [OF inv(2) nm(1)] t)
  moreover have "svc_find nm t = None" if "\<not> e_active e"
  proof (rule ccontr)
    assume "svc_find nm t \<noteq> None"
    then obtain k where "svc_find nm t = Some k" by auto
    with that have "k \<noteq> i" "svc_find nm s = Some k"
      by (auto simp: svc_find_iff [OF inv(2) nm(1)] svc_find_iff [OF inv(1) nm(1)] t split: if_splits)
    with nm(4) show False by auto
  qed
  ultimately show ?thesis using True by (auto simp: registry_def t)
next
  case False
  have only: "svc_find x t = Some k \<longleftrightarrow> svc_find x s = Some k" for k
    unfolding svc_find_iff [OF inv(2) x] svc_find_iff [OF inv(1) x] t using False nm(2,3) by auto
  then have f: "svc_find x t = svc_find x s" by (cases "svc_find x s"; cases "svc_find x t") auto
  have "svc_find x s \<noteq> Some i" using False nm(3) by (auto simp: svc_find_iff [OF inv(1) x])
  then show ?thesis using False unfolding registry_def f by (cases "svc_find x s") (auto simp: t)
qed

lemma svc_invI:
  assumes "svc_count s = of_nat (cells (\<lambda>i. e_active (svc_table s i)) SVCBUS_MAX_SERVICES)"
    and "\<And>i. length (e_name (svc_table s i)) = 64 \<and> e_name (svc_table s i) ! 63 = CHR 0x00"
    and "\<And>i j. i < SVCBUS_MAX_SERVICES \<Longrightarrow> j < SVCBUS_MAX_SERVICES \<Longrightarrow> e_active (svc_table s i) \<Longrightarrow>
      e_active (svc_table s j) \<Longrightarrow> svc_name (svc_table s i) = svc_name (svc_table s j) \<Longrightarrow> i = j"
  shows "svc_inv s"
  using assms by (simp add: svc_inv_def)

lemma svc_invD:
  assumes "svc_inv s"
  shows "svc_count s = of_nat (cells (\<lambda>i. e_active (svc_table s i)) SVCBUS_MAX_SERVICES)"
    "length (e_name (svc_table s i)) = 64 \<and> e_name (svc_table s i) ! 63 = CHR 0x00"
    "i < SVCBUS_MAX_SERVICES \<Longrightarrow> j < SVCBUS_MAX_SERVICES \<Longrightarrow> e_active (svc_table s i) \<Longrightarrow>
      e_active (svc_table s j) \<Longrightarrow> svc_name (svc_table s i) = svc_name (svc_table s j) \<Longrightarrow> i = j"
  using assms unfolding svc_inv_def by simp_all

lemma svc_inv_set:
  assumes inv: "svc_inv s" and i: "i < SVCBUS_MAX_SERVICES" "\<not> e_active (svc_table s i)"
    and t: "svc_table t = (svc_table s)(i := e)" "svc_count t = svc_count s + 1"
    and e: "e_active e" "length (e_name e) = 64" "e_name e ! 63 = CHR 0x00" "cstring nm" "svc_name e = nm" "svc_find nm s = None"
  shows "svc_inv t"
proof -
  have new: "\<not> (e_active (svc_table s k) \<and> svc_name (svc_table s k) = nm)" if "k < SVCBUS_MAX_SERVICES" for k
    using e(6) svc_find_iff [OF inv e(4), of k] that by auto
  have "cells (\<lambda>k. e_active (svc_table t k)) SVCBUS_MAX_SERVICES = Suc (cells (\<lambda>k. e_active (svc_table s k)) SVCBUS_MAX_SERVICES)"
    using i e t by (intro cells_set [of i]) simp_all
  then have cnt: "svc_count t = of_nat (cells (\<lambda>k. e_active (svc_table t k)) SVCBUS_MAX_SERVICES)"
    using svc_invD(1) [OF inv] t(2) by simp
  show ?thesis
  proof (rule svc_invI [OF cnt])
    show "length (e_name (svc_table t k)) = 64 \<and> e_name (svc_table t k) ! 63 = CHR 0x00" for k
      using svc_invD(2) [OF inv, of k] e(2,3) by (simp add: t)
    fix k j
    assume "k < SVCBUS_MAX_SERVICES" "j < SVCBUS_MAX_SERVICES" "e_active (svc_table t k)" "e_active (svc_table t j)"
      "svc_name (svc_table t k) = svc_name (svc_table t j)"
    then show "k = j"
      using new [of k] new [of j] e(5) svc_invD(3) [OF inv, of k j] unfolding t by (cases "k = i"; cases "j = i") auto
  qed
qed

lemma svc_inv_clear:
  assumes inv: "svc_inv s" and i: "i < SVCBUS_MAX_SERVICES" "e_active (svc_table s i)"
    and t: "svc_table t = (svc_table s)(i := (svc_table s i)\<lparr>e_active := False\<rparr>)" "svc_count t = svc_count s - 1"
  shows "svc_inv t"
proof -
  have "Suc (cells (\<lambda>k. e_active (svc_table t k)) SVCBUS_MAX_SERVICES) = cells (\<lambda>k. e_active (svc_table s k)) SVCBUS_MAX_SERVICES"
    using i t by (intro cells_clear [of i]) simp_all
  then have "of_nat (cells (\<lambda>k. e_active (svc_table s k)) SVCBUS_MAX_SERVICES) - 1
      = (of_nat (cells (\<lambda>k. e_active (svc_table t k)) SVCBUS_MAX_SERVICES) :: u32)"
    using of_nat_Suc_minus by metis
  then have cnt: "svc_count t = of_nat (cells (\<lambda>k. e_active (svc_table t k)) SVCBUS_MAX_SERVICES)"
    using svc_invD(1) [OF inv] t(2) by simp
  have nm: "svc_name (svc_table t k) = svc_name (svc_table s k)" for k by (simp add: t svc_name_def)
  show ?thesis
  proof (rule svc_invI [OF cnt])
    show "length (e_name (svc_table t k)) = 64 \<and> e_name (svc_table t k) ! 63 = CHR 0x00" for k
      using svc_invD(2) [OF inv, of k] svc_invD(2) [OF inv, of i] by (simp add: t)
    show "k = j" if "k < SVCBUS_MAX_SERVICES" "j < SVCBUS_MAX_SERVICES" "e_active (svc_table t k)" "e_active (svc_table t j)"
      "svc_name (svc_table t k) = svc_name (svc_table t j)" for k j
      using that(1-4) svc_invD(3) [OF inv, of k j] that(5) [unfolded nm] unfolding t by (auto split: if_splits)
  qed
qed

section \<open>Properties\<close>

lemma register_effect:
  fixes tid ver :: u32
  assumes inv: "svc_inv s" and nm: "cstring nm" "length nm < 64" and port: "port \<noteq> 0"
    and new: "svc_find nm s = None" and i: "svc_free s = Some i"
  defines "s' \<equiv> snd (svcbus_register (Some nm) port tid ver s)"
  shows "svc_inv s'" "cstring x \<Longrightarrow> registry s' x = ((registry s)(nm \<mapsto> (port, tid, ver))) x"
proof -
  note ii = svc_free_SomeD [OF i]
  obtain cid where t: "svc_table s' = (svc_table s)(i := (svc_table s i)\<lparr>
       e_name := svc_set_name nm (e_name (svc_table s i)), e_port := port, e_owner_tid := tid,
       e_version := ver, e_active := True, e_cap := cid\<rparr>)" (is "_ = _(i := ?e)")
    using svcbus_register_table(2) [OF port new i] unfolding s'_def by blast
  have c: "svc_count s' = svc_count s + 1" unfolding s'_def by (rule svcbus_register_table(3) [OF port new i])
  have len: "length (e_name (svc_table s i)) = 64" using svc_invD(2) [OF inv] by simp
  have name: "svc_name ?e = nm" using svc_set_name(3) [OF len nm(1)] nm(2) by (simp add: svc_name_def)
  show inv': "svc_inv s'"
    by (rule svc_inv_set [OF inv _ _ t c]) (use ii name nm new svc_set_name [OF len nm(1)] in simp_all)
  show "registry s' x = ((registry s)(nm \<mapsto> (port, tid, ver))) x" if "cstring x"
    using registry_upd [OF inv inv' _ t nm(1) _ _ _ that] ii name new by simp
qed

lemma unregister_effect:
  assumes inv: "svc_inv s" and nm: "cstring nm" and i: "svc_find nm s = Some i" and own: "e_owner_tid (svc_table s i) = tid"
  defines "s' \<equiv> snd (svcbus_unregister nm tid s)"
  shows "fst (svcbus_unregister nm tid s) = SVC_OK" "svc_inv s'" "cstring x \<Longrightarrow> registry s' x = ((registry s)(nm := None)) x"
proof -
  note ii = i [unfolded svc_find_iff [OF inv nm]]
  show "fst (svcbus_unregister nm tid s) = SVC_OK" using i own by (simp add: svcbus_unregister_def Let_def)
  have t: "svc_table s' = (svc_table s)(i := (svc_table s i)\<lparr>e_active := False\<rparr>)" "svc_count s' = svc_count s - 1"
    using i own by (simp_all add: s'_def svcbus_unregister_def Let_def)
  show inv': "svc_inv s'" by (rule svc_inv_clear [OF inv _ _ t]) (use ii in simp_all)
  show "registry s' x = ((registry s)(nm := None)) x" if "cstring x"
    using registry_upd [OF inv inv' _ t(1) nm _ _ _ that] ii i by simp
qed

text \<open>
  C10: the registry implements a map from names to services. For names that fit an entry,
  \<open>svcbus_register\<close> refuses a null port, a name that is taken and a full table, and otherwise adds
  the name; \<open>svcbus_lookup\<close> returns the registered port; \<open>svcbus_unregister\<close> removes the name for
  its owner only. No other name is affected and every refusal leaves the state as it was.
\<close>

theorem svcbus_registry_map:
  assumes "svc_inv s" "cstring nm" "length nm < 64"
  shows "(if port = 0 then svcbus_register (Some nm) port tid ver s = (SVC_ERR_INVALID, s)
     else if registry s nm \<noteq> None then svcbus_register (Some nm) port tid ver s = (SVC_ERR_EXISTS, s)
     else if svc_free s = None then svcbus_register (Some nm) port tid ver s = (SVC_ERR_FULL, s)
     else fst (svcbus_register (Some nm) port tid ver s) = SVC_OK \<and>
       svc_inv (snd (svcbus_register (Some nm) port tid ver s)) \<and>
       (\<forall>x. cstring x \<longrightarrow> registry (snd (svcbus_register (Some nm) port tid ver s)) x
          = ((registry s)(nm \<mapsto> (port, tid, ver))) x)) \<and>
    (case registry s nm of
       None \<Rightarrow> svcbus_lookup (Some nm) True True s = (SVC_ERR_NOTFOUND, None, None, s) \<and>
         svcbus_unregister nm tid s = (SVC_ERR_NOTFOUND, s)
     | Some (p, owner, v) \<Rightarrow>
         fst (svcbus_lookup (Some nm) True True s) = SVC_OK \<and> fst (snd (svcbus_lookup (Some nm) True True s)) = Some p \<and>
         (if owner \<noteq> tid then svcbus_unregister nm tid s = (SVC_ERR_NOPERM, s)
          else fst (svcbus_unregister nm tid s) = SVC_OK \<and> svc_inv (snd (svcbus_unregister nm tid s)) \<and>
            (\<forall>x. cstring x \<longrightarrow> registry (snd (svcbus_unregister nm tid s)) x = ((registry s)(nm := None)) x)))"
    (is "?reg \<and> ?look")
proof
  consider "port = 0" | "port \<noteq> 0" "svc_find nm s \<noteq> None" | "port \<noteq> 0" "svc_find nm s = None" "svc_free s = None"
    | i where "port \<noteq> 0" "svc_find nm s = None" "svc_free s = Some i" by (cases "svc_free s") auto
  then show ?reg
  proof cases
    case 4
    then have "registry s nm = None" by (simp add: registry_def)
    with 4 show ?thesis
      using register_effect [OF assms 4] svcbus_register_table(1) [OF 4] by simp
  qed (auto simp: svcbus_register_def registry_def)
  show ?look
  proof (cases "svc_find nm s")
    case None
    then show ?thesis by (simp add: registry_def svcbus_lookup_def svcbus_unregister_def)
  next
    case (Some i)
    let ?e = "svc_table s i"
    have reg: "registry s nm = Some (e_port ?e, e_owner_tid ?e, e_version ?e)" by (simp add: registry_def Some)
    have look: "fst (svcbus_lookup (Some nm) True True s) = SVC_OK"
      "fst (snd (svcbus_lookup (Some nm) True True s)) = Some (e_port ?e)" by (simp_all add: svcbus_lookup_def Some)
    show ?thesis
    proof (cases "e_owner_tid ?e = tid")
      case True
      with reg look unregister_effect [OF assms(1,2) Some True] show ?thesis by simp
    next
      case False
      then have "svcbus_unregister nm tid s = (SVC_ERR_NOPERM, s)" by (simp add: svcbus_unregister_def Some)
      with reg look False show ?thesis by simp
    qed
  qed
qed

definition svc_st0 :: svc_st where
  "svc_st0 = \<lparr>tick_count = 0, log_buf = \<lambda>_. audit_zero, log_head = 0, log_count = 0, policy = 0,
     cap_table = \<lambda>_. cap_zero, cap_next_id = 1, cap_active_count = 0,
     port_table = \<lambda>_. port_zero, port_next_id = 1, port_active = 0, msg_seq = 1,
     svc_table = \<lambda>_. svc_zero, svc_count = 0\<rparr>"

lemma svc_inv_init: "svc_inv (svcbus_init s)"
  by (rule svc_invI) (simp_all add: svcbus_init_def svc_zero_def cells_none)

lemma svc_init_free: "svc_free (svcbus_init s) = Some 0"
  by (simp add: svc_free_def svcbus_init_def svc_zero_def SVCBUS_MAX_SERVICES_def loop_eval)

lemma svc_init_registry: "registry (svcbus_init s) nm = None"
  by (simp add: registry_def svc_find_def svcbus_init_def svc_zero_def for_find_None_iff)

theorem svcbus_registry_map_witness:
  "registry (snd (svcbus_register (Some ''aether.vfs'') 4 2 1 (svcbus_init svc_st0))) ''aether.vfs'' = Some (4, 2, 1)"
  using svcbus_registry_map [OF svc_inv_init, of "''aether.vfs''" 4 2 1 svc_st0]
  by (simp add: svc_init_registry svc_init_free cstring_def)

text \<open>
  A name of 64 or more characters is accepted but cannot be found again. Registration stores
  its first 63 characters and reports success; lookup compares 64 characters and reports
  \<open>SVC_ERR_NOTFOUND\<close>, and so does unregistration, so the entry is lost.
\<close>

theorem svcbus_long_name_lost:
  assumes "svc_inv s" "cstring nm" "64 \<le> length nm" "port \<noteq> 0" "svc_free s \<noteq> None"
  shows "fst (svcbus_register (Some nm) port tid ver s) = SVC_OK \<and>
    fst (svcbus_lookup (Some nm) True has_cap (snd (svcbus_register (Some nm) port tid ver s))) = SVC_ERR_NOTFOUND \<and>
    fst (svcbus_unregister nm tid (snd (svcbus_register (Some nm) port tid ver s))) = SVC_ERR_NOTFOUND"
proof -
  let ?s = "snd (svcbus_register (Some nm) port tid ver s)"
  obtain i where i: "svc_free s = Some i" using assms(5) by auto
  have new: "svc_find nm s = None" by (rule svc_find_long [OF svc_invD(2) [OF assms(1)] assms(2,3)])
  obtain cid where t: "svc_table ?s = (svc_table s)(i := (svc_table s i)\<lparr>
       e_name := svc_set_name nm (e_name (svc_table s i)), e_port := port, e_owner_tid := tid,
       e_version := ver, e_active := True, e_cap := cid\<rparr>)"
    using svcbus_register_table(2) [OF assms(4) new i] by blast
  have "length (e_name (svc_table ?s k)) = 64 \<and> e_name (svc_table ?s k) ! 63 = CHR 0x00" for k
    using svc_invD(2) [OF assms(1), of k] svc_invD(2) [OF assms(1), of i] svc_set_name [OF _ assms(2)] by (simp add: t)
  from svc_find_long [OF this assms(2,3)] show ?thesis
    using svcbus_register_table(1) [OF assms(4) new i] by (simp add: svcbus_lookup_def svcbus_unregister_def)
qed

theorem svcbus_long_name_lost_witness:
  "fst (svcbus_lookup (Some (replicate 64 (CHR ''a''))) True False
     (snd (svcbus_register (Some (replicate 64 (CHR ''a''))) 4 2 1 (svcbus_init svc_st0)))) = SVC_ERR_NOTFOUND"
  using svcbus_long_name_lost [OF svc_inv_init, of "replicate 64 (CHR ''a'')" 4 svc_st0 2 1 False]
  by (simp add: svc_init_free cstring_def)

end
