(* ===== verification/Buddy.thy ===== *)
theory Buddy
  imports Prelude
begin

text \<open>
  The buddy allocator, \<open>mm/buddy.c\<close> and \<open>include/mm/buddy.h\<close>. The free lists are doubly linked lists
  of nodes that live in the free pages themselves; the model keeps them in a store from addresses
  to nodes and shows that every list operation implements the operation on lists of page
  numbers. Over those lists it shows what an allocation takes from the free pages, what
  a free gives back, and how far the page counter drifts from the free lists.
\<close>

section \<open>State\<close>

abbreviation (input) BUDDY_MAX_ORDER :: nat where "BUDDY_MAX_ORDER \<equiv> 10"
abbreviation (input) BUDDY_PAGE_SIZE :: u64 where "BUDDY_PAGE_SIZE \<equiv> 4096"
abbreviation (input) BUDDY_MAX_PAGES :: u64 where "BUDDY_MAX_PAGES \<equiv> 65536"

text \<open>A pointer is an address and NULL is 0.\<close>

record buddy_node =
  bn_next :: u64
  bn_prev :: u64

record buddy_list =
  bl_head :: u64
  bl_count :: u32

text \<open>
  The store \<open>nodes\<close> is the memory of the managed pages read as list nodes. \<open>order_map\<close> lives in the
  first pages of the region, which are never on a free list, so the two do not overlap.
\<close>

record buddy_allocator =
  base_phys :: u64
  base_virt :: u64
  total_pages :: u64
  free_pages :: u64
  free_lists :: "nat \<Rightarrow> buddy_list"
  order_map :: "u64 \<Rightarrow> u8"
  buddy_initialized :: bool
  nodes :: "u64 \<Rightarrow> buddy_node"

section \<open>Operations\<close>

definition page_idx :: "u64 \<Rightarrow> 'a buddy_allocator_scheme \<Rightarrow> u64" where
  "page_idx virt_addr s = (virt_addr - base_virt s) div BUDDY_PAGE_SIZE"

definition page_addr :: "u64 \<Rightarrow> 'a buddy_allocator_scheme \<Rightarrow> u64" where
  "page_addr idx s = base_virt s + idx * BUDDY_PAGE_SIZE"

definition buddy_idx :: "u64 \<Rightarrow> nat \<Rightarrow> u64" where
  "buddy_idx p ord = p XOR push_bit ord 1"

definition buddy_push :: "nat \<Rightarrow> u64 \<Rightarrow> 'a buddy_allocator_scheme \<Rightarrow> 'a buddy_allocator_scheme" where
  "buddy_push ord idx s =
     (let node = page_addr idx s;
          l = free_lists s ord;
          n1 = (nodes s)(node := \<lparr>bn_next = bl_head l, bn_prev = 0\<rparr>);
          n2 = (if bl_head l \<noteq> 0 then n1(bl_head l := (n1 (bl_head l))\<lparr>bn_prev := node\<rparr>) else n1)
      in s\<lparr>nodes := n2,
           free_lists := (free_lists s)(ord := \<lparr>bl_head = node, bl_count = bl_count l + 1\<rparr>),
           order_map := (order_map s)(idx := of_nat ord)\<rparr>)"

definition buddy_pop :: "nat \<Rightarrow> 'a buddy_allocator_scheme \<Rightarrow> u64 \<times> 'a buddy_allocator_scheme" where
  "buddy_pop ord s =
     (let l = free_lists s ord; node = bl_head l in
      if node = 0 then (BUDDY_MAX_PAGES, s)
      else
        (let nx = bn_next (nodes s node);
             n1 = (if nx \<noteq> 0 then (nodes s)(nx := (nodes s nx)\<lparr>bn_prev := 0\<rparr>) else nodes s);
             idx = page_idx node s
         in (idx, s\<lparr>nodes := n1,
                    free_lists := (free_lists s)(ord := \<lparr>bl_head = nx, bl_count = bl_count l - 1\<rparr>),
                    order_map := (order_map s)(idx := 0xFF)\<rparr>)))"

definition unlink_node :: "u64 \<Rightarrow> (u64 \<Rightarrow> buddy_node) \<Rightarrow> (u64 \<Rightarrow> buddy_node)" where
  "unlink_node node n =
     (let pv = bn_prev (n node); nx = bn_next (n node);
          n1 = (if pv \<noteq> 0 then n(pv := (n pv)\<lparr>bn_next := nx\<rparr>) else n)
      in if nx \<noteq> 0 then n1(nx := (n1 nx)\<lparr>bn_prev := pv\<rparr>) else n1)"

definition buddy_remove :: "nat \<Rightarrow> u64 \<Rightarrow> 'a buddy_allocator_scheme \<Rightarrow> 'a buddy_allocator_scheme" where
  "buddy_remove ord idx s =
     (let node = page_addr idx s;
          l = free_lists s ord;
          h = (if bn_prev (nodes s node) \<noteq> 0 then bl_head l else bn_next (nodes s node))
      in s\<lparr>nodes := unlink_node node (nodes s),
           free_lists := (free_lists s)(ord := \<lparr>bl_head = h, bl_count = bl_count l - 1\<rparr>),
           order_map := (order_map s)(idx := 0xFF)\<rparr>)"

definition buddy_is_free :: "u64 \<Rightarrow> nat \<Rightarrow> 'a buddy_allocator_scheme \<Rightarrow> bool" where
  "buddy_is_free idx ord s \<longleftrightarrow> idx < total_pages s \<and> order_map s idx = of_nat ord"

text \<open>
  The seeding loops of \<open>buddy_init\<close>. Page numbers are at most 65536 and block sizes at most 1024, so
  no sum in them wraps and they are natural numbers here.
\<close>

function seed_blocks ::
  "nat \<Rightarrow> nat \<Rightarrow> nat \<Rightarrow> nat \<Rightarrow> 'a buddy_allocator_scheme \<Rightarrow> nat \<times> 'a buddy_allocator_scheme" where
  "seed_blocks ord limit aligned_p p s =
     (if aligned_p + 2 ^ ord \<le> limit
      then (let s1 = buddy_push ord (of_nat aligned_p) s;
                s2 = s1\<lparr>free_pages := free_pages s1 + 2 ^ ord\<rparr>
            in seed_blocks ord limit (aligned_p + 2 ^ ord) (aligned_p + 2 ^ ord) s2)
      else (p, s))"
  by pat_completeness auto
termination
  by (relation "measure (\<lambda>(ord, limit, aligned_p, p, s). limit - aligned_p)")
    (auto intro!: diff_less_mono2 elim: less_le_trans [rotated])

primrec seed_orders :: "nat \<Rightarrow> nat \<Rightarrow> nat \<Rightarrow> 'a buddy_allocator_scheme \<Rightarrow> 'a buddy_allocator_scheme" where
  "seed_orders 0 limit p s = s"
| "seed_orders (Suc ord) limit p s =
     (if p < limit
      then (let aligned_p = (p + 2 ^ ord - 1) div 2 ^ ord * 2 ^ ord;
                (p', s') = seed_blocks ord limit aligned_p p s
            in seed_orders ord limit p' s')
      else s)"

definition buddy_init ::
  "u64 \<Rightarrow> u64 \<Rightarrow> u64 \<Rightarrow> 'a buddy_allocator_scheme \<Rightarrow> 'a buddy_allocator_scheme" where
  "buddy_init bphys bvirt size_bytes s =
     (let tp = size_bytes div BUDDY_PAGE_SIZE;
          tp = (if tp > BUDDY_MAX_PAGES then BUDDY_MAX_PAGES else tp);
          s1 = s\<lparr>base_phys := bphys, base_virt := bvirt, total_pages := tp, free_pages := 0,
                 free_lists := \<lambda>_. \<lparr>bl_head = 0, bl_count = 0\<rparr>,
                 order_map := (\<lambda>i. if i < tp then 0xFF else order_map s i),
                 buddy_initialized := False\<rparr>;
          map_pages = (tp + BUDDY_PAGE_SIZE - 1) div BUDDY_PAGE_SIZE;
          s2 = seed_orders (Suc BUDDY_MAX_ORDER) (unat tp) (unat map_pages) s1
      in s2\<lparr>buddy_initialized := True\<rparr>)"

primrec split_down :: "nat \<Rightarrow> nat \<Rightarrow> u64 \<Rightarrow> 'a buddy_allocator_scheme \<Rightarrow> 'a buddy_allocator_scheme" where
  "split_down 0 ord idx s = s"
| "split_down (Suc avail) ord idx s =
     (if ord < Suc avail
      then split_down avail ord idx (buddy_push avail (idx + push_bit avail 1) s)
      else s)"

definition buddy_alloc :: "int \<Rightarrow> 'a buddy_allocator_scheme \<Rightarrow> u64 \<times> 'a buddy_allocator_scheme" where
  "buddy_alloc ord s =
     (if \<not> buddy_initialized s then (0, s)
      else if ord < 0 \<or> ord > int BUDDY_MAX_ORDER then (0, s)
      else
        case for_find (\<lambda>a. bl_count (free_lists s a) \<noteq> 0) (nat ord) (Suc BUDDY_MAX_ORDER) of
          None \<Rightarrow> (0, s)
        | Some avail \<Rightarrow>
            (let (idx, s1) = buddy_pop avail s;
                 s2 = split_down avail (nat ord) idx s1
             in (page_addr idx s2, s2\<lparr>free_pages := free_pages s2 - push_bit (nat ord) 1\<rparr>)))"

text \<open>The coalescing loop of \<open>buddy_free\<close> yields the merged block.\<close>

function coalesce ::
  "nat \<Rightarrow> u64 \<Rightarrow> 'a buddy_allocator_scheme \<Rightarrow> nat \<times> u64 \<times> 'a buddy_allocator_scheme" where
  "coalesce ord idx s =
     (if ord < BUDDY_MAX_ORDER then
        (let b = buddy_idx idx ord in
         if \<not> buddy_is_free b ord s then (ord, idx, s)
         else coalesce (ord + 1) (if b < idx then b else idx) (buddy_remove ord b s))
      else (ord, idx, s))"
  by pat_completeness auto
termination
  by (relation "measure (\<lambda>(ord, idx, s). BUDDY_MAX_ORDER - ord)") auto

declare coalesce.simps [simp del] seed_blocks.simps [simp del]

definition buddy_free :: "u64 \<Rightarrow> int \<Rightarrow> 'a buddy_allocator_scheme \<Rightarrow> 'a buddy_allocator_scheme" where
  "buddy_free virt_addr ord s =
     (if \<not> buddy_initialized s then s
      else if ord < 0 \<or> ord > int BUDDY_MAX_ORDER then s
      else
        (let idx = page_idx virt_addr s in
         if idx \<ge> total_pages s then s
         else
           (let (o', i', s1) = coalesce (nat ord) idx s;
                s2 = buddy_push o' i' s1
            in s2\<lparr>free_pages := free_pages s2 + push_bit o' 1\<rparr>)))"

text \<open>The order that \<open>buddy_alloc_pages\<close> asks for; \<open>sz\<close> stays below 2048.\<close>

function pages_order :: "u32 \<Rightarrow> u32 \<Rightarrow> nat \<Rightarrow> nat" where
  "pages_order n_pages sz ord =
     (if sz < n_pages \<and> ord < BUDDY_MAX_ORDER then pages_order n_pages (push_bit 1 sz) (ord + 1) else ord)"
  by pat_completeness auto
termination
  by (relation "measure (\<lambda>(n, sz, ord). BUDDY_MAX_ORDER - ord)") auto

declare pages_order.simps [simp del]

definition buddy_alloc_pages :: "u32 \<Rightarrow> 'a buddy_allocator_scheme \<Rightarrow> u64 \<times> 'a buddy_allocator_scheme" where
  "buddy_alloc_pages n_pages s = buddy_alloc (int (pages_order n_pages 1 0)) s"

definition buddy_free_bytes :: "'a buddy_allocator_scheme \<Rightarrow> u64" where
  "buddy_free_bytes s = free_pages s * BUDDY_PAGE_SIZE"

section \<open>Doubly linked lists\<close>

text \<open>The list of node addresses a head pointer leads to, with the back pointers in place.\<close>

fun dll :: "(u64 \<Rightarrow> buddy_node) \<Rightarrow> u64 \<Rightarrow> u64 \<Rightarrow> u64 list \<Rightarrow> bool" where
  "dll n p h [] \<longleftrightarrow> h = 0"
| "dll n p h (a # as) \<longleftrightarrow> h = a \<and> a \<noteq> 0 \<and> bn_prev (n a) = p \<and> dll n a (bn_next (n a)) as"

lemma dll_frame: "(\<And>a. a \<in> set xs \<Longrightarrow> n' a = n a) \<Longrightarrow> dll n' p h xs = dll n p h xs"
  by (induction xs arbitrary: p h) auto

lemma dll_frameD: "dll n p h xs \<Longrightarrow> (\<And>a. a \<in> set xs \<Longrightarrow> n' a = n a) \<Longrightarrow> dll n' p h xs"
  using dll_frame [of xs n' n p h] by blast

lemma map_remove1_inj: "inj_on f (insert a (set xs)) \<Longrightarrow> map f (remove1 a xs) = remove1 (f a) (map f xs)"
  by (induction xs) (auto simp: inj_on_def)

lemma dll_head: "dll n p h xs \<Longrightarrow> h = (case xs of [] \<Rightarrow> 0 | a # as \<Rightarrow> a)"
  by (cases xs) auto

lemma dll_nonzero: "dll n p h xs \<Longrightarrow> 0 \<notin> set xs"
  by (induction xs arbitrary: p h) auto

lemma dll_next: "dll n p h xs \<Longrightarrow> a \<in> set xs \<Longrightarrow> bn_next (n a) = 0 \<or> bn_next (n a) \<in> set xs"
proof (induction xs arbitrary: p h)
  case (Cons x xs)
  then show ?case using dll_head [of n x "bn_next (n x)" xs] by (auto split: list.splits)
qed simp

lemma dll_prev: "dll n p h xs \<Longrightarrow> a \<in> set xs \<Longrightarrow> bn_prev (n a) = p \<or> bn_prev (n a) \<in> set xs"
  by (induction xs arbitrary: p h) auto

lemma dll_prev_head: "dll n p h (x # xs) \<Longrightarrow> p \<notin> set (x # xs) \<Longrightarrow> a \<in> set (x # xs) \<Longrightarrow>
    distinct (x # xs) \<Longrightarrow> bn_prev (n a) = p \<longleftrightarrow> a = x"
  using dll_prev [of n x "bn_next (n x)" xs a] by auto

text \<open>A list whose first node gets another back pointer.\<close>

lemma dll_reprev:
  assumes "dll n p h xs" "distinct xs"
  shows "dll (if h \<noteq> 0 then n(h := (n h)\<lparr>bn_prev := q\<rparr>) else n) q h xs"
proof (cases xs)
  case Nil
  with assms show ?thesis by simp
next
  case (Cons a as)
  with assms have "a \<noteq> 0" "h = a" "a \<notin> set as" "dll n a (bn_next (n a)) as" by auto
  moreover have "dll (n(a := (n a)\<lparr>bn_prev := q\<rparr>)) a (bn_next (n a)) as = dll n a (bn_next (n a)) as"
    using \<open>a \<notin> set as\<close> by (intro dll_frame) auto
  ultimately show ?thesis unfolding Cons by simp
qed

lemma unlink_next:
  "bn_next (unlink_node a n x) = (if bn_prev (n a) = x \<and> x \<noteq> 0 then bn_next (n a) else bn_next (n x))"
  by (simp add: unlink_node_def Let_def)

lemma unlink_prev:
  "bn_prev (unlink_node a n x) = (if bn_next (n a) = x \<and> x \<noteq> 0 then bn_prev (n a) else bn_prev (n x))"
  by (simp add: unlink_node_def Let_def)

lemma dll_remove:
  assumes "dll n p h xs" "distinct xs" "p \<notin> set xs" "a \<in> set xs"
  shows "dll (unlink_node a n) p (if a = h then bn_next (n a) else h) (remove1 a xs)"
  using assms
proof (induction xs arbitrary: p h)
  case (Cons x xs)
  from Cons.prems have x: "h = x" "x \<noteq> 0" "bn_prev (n x) = p" "dll n x (bn_next (n x)) xs"
    "x \<notin> set xs" "distinct xs" "p \<notin> set xs" "p \<noteq> x" by simp_all
  show ?case
  proof (cases "a = x")
    case True
    define m where "m = (if bn_next (n x) \<noteq> 0
      then n(bn_next (n x) := (n (bn_next (n x)))\<lparr>bn_prev := p\<rparr>) else n)"
    have m: "dll m p (bn_next (n x)) xs" unfolding m_def using x(4,6) by (rule dll_reprev)
    have "unlink_node x n b = m b" if "b \<in> set xs" for b
      using that x(3,7) by (simp add: unlink_node_def Let_def m_def) blast
    then have "dll (unlink_node x n) p (bn_next (n x)) xs = dll m p (bn_next (n x)) xs"
      by (rule dll_frame)
    with m True x(1) show ?thesis by simp
  next
    case False
    with Cons.prems have a: "a \<in> set xs" by simp
    have IH: "dll (unlink_node a n) x (if a = bn_next (n x) then bn_next (n a) else bn_next (n x)) (remove1 a xs)"
      by (rule Cons.IH [OF x(4,6,5) a])
    obtain y ys where ys: "xs = y # ys" using a by (cases xs) auto
    have nx: "bn_next (n x) = y" using x(4) ys by simp
    have pv: "bn_prev (n a) = x \<longleftrightarrow> a = y" 
      using dll_prev_head [of n x "bn_next (n x)" y ys a] x(4,5,6) a unfolding ys by blast
    have anx: "bn_next (n a) \<noteq> x" using dll_next [OF x(4) a] x(2,5) by auto
    have "bn_next (unlink_node a n x) = (if a = y then bn_next (n a) else y)"
      unfolding unlink_next nx pv using x(2) by simp
    moreover have "bn_prev (unlink_node a n x) = p"
      unfolding unlink_prev using anx x(3) by simp
    ultimately show ?thesis
      using IH x(1,2) False unfolding nx by simp
  qed
qed simp

section \<open>The free lists as lists of page numbers\<close>

text \<open>The managed region lies in the address space, away from NULL.\<close>

definition buddy_geom :: "'a buddy_allocator_scheme \<Rightarrow> bool" where
  "buddy_geom s \<longleftrightarrow> base_virt s \<noteq> 0 \<and> unat (total_pages s) \<le> 65536
     \<and> unat (base_virt s) + unat (total_pages s) * 4096 \<le> 2 ^ 64"

text \<open>\<open>F\<close> gives the page numbers on the list of each order.\<close>

definition lists_ok :: "u64 \<Rightarrow> (nat \<Rightarrow> u64 list) \<Rightarrow> bool" where
  "lists_ok T F \<longleftrightarrow> (\<forall>k\<le>10. distinct (F k) \<and> (\<forall>i\<in>set (F k). i < T))
     \<and> (\<forall>k\<le>10. \<forall>k'\<le>10. \<forall>i. i \<in> set (F k) \<longrightarrow> i \<in> set (F k') \<longrightarrow> k = k')"

definition buddy_rep :: "(nat \<Rightarrow> u64 list) \<Rightarrow> 'a buddy_allocator_scheme \<Rightarrow> bool" where
  "buddy_rep F s \<longleftrightarrow>
     (\<forall>k\<le>10. dll (nodes s) 0 (bl_head (free_lists s k)) (map (\<lambda>i. page_addr i s) (F k))
        \<and> bl_count (free_lists s k) = of_nat (length (F k)))
     \<and> (\<forall>i < total_pages s. \<forall>k\<le>10. order_map s i = of_nat k \<longleftrightarrow> i \<in> set (F k))"

lemma unat_page_addr:
  assumes "buddy_geom s" "i < total_pages s"
  shows "unat (page_addr i s) = unat (base_virt s) + unat i * 4096"
proof -
  have i: "unat i < unat (total_pages s)" using assms(2) by (simp add: word_less_nat_alt)
  then have "unat i * 4096 < 2 ^ 64" using assms(1) by (simp add: buddy_geom_def)
  then have m: "unat (i * 4096) = unat i * 4096"
    by (simp add: unat_word_ariths)
  have "unat (base_virt s) + unat i * 4096 < 2 ^ 64" using i assms(1) by (simp add: buddy_geom_def)
  then show ?thesis unfolding page_addr_def using m by (simp add: unat_word_ariths)
qed

lemma page_addr_inj:
  assumes "buddy_geom s" "i < total_pages s" "j < total_pages s" "page_addr i s = page_addr j s"
  shows "i = j"
proof -
  have "unat i = unat j"
    using unat_page_addr [OF assms(1,2)] unat_page_addr [OF assms(1,3)] assms(4) by simp
  then show ?thesis by (simp add: word_unat_eq_iff)
qed

lemma page_addr_nonzero: "buddy_geom s \<Longrightarrow> i < total_pages s \<Longrightarrow> page_addr i s \<noteq> 0"
  using unat_page_addr [of s i] by (auto simp: buddy_geom_def unat_eq_zero)

lemma page_idx_addr:
  assumes "buddy_geom s" "i < total_pages s"
  shows "page_idx (page_addr i s) s = i"
proof -
  have "unat i < unat (total_pages s)" using assms(2) by (simp add: word_less_nat_alt)
  then have "unat i * 4096 < 2 ^ 64" using assms(1) by (simp add: buddy_geom_def)
  then have "unat (i * 4096 div 4096) = unat i" by (simp add: unat_div unat_word_ariths)
  then have "i * 4096 div 4096 = i" by (simp add: word_unat_eq_iff)
  then show ?thesis by (simp add: page_idx_def page_addr_def)
qed

lemma small_order: "k \<le> 10 \<Longrightarrow> unat (of_nat k :: u8) = k"
  by (simp add: unat_of_nat)

lemma small_order_neq: "k \<le> 10 \<Longrightarrow> k' \<le> 10 \<Longrightarrow> (of_nat k :: u8) = of_nat k' \<longleftrightarrow> k = k'"
  using small_order [of k] small_order [of k'] by metis

lemma small_order_FF: "k \<le> 10 \<Longrightarrow> (0xFF :: u8) \<noteq> of_nat k"
proof
  assume "k \<le> 10" "(0xFF :: u8) = of_nat k"
  then have "unat (0xFF :: u8) = k" using small_order by metis
  with \<open>k \<le> 10\<close> show False by simp
qed

lemma buddy_frame [simp]:
  "base_virt (buddy_push k i s) = base_virt s" "total_pages (buddy_push k i s) = total_pages s"
  "buddy_initialized (buddy_push k i s) = buddy_initialized s" "free_pages (buddy_push k i s) = free_pages s"
  "base_virt (buddy_remove k i s) = base_virt s" "total_pages (buddy_remove k i s) = total_pages s"
  "buddy_initialized (buddy_remove k i s) = buddy_initialized s" "free_pages (buddy_remove k i s) = free_pages s"
  by (simp_all add: buddy_push_def buddy_remove_def Let_def)

lemma page_addr_base: "base_virt s' = base_virt s \<Longrightarrow> page_addr i s' = page_addr i s"
  by (simp add: page_addr_def)

lemma buddy_geom_cong: "base_virt s' = base_virt s \<Longrightarrow> total_pages s' = total_pages s \<Longrightarrow> buddy_geom s' = buddy_geom s"
  by (simp add: buddy_geom_def)

text \<open>The addresses of two lists are apart.\<close>

lemma lists_apart:
  assumes "buddy_geom s" "lists_ok (total_pages s) F" "k \<le> 10" "k' \<le> 10" "k \<noteq> k'"
    "i \<in> set (F k)"
  shows "page_addr i s \<notin> (\<lambda>i. page_addr i s) ` set (F k')"
proof
  assume "page_addr i s \<in> (\<lambda>i. page_addr i s) ` set (F k')"
  then obtain j where j: "j \<in> set (F k')" "page_addr i s = page_addr j s" by auto
  have "i < total_pages s" "j < total_pages s" using assms j(1) by (auto simp: lists_ok_def)
  then have "i = j" using page_addr_inj [OF assms(1)] j(2) by blast
  with j(1) assms show False unfolding lists_ok_def by blast
qed

lemma addr_fresh:
  assumes "buddy_geom s" "lists_ok (total_pages s) F" "k \<le> 10" "i < total_pages s" "i \<notin> set (F k)"
  shows "page_addr i s \<notin> (\<lambda>i. page_addr i s) ` set (F k)"
proof
  assume "page_addr i s \<in> (\<lambda>i. page_addr i s) ` set (F k)"
  then obtain j where j: "j \<in> set (F k)" "page_addr i s = page_addr j s" by auto
  have "j < total_pages s" using assms j(1) by (auto simp: lists_ok_def)
  with page_addr_inj [OF assms(1,4) this j(2)] j(1) assms(5) show False by simp
qed

lemma addrs_distinct:
  assumes "buddy_geom s" "lists_ok (total_pages s) F" "k \<le> 10"
  shows "distinct (map (\<lambda>i. page_addr i s) (F k))"
proof -
  have d: "distinct (F k)" "\<forall>i\<in>set (F k). i < total_pages s" using assms by (auto simp: lists_ok_def)
  then have "inj_on (\<lambda>i. page_addr i s) (set (F k))"
    using page_addr_inj [OF assms(1)] by (intro inj_onI) blast
  with d(1) show ?thesis by (simp add: distinct_map)
qed

lemma rep_dll: "buddy_rep F s \<Longrightarrow> k \<le> 10 \<Longrightarrow>
    dll (nodes s) 0 (bl_head (free_lists s k)) (map (\<lambda>i. page_addr i s) (F k))"
  by (simp add: buddy_rep_def)

lemma rep_count: "buddy_rep F s \<Longrightarrow> k \<le> 10 \<Longrightarrow> bl_count (free_lists s k) = of_nat (length (F k))"
  by (simp add: buddy_rep_def)

lemma rep_map: "buddy_rep F s \<Longrightarrow> k \<le> 10 \<Longrightarrow> i < total_pages s \<Longrightarrow>
    order_map s i = of_nat k \<longleftrightarrow> i \<in> set (F k)"
  by (simp add: buddy_rep_def)

lemma rep_head: "buddy_rep F s \<Longrightarrow> k \<le> 10 \<Longrightarrow>
    bl_head (free_lists s k) = (case F k of [] \<Rightarrow> 0 | i # rest \<Rightarrow> page_addr i s)"
  using dll_head [OF rep_dll [of F s k]] by (cases "F k") auto

text \<open>What an operation on list \<open>k\<close> and page \<open>i\<close> has to show.\<close>

lemma buddy_rep_update:
  assumes r: "buddy_rep F s" and b: "base_virt s' = base_virt s" "total_pages s' = total_pages s"
    and fl: "free_lists s' = (free_lists s)(k := \<lparr>bl_head = h, bl_count = of_nat (length xs)\<rparr>)"
    and om: "order_map s' = (order_map s)(i := v)"
    and new: "dll (nodes s') 0 h (map (\<lambda>i. page_addr i s) xs)"
    and other: "\<And>j b. j \<le> 10 \<Longrightarrow> j \<noteq> k \<Longrightarrow> b \<in> set (map (\<lambda>i. page_addr i s) (F j)) \<Longrightarrow> nodes s' b = nodes s b"
    and v: "\<And>j. j \<le> 10 \<Longrightarrow> v = of_nat j \<longleftrightarrow> i \<in> set ((F(k := xs)) j)"
    and xs: "set xs - {i} = set (F k) - {i}"
  shows "buddy_rep (F(k := xs)) s'"
proof -
  have pa: "page_addr j s' = page_addr j s" for j by (rule page_addr_base [OF b(1)])
  show ?thesis
    unfolding buddy_rep_def pa fl om b(2)
  proof (intro conjI allI impI)
    fix j :: nat assume j: "j \<le> 10"
    have "dll (nodes s') 0 (bl_head (free_lists s j)) (map (\<lambda>i. page_addr i s) (F j))" if "j \<noteq> k"
      by (rule dll_frameD [OF rep_dll [OF r j] other [OF j that]])
    then show "dll (nodes s') 0 (bl_head (((free_lists s)(k := \<lparr>bl_head = h, bl_count = of_nat (length xs)\<rparr>)) j))
        (map (\<lambda>i. page_addr i s) ((F(k := xs)) j))"
      using new by simp
    show "bl_count (((free_lists s)(k := \<lparr>bl_head = h, bl_count = of_nat (length xs)\<rparr>)) j)
        = of_nat (length ((F(k := xs)) j))"
      using rep_count [OF r j] by simp
  next
    fix i' and j :: nat assume "i' < total_pages s" and j: "j \<le> 10"
    moreover have "i' \<in> set xs \<longleftrightarrow> i' \<in> set (F k)" if "i' \<noteq> i" using xs that by blast
    ultimately show "((order_map s)(i := v)) i' = of_nat j \<longleftrightarrow> i' \<in> set ((F(k := xs)) j)"
      using rep_map [OF r j, of i'] v [OF j] by (cases "i' = i") auto
  qed
qed

lemma buddy_push_rep:
  assumes g: "buddy_geom s" and l: "lists_ok (total_pages s) F" and r: "buddy_rep F s"
    and i: "i < total_pages s" and k: "k \<le> 10" and fresh: "\<And>j. j \<le> 10 \<Longrightarrow> i \<notin> set (F j)"
  shows "buddy_rep (F(k := i # F k)) (buddy_push k i s)"
proof (rule buddy_rep_update [OF r])
  let ?s = "buddy_push k i s" and ?h = "bl_head (free_lists s k)" and ?a = "page_addr i s"
  let ?A = "\<lambda>j. map (\<lambda>i. page_addr i s) (F j)"
  have a0: "?a \<noteq> 0" using page_addr_nonzero [OF g i] .
  have fr: "?a \<notin> set (?A j)" if "j \<le> 10" for j
    using addr_fresh [OF g l that i fresh [OF that]] by simp
  define n1 where "n1 = (nodes s)(?a := \<lparr>bn_next = ?h, bn_prev = 0\<rparr>)"
  have n: "nodes ?s = (if ?h \<noteq> 0 then n1(?h := (n1 ?h)\<lparr>bn_prev := ?a\<rparr>) else n1)"
    by (simp add: buddy_push_def Let_def n1_def)
  have h: "?h = 0 \<or> ?h \<in> set (?A k)" using rep_head [OF r k] by (cases "F k") auto
  have n1: "n1 b = nodes s b" if "j \<le> 10" "b \<in> set (?A j)" for j b
    using fr [OF that(1)] that(2) unfolding n1_def by (metis fun_upd_other)
  have "dll n1 0 ?h (?A k)" by (rule dll_frameD [OF rep_dll [OF r k] n1 [OF k]])
  then have "dll (nodes ?s) ?a ?h (?A k)"
    unfolding n by (rule dll_reprev) (rule addrs_distinct [OF g l k])
  moreover have "nodes ?s ?a = \<lparr>bn_next = ?h, bn_prev = 0\<rparr>"
    using h fr [OF k] a0 unfolding n by (auto simp: n1_def)
  ultimately show "dll (nodes ?s) 0 ?a (map (\<lambda>i. page_addr i s) (i # F k))" using a0 by simp
  show "nodes ?s b = nodes s b" if b: "j \<le> 10" "j \<noteq> k" "b \<in> set (?A j)" for j b
  proof -
    obtain i' where i': "i' \<in> set (F j)" "b = page_addr i' s" using b by auto
    have "b \<notin> set (?A k)" using lists_apart [OF g l b(1) k b(2) i'(1)] i'(2) by simp
    then have "?h \<noteq> 0 \<Longrightarrow> b \<noteq> ?h" using h by blast
    then show ?thesis unfolding n using n1 [OF b(1,3)] by simp
  qed
  show "free_lists ?s = (free_lists s)(k := \<lparr>bl_head = ?a, bl_count = of_nat (length (i # F k))\<rparr>)"
    using rep_count [OF r k] by (simp add: buddy_push_def Let_def add.commute)
  show "order_map ?s = (order_map s)(i := of_nat k)" by (simp add: buddy_push_def Let_def)
  show "of_nat k = (of_nat j :: u8) \<longleftrightarrow> i \<in> set ((F(k := i # F k)) j)" if "j \<le> 10" for j
    using small_order_neq [OF k that] fresh [OF that] by simp
qed auto

text \<open>\<open>_remove\<close> takes a page off its list; \<open>_pop\<close> is \<open>_remove\<close> of the first one.\<close>

lemma unlink_other: "bn_prev (n a) \<noteq> b \<or> b = 0 \<Longrightarrow> bn_next (n a) \<noteq> b \<or> b = 0 \<Longrightarrow> unlink_node a n b = n b"
  by (auto simp: unlink_node_def Let_def)

lemma buddy_remove_rep:
  assumes g: "buddy_geom s" and l: "lists_ok (total_pages s) F" and r: "buddy_rep F s"
    and i: "i \<in> set (F k)" and k: "k \<le> 10"
  shows "buddy_rep (F(k := remove1 i (F k))) (buddy_remove k i s)"
proof (rule buddy_rep_update [OF r])
  let ?s = "buddy_remove k i s" and ?h = "bl_head (free_lists s k)" and ?a = "page_addr i s"
  let ?A = "\<lambda>j. map (\<lambda>i. page_addr i s) (F j)"
  let ?h' = "if bn_prev (nodes s ?a) \<noteq> 0 then ?h else bn_next (nodes s ?a)"
  note dl = rep_dll [OF r k] and di = addrs_distinct [OF g l k]
  have a: "?a \<in> set (?A k)" using i by simp
  have z: "0 \<notin> set (?A k)" by (rule dll_nonzero [OF dl])
  obtain x xs where x: "?A k = x # xs" using a by (cases "?A k") auto
  have "bn_prev (nodes s ?a) = 0 \<longleftrightarrow> ?a = x"
    using dll_prev_head [of "nodes s" 0 ?h x xs ?a] dl di z a unfolding x by blast
  moreover have "?h = x" using dll_head [OF dl] x by simp
  ultimately have h': "?h' = (if ?a = ?h then bn_next (nodes s ?a) else ?h)" by simp
  have rm: "remove1 ?a (?A k) = map (\<lambda>i. page_addr i s) (remove1 i (F k))"
    using l k i page_addr_inj [OF g]
    by (intro map_remove1_inj [symmetric] inj_onI) (auto simp: lists_ok_def)
  have n: "nodes ?s = unlink_node ?a (nodes s)" by (simp add: buddy_remove_def Let_def)
  show "dll (nodes ?s) 0 ?h' (map (\<lambda>i. page_addr i s) (remove1 i (F k)))"
    unfolding h' n rm [symmetric] by (rule dll_remove [OF dl di z a])
  show "nodes ?s b = nodes s b" if b: "j \<le> 10" "j \<noteq> k" "b \<in> set (?A j)" for j b
  proof -
    obtain i' where i': "i' \<in> set (F j)" "b = page_addr i' s" using b by auto
    have "b \<notin> set (?A k)" using lists_apart [OF g l b(1) k b(2) i'(1)] i'(2) by simp
    then show ?thesis
      unfolding n using dll_next [OF dl a] dll_prev [OF dl a] by (intro unlink_other) auto
  qed
  show "free_lists ?s = (free_lists s)(k := \<lparr>bl_head = ?h', bl_count = of_nat (length (remove1 i (F k)))\<rparr>)"
    using rep_count [OF r k] length_pos_if_in_set [OF i]
    by (simp add: buddy_remove_def Let_def length_remove1 i of_nat_diff Suc_leI)
  show "order_map ?s = (order_map s)(i := 0xFF)" by (simp add: buddy_remove_def Let_def)
  show "0xFF = (of_nat j :: u8) \<longleftrightarrow> i \<in> set ((F(k := remove1 i (F k))) j)" if "j \<le> 10" for j
    using small_order_FF [OF that] l i k that by (auto simp: lists_ok_def)
qed (use l k in \<open>auto simp: lists_ok_def\<close>)

lemma buddy_pop_remove:
  assumes g: "buddy_geom s" and l: "lists_ok (total_pages s) F" and r: "buddy_rep F s"
    and k: "k \<le> 10" and F: "F k = i # rest"
  shows "buddy_pop k s = (i, buddy_remove k i s)"
proof -
  have i: "i < total_pages s" using l k F by (auto simp: lists_ok_def)
  have h: "bl_head (free_lists s k) = page_addr i s" using rep_head [OF r k] F by simp
  have p: "bn_prev (nodes s (page_addr i s)) = 0" using rep_dll [OF r k] F by simp
  show ?thesis
    using page_addr_nonzero [OF g i] page_idx_addr [OF g i] p
    by (simp add: buddy_pop_def buddy_remove_def Let_def h unlink_node_def)
qed

section \<open>Blocks of pages\<close>

definition blk :: "u64 \<Rightarrow> nat \<Rightarrow> nat set" where
  "blk i k = {unat i..<unat i + 2 ^ k}"

text \<open>A block of order \<open>k\<close> at page \<open>i\<close> is aligned to its size and lies in the region.\<close>

definition block_ok :: "u64 \<Rightarrow> u64 \<Rightarrow> nat \<Rightarrow> bool" where
  "block_ok T i k \<longleftrightarrow> k \<le> 10 \<and> 2 ^ k dvd unat i \<and> unat i + 2 ^ k \<le> unat T"

definition blocks_ok :: "u64 \<Rightarrow> (nat \<Rightarrow> u64 list) \<Rightarrow> bool" where
  "blocks_ok T F \<longleftrightarrow> (\<forall>k\<le>10. distinct (F k) \<and> (\<forall>i\<in>set (F k). block_ok T i k))
     \<and> (\<forall>k\<le>10. \<forall>k'\<le>10. \<forall>i\<in>set (F k). \<forall>j\<in>set (F k'). (i, k) \<noteq> (j, k') \<longrightarrow> blk i k \<inter> blk j k' = {})"

definition bpairs :: "(nat \<Rightarrow> u64 list) \<Rightarrow> (nat \<times> u64) set" where
  "bpairs F = {(k, i). k \<le> 10 \<and> i \<in> set (F k)}"

definition free_set :: "(nat \<Rightarrow> u64 list) \<Rightarrow> nat set" where
  "free_set F = (\<Union>(k, i)\<in>bpairs F. blk i k)"

text \<open>The pages on the free lists of a state, and the invariant.\<close>

definition buddy_pages :: "'a buddy_allocator_scheme \<Rightarrow> nat set" where
  "buddy_pages s =
     (\<Union>(k, i)\<in>{(k, i). k \<le> 10 \<and> i < total_pages s \<and> order_map s i = of_nat k}. blk i k)"

definition buddy_lists :: "(nat \<Rightarrow> u64 list) \<Rightarrow> 'a buddy_allocator_scheme \<Rightarrow> bool" where
  "buddy_lists F s \<longleftrightarrow> buddy_geom s \<and> blocks_ok (total_pages s) F \<and> buddy_rep F s"

definition buddy_inv :: "'a buddy_allocator_scheme \<Rightarrow> bool" where
  "buddy_inv s \<longleftrightarrow> buddy_initialized s \<and> (\<exists>F. buddy_lists F s)"

lemma blk_self: "unat i \<in> blk i k"
  by (simp add: blk_def)

lemma block_lt: "block_ok T i k \<Longrightarrow> i < T"
  by (auto simp: block_ok_def word_less_nat_alt elim: less_le_trans [rotated])

lemma blocks_lists_ok:
  assumes "blocks_ok T F"
  shows "lists_ok T F"
proof -
  have "k = k'" if "k \<le> 10" "k' \<le> 10" "i \<in> set (F k)" "i \<in> set (F k')" for k k' i
    using assms that blk_self [of i k] blk_self [of i k'] unfolding blocks_ok_def by blast
  moreover have "i < T" if "k \<le> 10" "i \<in> set (F k)" for k i
    using assms that block_lt unfolding blocks_ok_def by blast
  ultimately show ?thesis using assms unfolding lists_ok_def blocks_ok_def by blast
qed

lemma buddy_pages_lists:
  assumes "buddy_lists F s"
  shows "buddy_pages s = free_set F"
proof -
  have l: "lists_ok (total_pages s) F" using assms blocks_lists_ok by (auto simp: buddy_lists_def)
  have "{(k, i). k \<le> 10 \<and> i < total_pages s \<and> order_map s i = of_nat k} = bpairs F"
    using assms l by (auto simp: buddy_lists_def buddy_rep_def lists_ok_def bpairs_def)
  then show ?thesis unfolding buddy_pages_def free_set_def by simp
qed

lemma in_free_set: "i \<in> set (F k) \<Longrightarrow> k \<le> 10 \<Longrightarrow> blk i k \<subseteq> free_set F"
  unfolding free_set_def bpairs_def by blast

lemma free_set_push:
  assumes "k \<le> 10"
  shows "free_set (F(k := i # F k)) = blk i k \<union> free_set F"
proof -
  have "bpairs (F(k := i # F k)) = insert (k, i) (bpairs F)" using assms by (auto simp: bpairs_def split: if_splits)
  then show ?thesis unfolding free_set_def by simp
qed

lemma blocks_push:
  assumes "blocks_ok T F" "block_ok T i k" "blk i k \<inter> free_set F = {}"
  shows "blocks_ok T (F(k := i # F k))"
proof -
  have k: "k \<le> 10" using assms(2) by (simp add: block_ok_def)
  have d: "blk i k \<inter> blk j k' = {}" if "j \<in> set (F k')" "k' \<le> 10" for j k'
    using assms(3) in_free_set [of j F k'] that by blast
  have "i \<notin> set (F k)" using d [OF _ k, of i] blk_self [of i k] by blast
  then show ?thesis
    using assms(1,2) d d [unfolded Int_commute [of "blk i k"]] unfolding blocks_ok_def
    by (auto split: if_splits simp: fun_upd_def)
qed

lemma blocks_remove:
  assumes "blocks_ok T F" "i \<in> set (F k)" "k \<le> 10"
  shows "blocks_ok T (F(k := remove1 i (F k)))" "free_set (F(k := remove1 i (F k))) = free_set F - blk i k"
proof -
  have di: "distinct (F k)" using assms by (simp add: blocks_ok_def)
  show "blocks_ok T (F(k := remove1 i (F k)))"
    using assms(1) di unfolding blocks_ok_def by (auto split: if_splits)
  have d: "blk j k' \<inter> blk i k = {}" if "j \<in> set (F k')" "k' \<le> 10" "(j, k') \<noteq> (i, k)" for j k'
    using assms that unfolding blocks_ok_def by blast
  have *: "bpairs (F(k := remove1 i (F k))) = bpairs F - {(k, i)}" using di assms(3) by (auto simp: bpairs_def split: if_splits)
  from d show "free_set (F(k := remove1 i (F k))) = free_set F - blk i k"
    unfolding free_set_def * by (auto simp: bpairs_def)
qed

lemma buddy_lists_push:
  assumes "buddy_lists F s" "block_ok (total_pages s) i k" "blk i k \<inter> free_set F = {}"
  shows "buddy_lists (F(k := i # F k)) (buddy_push k i s)"
proof -
  have k: "k \<le> 10" using assms(2) by (simp add: block_ok_def)
  have "i \<notin> set (F j)" if "j \<le> 10" for j
    using in_free_set [of i F j] that assms(3) blk_self [of i] by blast
  then have "buddy_rep (F(k := i # F k)) (buddy_push k i s)"
    using assms k block_lt [OF assms(2)] blocks_lists_ok
    by (intro buddy_push_rep) (auto simp: buddy_lists_def)
  then show ?thesis
    using assms blocks_push [of "total_pages s" F i k] buddy_geom_cong [of "buddy_push k i s" s]
    by (simp add: buddy_lists_def)
qed

lemma buddy_lists_remove:
  assumes "buddy_lists F s" "i \<in> set (F k)" "k \<le> 10"
  shows "buddy_lists (F(k := remove1 i (F k))) (buddy_remove k i s)"
  using assms buddy_remove_rep [of s F i k] blocks_lists_ok [of "total_pages s" F]
    blocks_remove(1) [of "total_pages s" F i k] buddy_geom_cong [of "buddy_remove k i s" s]
  by (simp add: buddy_lists_def)

section \<open>Splitting and merging\<close>

lemma unat_push_bit_1: "k \<le> 10 \<Longrightarrow> unat (push_bit k 1 :: u64) = 2 ^ k"
proof -
  assume "k \<le> 10"
  then have "(2::nat) ^ k < 2 ^ 64" by (intro power_strict_increasing) auto
  moreover have "(push_bit k 1 :: u64) = of_nat (2 ^ k)" by simp
  ultimately show ?thesis using unat_of_nat_u64 by metis
qed

lemma unat_upper_half:
  assumes "block_ok T i (Suc k)"
  shows "unat (i + push_bit k 1) = unat i + 2 ^ k"
proof -
  have "unat i + 2 * 2 ^ k < 2 ^ 64" if "unat i + 2 * 2 ^ k \<le> unat T" 
    using that unat_u64_less [of T] by simp
  then have "unat i + unat (push_bit k 1 :: u64) < 2 ^ 64"
    using assms unat_push_bit_1 [of k] by (simp add: block_ok_def)
  then show ?thesis using assms unat_push_bit_1 [of k] by (simp add: unat_word_ariths block_ok_def)
qed

lemma block_halves:
  assumes "block_ok T i (Suc k)"
  shows "block_ok T i k" "block_ok T (i + push_bit k 1) k"
    "blk i (Suc k) = blk i k \<union> blk (i + push_bit k 1) k" "blk i k \<inter> blk (i + push_bit k 1) k = {}"
proof -
  have d: "2 * 2 ^ k dvd unat i" "unat i + 2 * 2 ^ k \<le> unat T" "k \<le> 10" using assms by (auto simp: block_ok_def)
  then have "2 ^ k dvd unat i" using dvd_mult_right by blast
  with d show "block_ok T i k" "block_ok T (i + push_bit k 1) k"
    unfolding block_ok_def unat_upper_half [OF assms] by auto
  show "blk i (Suc k) = blk i k \<union> blk (i + push_bit k 1) k" "blk i k \<inter> blk (i + push_bit k 1) k = {}"
    unfolding blk_def unat_upper_half [OF assms] by auto
qed

lemma blk_mono: "k \<le> k' \<Longrightarrow> blk i k \<subseteq> blk i k'"
  unfolding blk_def using power_increasing [of k k' "2::nat"] by auto

lemma split_down_lists:
  assumes "buddy_lists F s" "block_ok (total_pages s) i avail" "blk i avail \<inter> free_set F = {}" "k \<le> avail"
  shows "\<exists>F'. buddy_lists F' (split_down avail k i s) \<and> free_set F' = free_set F \<union> (blk i avail - blk i k)"
  using assms
proof (induction avail arbitrary: F s)
  case 0
  then show ?case by auto
next
  case (Suc a)
  show ?case
  proof (cases "k = Suc a")
    case True
    with Suc.prems show ?thesis by auto
  next
    case False
    with Suc.prems have k: "k \<le> a" by simp
    note h = block_halves [OF Suc.prems(2)]
    let ?b = "i + push_bit a 1" let ?F = "F(a := ?b # F a)" and ?s = "buddy_push a ?b s"
    have a: "a \<le> 10" using h(1) by (simp add: block_ok_def)
    have "buddy_lists ?F ?s" using Suc.prems(1,3) h by (intro buddy_lists_push) auto
    moreover have fs: "free_set ?F = blk ?b a \<union> free_set F" by (rule free_set_push [OF a])
    moreover have "block_ok (total_pages ?s) i a" using h(1) by simp
    moreover have "blk i a \<inter> free_set ?F = {}" using h(3,4) Suc.prems(3) unfolding fs by blast
    ultimately obtain F' where F': "buddy_lists F' (split_down a k i ?s)"
      "free_set F' = free_set ?F \<union> (blk i a - blk i k)"
      using Suc.IH [of ?F ?s] k by blast
    moreover have "free_set ?F \<union> (blk i a - blk i k) = free_set F \<union> (blk i (Suc a) - blk i k)"
      using h(3,4) blk_mono [OF k, of i] unfolding fs by blast
    ultimately show ?thesis using k by auto
  qed
qed

lemma split_down_frame [simp]:
  "base_virt (split_down a k i s) = base_virt s" "total_pages (split_down a k i s) = total_pages s"
  "buddy_initialized (split_down a k i s) = buddy_initialized s" "free_pages (split_down a k i s) = free_pages s"
  by (induction a arbitrary: s) auto

text \<open>The buddy of an aligned block is the other half of the block of the next order.\<close>

lemma unat_buddy:
  assumes "2 ^ k dvd unat i" "k \<le> 10"
  shows "unat (buddy_idx i k) = (if even (unat i div 2 ^ k) then unat i + 2 ^ k else unat i - 2 ^ k)"
proof -
  define q where "q = unat i div 2 ^ k"
  have q: "unat i = push_bit k q" using assms(1) by (simp add: q_def push_bit_eq_mult)
  have "unat (buddy_idx i k) = push_bit k q XOR push_bit k 1"
    unfolding buddy_idx_def unsigned_xor_eq q using unat_push_bit_1 [OF assms(2)] by (simp add: push_bit_eq_mult)
  also have "\<dots> = push_bit k (q XOR 1)" by simp
  also have "\<dots> = (q + of_bool (even q) - of_bool (odd q)) * 2 ^ k"
    by (simp add: push_bit_eq_mult xor_Suc_0_eq)
  also have "\<dots> = (if even q then push_bit k q + 2 ^ k else push_bit k q - 2 ^ k)"
    by (simp add: push_bit_eq_mult diff_mult_distrib add_mult_distrib)
  finally show ?thesis unfolding q_def [symmetric] q [symmetric] by simp
qed

lemma merge_up:
  assumes "2 ^ Suc k dvd unat l" "unat h = unat l + 2 ^ k" "block_ok T h k" "k < 10"
  shows "block_ok T l (Suc k)" "blk l (Suc k) = blk l k \<union> blk h k" "l < h"
proof -
  have "unat l + 2 ^ Suc k \<le> unat T" using assms(2,3) by (simp add: block_ok_def)
  then show "block_ok T l (Suc k)" using assms(1,4) unfolding block_ok_def by simp
  show "blk l (Suc k) = blk l k \<union> blk h k" unfolding blk_def assms(2) by auto
  show "l < h" unfolding word_less_nat_alt assms(2) by simp
qed

lemma buddy_merge:
  assumes i: "block_ok T i k" and b: "block_ok T (buddy_idx i k) k" and k: "k < 10"
  defines "m \<equiv> if buddy_idx i k < i then buddy_idx i k else i"
  shows "block_ok T m (Suc k) \<and> blk m (Suc k) = blk i k \<union> blk (buddy_idx i k) k"
proof -
  have d: "2 ^ k dvd unat i" using i by (simp add: block_ok_def)
  then obtain q where q: "unat i = 2 ^ k * q" by (rule dvdE)
  have u: "unat (buddy_idx i k) = (if even q then unat i + 2 ^ k else unat i - 2 ^ k)"
    using unat_buddy [OF d] k q by simp
  show ?thesis
  proof (cases "even q")
    case True
    then obtain r where "q = 2 * r" by (rule evenE)
    then have "2 ^ Suc k dvd unat i" unfolding q by simp
    from merge_up [OF this _ b k] True u have
      *: "block_ok T i (Suc k)" "blk i (Suc k) = blk i k \<union> blk (buddy_idx i k) k" "i < buddy_idx i k" by auto
    then have "m = i" unfolding m_def using less_asym by auto
    with * show ?thesis by simp
  next
    case False
    then obtain r where r: "q = 2 * r + 1" by (rule oddE)
    have ub: "unat (buddy_idx i k) = 2 ^ Suc k * r" using u False unfolding q r by simp
    moreover have "unat i = 2 ^ Suc k * r + 2 ^ k" unfolding q r by simp
    ultimately have "2 ^ Suc k dvd unat (buddy_idx i k)" "unat i = unat (buddy_idx i k) + 2 ^ k" by simp_all
    from merge_up [OF this i k] have
      *: "block_ok T (buddy_idx i k) (Suc k)" "blk (buddy_idx i k) (Suc k) = blk (buddy_idx i k) k \<union> blk i k"
        "buddy_idx i k < i" by blast+
    then have "m = buddy_idx i k" unfolding m_def by simp
    with * show ?thesis by (simp add: Un_commute)
  qed
qed

lemma coalesce_lists:
  assumes "buddy_lists F s" "block_ok (total_pages s) i k" "blk i k \<inter> free_set F = {}"
    "coalesce k i s = (k', i', s')"
  shows "\<exists>F'. buddy_lists F' s' \<and> block_ok (total_pages s) i' k' \<and> k \<le> k'
    \<and> blk i' k' \<inter> free_set F' = {} \<and> free_set F' \<union> blk i' k' = free_set F \<union> blk i k
    \<and> base_virt s' = base_virt s \<and> total_pages s' = total_pages s
    \<and> buddy_initialized s' = buddy_initialized s \<and> free_pages s' = free_pages s"
  using assms
proof (induction k i s arbitrary: F rule: coalesce.induct)
  case (1 k i s)
  let ?b = "buddy_idx i k"
  show ?case
  proof (cases "k < 10 \<and> buddy_is_free ?b k s")
    case False
    then have "coalesce k i s = (k, i, s)" by (auto simp: coalesce.simps [of k i s] Let_def)
    with "1.prems" show ?thesis by auto
  next
    case True
    let ?m = "if ?b < i then ?b else i" and ?s = "buddy_remove k ?b s" and ?F = "F(k := remove1 ?b (F k))"
    have k: "k < 10" "k \<le> 10" using True by auto
    have b: "?b \<in> set (F k)"
      using True rep_map [of F s k ?b] "1.prems"(1) k by (simp add: buddy_lists_def buddy_is_free_def)
    have bo: "block_ok (total_pages s) ?b k"
      using "1.prems"(1) b k(2) unfolding buddy_lists_def blocks_ok_def by blast
    note mg = buddy_merge [OF "1.prems"(2) bo k(1)]
    have L: "buddy_lists ?F ?s" by (rule buddy_lists_remove [OF "1.prems"(1) b k(2)])
    have fs: "free_set ?F = free_set F - blk ?b k"
      using blocks_remove(2) [of "total_pages s" F ?b k] b k(2) "1.prems"(1) unfolding buddy_lists_def by blast
    have bf: "blk ?b k \<subseteq> free_set F" using in_free_set [of ?b F k] b k(2) by blast
    have c: "coalesce (k + 1) ?m ?s = (k', i', s')"
      using "1.prems"(4) True unfolding coalesce.simps [of k i s] by (simp add: Let_def)
    have mo: "block_ok (total_pages ?s) ?m (k + 1)" using mg by simp
    have me: "blk ?m (k + 1) = blk i k \<union> blk ?b k" using mg by simp
    have md: "blk ?m (k + 1) \<inter> free_set ?F = {}" unfolding me fs using "1.prems"(3) by blast
    have un: "free_set ?F \<union> blk ?m (k + 1) = free_set F \<union> blk i k" unfolding me fs using bf by blast
    from True have nf: "\<not> \<not> buddy_is_free ?b k s" by simp
    from "1.IH" [OF k(1) refl nf L mo md c] show ?thesis unfolding un by auto
  qed
qed

section \<open>Allocation and release\<close>

lemma list_count:
  assumes "buddy_lists F s" "k \<le> 10"
  shows "bl_count (free_lists s k) = 0 \<longleftrightarrow> F k = []"
proof -
  have l: "distinct (F k)" "\<forall>i\<in>set (F k). unat i < 65536"
    using assms blocks_lists_ok [of "total_pages s" F]
    by (auto simp: buddy_lists_def lists_ok_def buddy_geom_def word_less_nat_alt intro: less_le_trans)
  have "length (F k) = card (unat ` set (F k))"
    using distinct_card [OF l(1)] card_image [of unat "set (F k)"] by (simp add: inj_on_def word_unat_eq_iff)
  also have "\<dots> \<le> card {..<65536::nat}" using l(2) by (intro card_mono) auto
  finally have "length (F k) < 2 ^ 32" by simp
  then have "unat (of_nat (length (F k)) :: u32) = length (F k)" by (rule unat_of_nat_u32)
  then have "(of_nat (length (F k)) :: u32) = 0 \<longleftrightarrow> length (F k) = 0" by (metis unat_eq_zero unat_0)
  then show ?thesis using rep_count [of F s k] assms by (simp add: buddy_lists_def)
qed

text \<open>An allocation of order \<open>k\<close> from the lists \<open>F\<close>.\<close>

lemma buddy_alloc_lists:
  assumes L: "buddy_lists F s" and ini: "buddy_initialized s" and k: "k \<le> 10"
    and some: "\<exists>j. k \<le> j \<and> j \<le> 10 \<and> F j \<noteq> []"
  shows "\<exists>F' i s'. buddy_alloc (int k) s = (page_addr i s, s') \<and> buddy_lists F' s'
    \<and> block_ok (total_pages s) i k \<and> blk i k \<subseteq> free_set F \<and> free_set F' = free_set F - blk i k
    \<and> base_virt s' = base_virt s \<and> total_pages s' = total_pages s \<and> buddy_initialized s'
    \<and> free_pages s' = free_pages s - push_bit k 1"
proof -
  let ?P = "\<lambda>a. bl_count (free_lists s a) \<noteq> 0"
  have "for_find ?P k 11 \<noteq> None"
    using some list_count [OF L] unfolding for_find_None_iff by (auto dest: le_imp_less_Suc)
  then obtain a where a: "for_find ?P k 11 = Some a" by auto
  from for_find_SomeD [OF this] have ka: "k \<le> a" "a \<le> 10" "?P a" by auto
  then obtain i rest where F: "F a = i # rest" using list_count [OF L ka(2)] by (cases "F a") auto
  have geom: "buddy_geom s" and bo: "blocks_ok (total_pages s) F" and rep: "buddy_rep F s"
    using L by (auto simp: buddy_lists_def)
  have pop: "buddy_pop a s = (i, buddy_remove a i s)"
    by (rule buddy_pop_remove [OF geom blocks_lists_ok [OF bo] rep ka(2) F])
  let ?s = "buddy_remove a i s" and ?F = "F(a := remove1 i (F a))"
  have ia: "i \<in> set (F a)" using F by simp
  have L1: "buddy_lists ?F ?s" by (rule buddy_lists_remove [OF L ia ka(2)])
  have fs: "free_set ?F = free_set F - blk i a" using blocks_remove(2) [of _ F i a] bo ia ka(2) by blast
  have ok: "block_ok (total_pages s) i a" using bo ia ka(2) unfolding blocks_ok_def by blast
  have "(2::nat) ^ k \<le> 2 ^ a" "(2::nat) ^ k dvd 2 ^ a" using ka(1) by (simp_all add: le_imp_power_dvd)
  then have ok': "block_ok (total_pages s) i k"
    using ok k unfolding block_ok_def by (meson add_left_mono dvd_trans order_trans)
  obtain F' where F': "buddy_lists F' (split_down a k i ?s)" "free_set F' = free_set ?F \<union> (blk i a - blk i k)"
    using split_down_lists [OF L1, of i a k] ok ka(1) fs by auto
  let ?t = "split_down a k i ?s" let ?t' = "?t\<lparr>free_pages := free_pages ?t - push_bit k 1\<rparr>"
  have "buddy_lists F' ?t'" using F'(1) by (simp add: buddy_lists_def buddy_geom_def buddy_rep_def page_addr_def)
  moreover have "buddy_alloc (int k) s = (page_addr i s, ?t')"
    using ini k a pop by (simp add: buddy_alloc_def Let_def page_addr_base [of ?t s])
  moreover have "blk i a \<subseteq> free_set F" using in_free_set [of i F a] ia ka(2) by blast
  moreover have "blk i k \<subseteq> blk i a" by (rule blk_mono [OF ka(1)])
  moreover have "free_set F' = free_set F - blk i k"
    using F'(2) fs \<open>blk i a \<subseteq> free_set F\<close> \<open>blk i k \<subseteq> blk i a\<close> by blast
  ultimately show ?thesis using ok' ini by (intro exI [of _ F'] exI [of _ i] exI [of _ ?t']) auto
qed

lemma buddy_alloc_empty:
  assumes "buddy_lists F s" "k \<le> 10" "\<not> (\<exists>j. k \<le> j \<and> j \<le> 10 \<and> F j \<noteq> [])"
  shows "buddy_alloc (int k) s = (0, s)"
proof -
  have "for_find (\<lambda>a. bl_count (free_lists s a) \<noteq> 0) k 11 = None"
    using assms(3) list_count [OF assms(1)] unfolding for_find_None_iff by auto
  then show ?thesis by (simp add: buddy_alloc_def)
qed

lemma buddy_free_lists:
  assumes L: "buddy_lists F s" and ini: "buddy_initialized s"
    and ok: "block_ok (total_pages s) i k" and d: "blk i k \<inter> free_set F = {}"
  shows "\<exists>F' s' k'. buddy_free (page_addr i s) (int k) s = s' \<and> buddy_lists F' s'
    \<and> free_set F' = free_set F \<union> blk i k \<and> k \<le> k' \<and> fst (coalesce k i s) = k'
    \<and> base_virt s' = base_virt s \<and> total_pages s' = total_pages s \<and> buddy_initialized s'
    \<and> free_pages s' = free_pages s + push_bit k' 1"
proof -
  have k: "k \<le> 10" and i: "i < total_pages s" using ok block_lt by (auto simp: block_ok_def)
  have g: "buddy_geom s" using L by (simp add: buddy_lists_def)
  obtain k' i' t where c: "coalesce k i s = (k', i', t)" by (cases "coalesce k i s")
  from coalesce_lists [OF L ok d c] ini obtain F1 where F1: "buddy_lists F1 t" "block_ok (total_pages s) i' k'"
    "k \<le> k'" "blk i' k' \<inter> free_set F1 = {}" "free_set F1 \<union> blk i' k' = free_set F \<union> blk i k"
    "base_virt t = base_virt s" "total_pages t = total_pages s" "buddy_initialized t" "free_pages t = free_pages s"
    by auto
  let ?F = "F1(k' := i' # F1 k')" and ?t = "buddy_push k' i' t"
  let ?t' = "?t\<lparr>free_pages := free_pages ?t + push_bit k' 1\<rparr>"
  have "buddy_lists ?F ?t" using F1 by (intro buddy_lists_push) auto
  then have "buddy_lists ?F ?t'" by (simp add: buddy_lists_def buddy_geom_def buddy_rep_def page_addr_def)
  moreover have "free_set ?F = free_set F \<union> blk i k"
    using free_set_push [of k' F1 i'] F1(2,5) by (auto simp: block_ok_def)
  moreover have "buddy_free (page_addr i s) (int k) s = ?t'"
    using ini k i page_idx_addr [OF g i] c by (simp add: buddy_free_def Let_def)
  ultimately show ?thesis using F1 c by (intro exI [of _ ?F] exI [of _ ?t'] exI [of _ k']) auto
qed

section \<open>Initialisation\<close>

lemma buddy_lists_counter: "buddy_lists F (s\<lparr>free_pages := n\<rparr>) = buddy_lists F s"
  by (simp add: buddy_lists_def buddy_geom_def buddy_rep_def page_addr_def)

text \<open>Seeding: the free pages lie between the first seeded page and \<open>p\<close>, and the counter is right.\<close>

definition seeded :: "nat \<Rightarrow> nat \<Rightarrow> (nat \<Rightarrow> u64 list) \<Rightarrow> 'a buddy_allocator_scheme \<Rightarrow> bool" where
  "seeded lo p F s \<longleftrightarrow> buddy_lists F s \<and> lo \<le> p \<and> free_set F \<subseteq> {lo..<p}
     \<and> free_pages s = of_nat (card (free_set F))"

lemma seed_step:
  assumes sd: "seeded lo p F s" and k: "k \<le> 10" and a: "2 ^ k dvd a" "p \<le> a" "a + 2 ^ k \<le> unat (total_pages s)"
  defines "t \<equiv> buddy_push k (of_nat a) s"
  shows "seeded lo (a + 2 ^ k) (F(k := of_nat a # F k)) (t\<lparr>free_pages := free_pages t + 2 ^ k\<rparr>)"
proof -
  have "a < 2 ^ 64" using a(3) unat_u64_less [of "total_pages s"] by linarith
  then have u: "unat (of_nat a :: u64) = a" by (rule unat_of_nat_u64)
  have fin: "finite (free_set F)" using sd unfolding seeded_def by (meson finite_atLeastLessThan finite_subset)
  have dj: "blk (of_nat a) k \<inter> free_set F = {}" using sd a(2) unfolding seeded_def blk_def u by fastforce
  have "buddy_lists (F(k := of_nat a # F k)) t"
    unfolding t_def using sd a k u dj by (intro buddy_lists_push) (simp_all add: seeded_def block_ok_def)
  moreover have "card (blk (of_nat a) k \<union> free_set F) = 2 ^ k + card (free_set F)"
    using dj fin by (subst card_Un_disjoint) (simp_all add: blk_def u)
  moreover have "blk (of_nat a) k \<union> free_set F \<subseteq> {lo..<a + 2 ^ k}" "lo \<le> a + 2 ^ k"
    using sd a(2) unfolding seeded_def blk_def u by fastforce+
  ultimately show ?thesis
    using sd unfolding seeded_def buddy_lists_counter free_set_push [OF k]
    by (simp add: t_def add.commute)
qed

lemma seed_blocks_seeded:
  assumes "seeded lo p F s" "k \<le> 10" "2 ^ k dvd a" "p \<le> a" "limit = unat (total_pages s)"
    "seed_blocks k limit a p s = (p', s')"
  shows "\<exists>F'. seeded lo p' F' s' \<and> total_pages s' = total_pages s \<and> base_virt s' = base_virt s"
  using assms
proof (induction k limit a p s arbitrary: F rule: seed_blocks.induct)
  case (1 k limit a p s)
  show ?case
  proof (cases "a + 2 ^ k \<le> limit")
    case False
    with "1.prems"(1,6) show ?thesis by (auto simp: seed_blocks.simps [of k limit a p s])
  next
    case True
    let ?t = "buddy_push k (of_nat a) s" let ?t' = "?t\<lparr>free_pages := free_pages ?t + 2 ^ k\<rparr>"
    have st: "seeded lo (a + 2 ^ k) (F(k := of_nat a # F k)) ?t'"
      using seed_step [OF "1.prems"(1-4)] True "1.prems"(5) by simp
    have e: "seed_blocks k limit (a + 2 ^ k) (a + 2 ^ k) ?t' = (p', s')"
      using "1.prems"(6) True by (simp add: seed_blocks.simps [of k limit a p s] Let_def)
    have lim: "limit = unat (total_pages ?t')" using "1.prems"(5) by simp
    have dv: "2 ^ k dvd a + 2 ^ k" using "1.prems"(3) by simp
    from "1.IH" [OF True refl refl st "1.prems"(2) dv order_refl lim e]
    show ?thesis by simp
  qed
qed

lemma align_up_nat: "(p :: nat) \<le> (p + 2 ^ k - 1) div 2 ^ k * 2 ^ k"
proof -
  have "(p + 2 ^ k - 1) mod 2 ^ k < 2 ^ k" by simp
  then show ?thesis
    using div_mult_mod_eq [of "p + 2 ^ k - 1" "2 ^ k"] by linarith
qed

lemma seed_orders_seeded:
  assumes "seeded lo p F s" "k \<le> 11" "limit = unat (total_pages s)"
  shows "\<exists>p' F'. seeded lo p' F' (seed_orders k limit p s)
    \<and> total_pages (seed_orders k limit p s) = total_pages s \<and> base_virt (seed_orders k limit p s) = base_virt s"
  using assms
proof (induction k arbitrary: p F s)
  case 0
  then show ?case by auto
next
  case (Suc k)
  show ?case
  proof (cases "p < limit")
    case False
    with Suc.prems show ?thesis by auto
  next
    case True
    let ?a = "(p + 2 ^ k - 1) div 2 ^ k * 2 ^ k"
    obtain p1 s1 where sb: "seed_blocks k limit ?a p s = (p1, s1)" by (cases "seed_blocks k limit ?a p s")
    from Suc.prems(2) have k: "k \<le> 10" by simp
    obtain F1 where F1: "seeded lo p1 F1 s1" "total_pages s1 = total_pages s" "base_virt s1 = base_virt s"
      using seed_blocks_seeded [OF Suc.prems(1) k _ align_up_nat Suc.prems(3) sb] by auto
    have e: "seed_orders (Suc k) limit p s = seed_orders k limit p1 s1" using True sb by (simp add: Let_def)
    show ?thesis unfolding e using Suc.IH [OF F1(1)] F1(2,3) Suc.prems(2,3) by simp
  qed
qed

definition buddy_region_ok :: "u64 \<Rightarrow> u64 \<Rightarrow> bool" where
  "buddy_region_ok bvirt size_bytes \<longleftrightarrow> bvirt \<noteq> 0
     \<and> unat bvirt + min 65536 (unat size_bytes div 4096) * 4096 \<le> 2 ^ 64"

lemma buddy_init_lists:
  assumes "buddy_region_ok bvirt sz"
  shows "\<exists>F. buddy_lists F (buddy_init bphys bvirt sz s)
    \<and> free_pages (buddy_init bphys bvirt sz s) = of_nat (card (free_set F))"
proof -
  define tp where "tp = (if sz div 4096 > 65536 then 65536 else sz div 4096)"
  have tp: "unat tp = min 65536 (unat sz div 4096)"
    by (auto simp: tp_def word_less_nat_alt unat_div min_def)
  define s1 where "s1 = s\<lparr>base_phys := bphys, base_virt := bvirt, total_pages := tp, free_pages := 0,
      free_lists := \<lambda>_. \<lparr>bl_head = 0, bl_count = 0\<rparr>,
      order_map := (\<lambda>i. if i < tp then 0xFF else order_map s i), buddy_initialized := False\<rparr>"
  have "buddy_rep (\<lambda>_. []) s1"
    using small_order_FF by (auto simp: buddy_rep_def s1_def)
  then have sd: "seeded lo lo (\<lambda>_. []) s1" for lo
    using assms tp by (auto simp: seeded_def buddy_lists_def buddy_geom_def blocks_ok_def s1_def buddy_region_ok_def
        free_set_def bpairs_def)
  let ?lo = "unat ((tp + 4096 - 1) div 4096)"
  obtain p' F' where F': "seeded ?lo p' F' (seed_orders 11 (unat tp) ?lo s1)"
    using seed_orders_seeded [OF sd, of 11 "unat tp" ?lo] by (auto simp: s1_def)
  have "buddy_init bphys bvirt sz s = (seed_orders 11 (unat tp) ?lo s1)\<lparr>buddy_initialized := True\<rparr>"
    unfolding buddy_init_def tp_def [symmetric] s1_def Let_def by simp
  with F' show ?thesis
    by (auto simp: seeded_def buddy_lists_def buddy_geom_def buddy_rep_def page_addr_def)
qed

section \<open>Runs of the allocator\<close>

text \<open>
  A run: the allocator is initialised once, then blocks are allocated and live blocks freed with
  the order they were allocated with. The list holds the live blocks with their orders.
\<close>

inductive buddy_run :: "buddy_allocator \<Rightarrow> (u64 \<times> nat) list \<Rightarrow> bool" where
  run_init: "buddy_region_ok bvirt sz \<Longrightarrow> buddy_run (buddy_init bphys bvirt sz s) []"
| run_alloc: "buddy_run s A \<Longrightarrow> buddy_alloc k s = (a, s') \<Longrightarrow> a \<noteq> 0 \<Longrightarrow> buddy_run s' ((a, nat k) # A)"
| run_fail: "buddy_run s A \<Longrightarrow> buddy_alloc k s = (0, s') \<Longrightarrow> buddy_run s' A"
| run_free: "buddy_run s A \<Longrightarrow> (a, k) \<in> set A \<Longrightarrow> buddy_run (buddy_free a (int k) s) (remove1 (a, k) A)"

definition block_pages :: "'a buddy_allocator_scheme \<Rightarrow> u64 \<times> nat \<Rightarrow> nat set" where
  "block_pages s b = blk (page_idx (fst b) s) (snd b)"

definition live_ok :: "'a buddy_allocator_scheme \<Rightarrow> nat set \<Rightarrow> (u64 \<times> nat) list \<Rightarrow> bool" where
  "live_ok s P A \<longleftrightarrow> distinct A
     \<and> (\<forall>b\<in>set A. block_ok (total_pages s) (page_idx (fst b) s) (snd b)
           \<and> page_addr (page_idx (fst b) s) s = fst b \<and> block_pages s b \<inter> P = {})
     \<and> (\<forall>b\<in>set A. \<forall>c\<in>set A. b \<noteq> c \<longrightarrow> block_pages s b \<inter> block_pages s c = {})"

lemma live_ok_cong:
  "base_virt s' = base_virt s \<Longrightarrow> total_pages s' = total_pages s \<Longrightarrow> live_ok s' P A = live_ok s P A"
  by (simp add: live_ok_def block_pages_def page_idx_def page_addr_def)

lemma live_ok_alloc:
  assumes "live_ok s P A" "block_ok (total_pages s) (page_idx a s) k" "page_addr (page_idx a s) s = a"
    "blk (page_idx a s) k \<subseteq> P"
  shows "live_ok s (P - blk (page_idx a s) k) ((a, k) # A)"
proof -
  have b: "block_pages s (a, k) = blk (page_idx a s) k" by (simp add: block_pages_def)
  have d: "block_pages s b \<inter> block_pages s (a, k) = {}" if "b \<in> set A" for b
    using assms(1,4) that unfolding live_ok_def b by blast
  have "block_pages s (a, k) \<noteq> {}" using blk_self unfolding b by blast
  with d have "(a, k) \<notin> set A" by blast
  with assms d show ?thesis unfolding live_ok_def using b by (auto simp: Int_commute)
qed

lemma live_ok_free:
  assumes "live_ok s P A" "(a, k) \<in> set A"
  shows "live_ok s (P \<union> blk (page_idx a s) k) (remove1 (a, k) A)"
proof -
  have b: "block_pages s (a, k) = blk (page_idx a s) k" by (simp add: block_pages_def)
  have "block_pages s b \<inter> (P \<union> blk (page_idx a s) k) = {}" if "b \<in> set A" "b \<noteq> (a, k)" for b
    using assms that unfolding live_ok_def b [symmetric] by blast
  then show ?thesis using assms unfolding live_ok_def by auto
qed

lemma buddy_alloc_failed:
  assumes "buddy_lists F s" "buddy_initialized s" "buddy_alloc k s = (0, s')"
  shows "s' = s"
proof (cases "0 \<le> k \<and> k \<le> 10 \<and> (\<exists>j. nat k \<le> j \<and> j \<le> 10 \<and> F j \<noteq> [])")
  case True
  then obtain i where "fst (buddy_alloc k s) = page_addr i s" "block_ok (total_pages s) i (nat k)"
    using buddy_alloc_lists [OF assms(1,2), of "nat k"] by auto
  then show ?thesis
    using page_addr_nonzero [of s i] block_lt [of "total_pages s" i "nat k"] assms by (simp add: buddy_lists_def)
next
  case False
  then have "buddy_alloc k s = (0, s)"
    using buddy_alloc_empty [OF assms(1), of "nat k"] by (cases "0 \<le> k \<and> k \<le> 10") (auto simp: buddy_alloc_def)
  with assms(3) show ?thesis by simp
qed

lemma buddy_alloc_success:
  assumes L: "buddy_lists F s" and ini: "buddy_initialized s" and al: "buddy_alloc k s = (a, s')" and a: "a \<noteq> 0"
  shows "\<exists>F'. buddy_lists F' s' \<and> buddy_initialized s' \<and> base_virt s' = base_virt s \<and> total_pages s' = total_pages s
    \<and> block_ok (total_pages s) (page_idx a s) (nat k) \<and> page_addr (page_idx a s) s = a
    \<and> blk (page_idx a s) (nat k) \<subseteq> free_set F \<and> free_set F' = free_set F - blk (page_idx a s) (nat k)
    \<and> free_pages s' = free_pages s - push_bit (nat k) 1 \<and> 0 \<le> k"
proof -
  have k: "0 \<le> k" "k \<le> 10" using al a by (auto simp: buddy_alloc_def ini split: if_splits)
  then have "\<exists>j. nat k \<le> j \<and> j \<le> 10 \<and> F j \<noteq> []"
    using buddy_alloc_empty [OF L, of "nat k"] al a by (metis nat_0_le nat_le_iff Pair_inject of_nat_numeral)
  with buddy_alloc_lists [OF L ini, of "nat k"] k al obtain F' i where F': "a = page_addr i s" "buddy_lists F' s'"
    "block_ok (total_pages s) i (nat k)" "blk i (nat k) \<subseteq> free_set F" "free_set F' = free_set F - blk i (nat k)"
    "base_virt s' = base_virt s" "total_pages s' = total_pages s" "buddy_initialized s'"
    "free_pages s' = free_pages s - push_bit (nat k) 1" by auto
  moreover have "page_idx a s = i"
    using page_idx_addr [of s i] L block_lt [OF F'(3)] F'(1) by (simp add: buddy_lists_def)
  ultimately show ?thesis using k(1) by auto
qed

lemma buddy_run_inv:
  "buddy_run s A \<Longrightarrow> buddy_initialized s \<and> (\<exists>F. buddy_lists F s \<and> live_ok s (free_set F) A)"
proof (induction rule: buddy_run.induct)
  case (run_init bvirt sz bphys s)
  then show ?case
    using buddy_init_lists [OF run_init, of bphys s] by (auto simp: buddy_init_def Let_def live_ok_def)
next
  case (run_alloc s A k a s')
  then obtain F where F: "buddy_lists F s" "live_ok s (free_set F) A" "buddy_initialized s" by auto
  from buddy_alloc_success [OF F(1,3) run_alloc.hyps(2,3)] live_ok_alloc [OF F(2)] live_ok_cong [of s' s]
  show ?case by metis
next
  case (run_fail s A k s')
  then show ?case using buddy_alloc_failed by blast
next
  case (run_free s A a k)
  then obtain F where F: "buddy_lists F s" "live_ok s (free_set F) A" "buddy_initialized s" by auto
  let ?i = "page_idx a s"
  have ok: "block_ok (total_pages s) ?i k" "page_addr ?i s = a" "blk ?i k \<inter> free_set F = {}"
    using F(2) run_free.hyps(2) by (force simp: live_ok_def block_pages_def)+
  from buddy_free_lists [OF F(1,3) ok(1,3)] obtain F' where "buddy_lists F' (buddy_free a (int k) s)"
    "free_set F' = free_set F \<union> blk ?i k" "base_virt (buddy_free a (int k) s) = base_virt s"
    "total_pages (buddy_free a (int k) s) = total_pages s" "buddy_initialized (buddy_free a (int k) s)"
    unfolding ok(2) by blast
  with live_ok_free [OF F(2) run_free.hyps(2)] live_ok_cong [of "buddy_free a (int k) s" s] show ?case by metis
qed

lemma coalesce_order: "k \<le> fst (coalesce k i s)"
proof (induction k i s rule: coalesce.induct)
  case (1 k i s)
  then show ?case by (subst coalesce.simps) (auto simp: Let_def)
qed

text \<open>A region of eight pages: one holds the map, and one block of order 2 is seeded at page 4.\<close>

definition buddy_demo :: buddy_allocator where
  "buddy_demo = buddy_init 0 0x1000000 0x8000 \<lparr>base_phys = 0, base_virt = 0, total_pages = 0, free_pages = 0,
     free_lists = \<lambda>_. \<lparr>bl_head = 0, bl_count = 0\<rparr>, order_map = \<lambda>_. 0, buddy_initialized = False,
     nodes = \<lambda>_. \<lparr>bn_next = 0, bn_prev = 0\<rparr>\<rparr>"

definition buddy_demo1 :: buddy_allocator where
  "buddy_demo1 = snd (buddy_alloc 0 buddy_demo)"

lemma buddy_demo_alloc: "buddy_alloc 0 buddy_demo = (0x1004000, buddy_demo1)"
proof -
  have "fst (buddy_alloc 0 buddy_demo) = 0x1004000" by code_simp
  then show ?thesis by (simp add: buddy_demo1_def prod_eq_iff)
qed

lemma buddy_demo_run: "buddy_run buddy_demo []"
  unfolding buddy_demo_def by (rule run_init) (simp add: buddy_region_ok_def)

lemma buddy_demo1_run: "buddy_run buddy_demo1 [(0x1004000, 0)]"
  using run_alloc [OF buddy_demo_run buddy_demo_alloc] by simp

section \<open>Properties\<close>

text \<open>
  C22: live allocations never overlap. In every run of the buddy allocator (one initialisation, then
  any allocations and any frees of live blocks) each live block is aligned to its size and lies in
  the managed region, no two live blocks share a page, and no live block has a page on a free list.
\<close>

theorem buddy_no_overlap:
  assumes "buddy_run s A"
  shows "live_ok s (buddy_pages s) A"
  using buddy_run_inv [OF assms] buddy_pages_lists by metis

theorem buddy_no_overlap_witness:
  "\<exists>s. buddy_run s [(0x1005000, 0), (0x1004000, 0)] \<and> live_ok s (buddy_pages s) [(0x1005000, 0), (0x1004000, 0)]"
proof -
  have "fst (buddy_alloc 0 buddy_demo1) = 0x1005000" unfolding buddy_demo1_def by code_simp
  then have "buddy_alloc 0 buddy_demo1 = (0x1005000, snd (buddy_alloc 0 buddy_demo1))" by (simp add: prod_eq_iff)
  from run_alloc [OF buddy_demo1_run this]
  have "buddy_run (snd (buddy_alloc 0 buddy_demo1)) [(0x1005000, 0), (0x1004000, 0)]" by simp
  with buddy_no_overlap show ?thesis by blast
qed

text \<open>
  C23: allocating a block and freeing it again leaves the same pages free, whatever splitting and
  merging happened in between; the invariant of the free lists is kept.
\<close>

theorem buddy_alloc_free_roundtrip:
  assumes "buddy_inv s" "buddy_alloc k s = (a, s')" "a \<noteq> 0"
  shows "buddy_pages (buddy_free a k s') = buddy_pages s \<and> buddy_inv (buddy_free a k s')
    \<and> card (buddy_pages s - buddy_pages s') = 2 ^ nat k"
proof -
  obtain F where F: "buddy_lists F s" "buddy_initialized s" using assms(1) by (auto simp: buddy_inv_def)
  obtain F' where F': "buddy_lists F' s'" "buddy_initialized s'" "base_virt s' = base_virt s"
    "total_pages s' = total_pages s" "block_ok (total_pages s) (page_idx a s) (nat k)"
    "page_addr (page_idx a s) s = a" "blk (page_idx a s) (nat k) \<subseteq> free_set F"
    "free_set F' = free_set F - blk (page_idx a s) (nat k)" "0 \<le> k"
    using buddy_alloc_success [OF F assms(2,3)] by auto
  let ?i = "page_idx a s"
  have i: "page_addr ?i s' = a" using F'(3,6) page_addr_base [of s' s] by simp
  obtain F2 where F2: "buddy_lists F2 (buddy_free a k s')" "free_set F2 = free_set F' \<union> blk ?i (nat k)"
    "buddy_initialized (buddy_free a k s')"
    using buddy_free_lists [OF F'(1,2), of ?i "nat k"] F'(4,5,8,9) i by auto
  have "buddy_pages s - buddy_pages s' = blk ?i (nat k)"
    unfolding buddy_pages_lists [OF F(1)] buddy_pages_lists [OF F'(1)] F'(8) using F'(7) by blast
  moreover have "free_set F2 = free_set F" using F2(2) F'(7,8) by blast
  ultimately show ?thesis
    using F2 buddy_pages_lists [OF F(1)] buddy_pages_lists [OF F2(1)] by (auto simp: buddy_inv_def blk_def)
qed

theorem buddy_alloc_free_roundtrip_witness:
  "buddy_pages (buddy_free 0x1004000 0 buddy_demo1) = buddy_pages buddy_demo"
proof -
  have "buddy_inv buddy_demo" using buddy_run_inv [OF buddy_demo_run] by (auto simp: buddy_inv_def)
  with buddy_alloc_free_roundtrip [OF _ buddy_demo_alloc] show ?thesis by simp
qed

text \<open>
  The page counter drifts. Freeing a block whose buddy is free returns exactly the pages of
  the block to the free lists, but adds to \<open>free_pages\<close> the size of the whole merged block, which
  includes the buddies that were already counted.
\<close>

theorem buddy_free_overcounts:
  assumes "buddy_inv s" "block_ok (total_pages s) i k" "blk i k \<inter> buddy_pages s = {}" "k < 10"
    "buddy_is_free (buddy_idx i k) k s"
  shows "\<exists>k'>k. free_pages (buddy_free (page_addr i s) (int k) s) = free_pages s + push_bit k' 1
    \<and> buddy_pages (buddy_free (page_addr i s) (int k) s) = buddy_pages s \<union> blk i k"
proof -
  obtain F where F: "buddy_lists F s" "buddy_initialized s" using assms(1) by (auto simp: buddy_inv_def)
  let ?s = "buddy_free (page_addr i s) (int k) s"
  have fs: "blk i k \<inter> free_set F = {}" using assms(3) buddy_pages_lists [OF F(1)] by simp
  obtain F' where F': "buddy_lists F' ?s" "free_set F' = free_set F \<union> blk i k"
    "free_pages ?s = free_pages s + push_bit (fst (coalesce k i s)) 1"
    using buddy_free_lists [OF F assms(2) fs] by auto
  have "k + 1 \<le> fst (coalesce (k + 1) j t)" for j and t :: "'a buddy_allocator_scheme"
    by (rule coalesce_order)
  then have "k < fst (coalesce k i s)"
    using assms(4,5) by (subst coalesce.simps) (simp add: Let_def Suc_le_eq)
  then show ?thesis
    using F' buddy_pages_lists [OF F(1)] buddy_pages_lists [OF F'(1)] by (intro exI [of _ "fst (coalesce k i s)"]) simp
qed

theorem buddy_free_overcounts_witness:
  "(\<exists>k'>0. free_pages (buddy_free (page_addr 4 buddy_demo1) 0 buddy_demo1) = free_pages buddy_demo1 + push_bit k' 1
     \<and> buddy_pages (buddy_free (page_addr 4 buddy_demo1) 0 buddy_demo1) = buddy_pages buddy_demo1 \<union> blk 4 0)
   \<and> free_pages buddy_demo = 4 \<and> free_pages (buddy_free 0x1004000 0 buddy_demo1) = 7"
proof -
  obtain F where F: "buddy_initialized buddy_demo1" "buddy_lists F buddy_demo1"
    "live_ok buddy_demo1 (free_set F) [(0x1004000, 0)]"
    using buddy_run_inv [OF buddy_demo1_run] by blast
  have i: "page_idx 0x1004000 buddy_demo1 = 4" unfolding buddy_demo1_def by code_simp
  have ok: "block_ok (total_pages buddy_demo1) 4 0" "blk 4 0 \<inter> buddy_pages buddy_demo1 = {}"
    using F(3) i buddy_pages_lists [OF F(2)] by (simp_all add: live_ok_def block_pages_def)
  have "buddy_is_free (buddy_idx 4 0) 0 buddy_demo1" unfolding buddy_demo1_def by code_simp
  moreover have "buddy_inv buddy_demo1" using F by (auto simp: buddy_inv_def)
  moreover have "free_pages buddy_demo = 4 \<and> free_pages (buddy_free 0x1004000 0 buddy_demo1) = 7"
    unfolding buddy_demo1_def by code_simp
  ultimately show ?thesis using buddy_free_overcounts [OF _ ok, simplified] by simp
qed

end
