(* ===== verification/Pmm.thy ===== *)
theory Pmm
  imports Prelude
begin

text \<open>
  The physical memory manager, \<open>memory/pmm.c\<close>: a bitmap of 4 KB frames with a byte of reference
  count each. The lemmas show that allocation returns a free frame and no other is touched, that
  the two-level bitmap scan finds the first free frame, that a run of frames is contiguous
  and free, how many frees a shared frame needs, and what the free counter really returns.
\<close>

section \<open>State\<close>

abbreviation (input) PMM_FRAME_SIZE :: u64 where "PMM_FRAME_SIZE \<equiv> 0x1000"

definition MAX_FRAMES :: nat where
  "MAX_FRAMES = 0x100000"

record pmm_st = kbase +
  pmm_bitmap :: "nat \<Rightarrow> u8"
  pmm_refcounts :: "nat \<Rightarrow> u8"
  pmm_total_frame_count :: u64
  pmm_used_frame_count :: u64

section \<open>Operations\<close>

definition pmm_set_bit :: "nat \<Rightarrow> 'a pmm_st_scheme \<Rightarrow> 'a pmm_st_scheme" where
  "pmm_set_bit frame s = s\<lparr>pmm_bitmap := (pmm_bitmap s)(frame div 8 :=
     pmm_bitmap s (frame div 8) OR push_bit (frame mod 8) 1)\<rparr>"

definition pmm_clear_bit :: "nat \<Rightarrow> 'a pmm_st_scheme \<Rightarrow> 'a pmm_st_scheme" where
  "pmm_clear_bit frame s = s\<lparr>pmm_bitmap := (pmm_bitmap s)(frame div 8 :=
     pmm_bitmap s (frame div 8) AND NOT (push_bit (frame mod 8) 1))\<rparr>"

definition pmm_test_bit :: "nat \<Rightarrow> 'a pmm_st_scheme \<Rightarrow> bool" where
  "pmm_test_bit frame s \<longleftrightarrow> drop_bit (frame mod 8) (pmm_bitmap s (frame div 8)) AND 1 \<noteq> 0"

definition pmm_used_inc :: "'a pmm_st_scheme \<Rightarrow> 'a pmm_st_scheme" where
  "pmm_used_inc s = s\<lparr>pmm_used_frame_count := pmm_used_frame_count s + 1\<rparr>"

definition pmm_used_dec :: "'a pmm_st_scheme \<Rightarrow> 'a pmm_st_scheme" where
  "pmm_used_dec s = s\<lparr>pmm_used_frame_count := pmm_used_frame_count s - 1\<rparr>"

definition pmm_set_ref :: "nat \<Rightarrow> u8 \<Rightarrow> 'a pmm_st_scheme \<Rightarrow> 'a pmm_st_scheme" where
  "pmm_set_ref frame r s = s\<lparr>pmm_refcounts := (pmm_refcounts s)(frame := r)\<rparr>"

text \<open>The frames of a loop \<open>for (f = a; f < b && f < MAX_FRAMES; f++)\<close>.\<close>

definition frame_range :: "u64 \<Rightarrow> u64 \<Rightarrow> nat list" where
  "frame_range a b = [unat a..<min (unat b) MAX_FRAMES]"

definition mark_used_frame :: "nat \<Rightarrow> 'a pmm_st_scheme \<Rightarrow> 'a pmm_st_scheme" where
  "mark_used_frame f s = (if \<not> pmm_test_bit f s then pmm_used_inc (pmm_set_bit f s) else s)"

definition mark_free_frame :: "nat \<Rightarrow> 'a pmm_st_scheme \<Rightarrow> 'a pmm_st_scheme" where
  "mark_free_frame f s = (if pmm_test_bit f s then pmm_used_dec (pmm_clear_bit f s) else s)"

definition pmm_mark_used :: "u64 \<Rightarrow> u64 \<Rightarrow> 'a pmm_st_scheme \<Rightarrow> 'a pmm_st_scheme" where
  "pmm_mark_used addr sz s =
     fold mark_used_frame
       (frame_range (addr div PMM_FRAME_SIZE) (ALIGN_UP (addr + sz) PMM_FRAME_SIZE div PMM_FRAME_SIZE)) s"

definition pmm_mark_free :: "u64 \<Rightarrow> u64 \<Rightarrow> 'a pmm_st_scheme \<Rightarrow> 'a pmm_st_scheme" where
  "pmm_mark_free addr sz s =
     fold mark_free_frame
       (frame_range (ALIGN_UP addr PMM_FRAME_SIZE div PMM_FRAME_SIZE) ((addr + sz) div PMM_FRAME_SIZE)) s"

text \<open>
  \<open>pmm_init\<close>. The entries of the boot loader's memory map are a parameter: base, length and type of
  each, in order, with \<open>None\<close> when the map is missing and the kernel panics; so are the end of
  the kernel image, which the linker provides, and the address of the bitmap.
\<close>

record mmap_entry =
  mm_base_addr :: u64
  mm_length :: u64
  mm_type :: u32

abbreviation (input) MULTIBOOT2_MMAP_AVAILABLE :: u32 where "MULTIBOOT2_MMAP_AVAILABLE \<equiv> 1"
abbreviation (input) KERNEL_PHYS_BASE :: u64 where "KERNEL_PHYS_BASE \<equiv> 0x100000"
abbreviation (input) KERNEL_VMA_BASE :: u64 where "KERNEL_VMA_BASE \<equiv> 0xFFFFFFFF80000000"

definition pmm_init_entry :: "mmap_entry \<Rightarrow> 'a pmm_st_scheme \<Rightarrow> 'a pmm_st_scheme" where
  "pmm_init_entry e s =
     (if mm_type e = MULTIBOOT2_MMAP_AVAILABLE
      then (let s1 = pmm_mark_free (mm_base_addr e) (mm_length e) s
            in s1\<lparr>pmm_total_frame_count := pmm_total_frame_count s1
                    + ALIGN_DOWN (mm_length e) PMM_FRAME_SIZE div PMM_FRAME_SIZE\<rparr>)
      else s)"

definition pmm_init ::
  "mmap_entry list option \<Rightarrow> u64 \<Rightarrow> u64 \<Rightarrow> 'a pmm_st_scheme \<Rightarrow> 'a pmm_st_scheme option" where
  "pmm_init mmap kernel_phys_end bitmap_vaddr s =
     (let s1 = s\<lparr>pmm_bitmap := \<lambda>_. 0xFF, pmm_used_frame_count := of_nat MAX_FRAMES\<rparr> in
      case mmap of
        None \<Rightarrow> None
      | Some entries \<Rightarrow>
          (let s2 = fold pmm_init_entry entries s1;
               s3 = pmm_mark_used 0 0x100000 s2;
               s4 = pmm_mark_used KERNEL_PHYS_BASE (kernel_phys_end - KERNEL_PHYS_BASE) s3
           in Some (pmm_mark_used (bitmap_vaddr - KERNEL_VMA_BASE) (of_nat (MAX_FRAMES div 8)) s4)))"

text \<open>
  \<open>pmm_alloc_frame\<close>: bytes that are all ones are skipped; the first clear bit of the first other
  byte is taken. NULL is the address 0.
\<close>

definition free_bit :: "nat \<Rightarrow> 'a pmm_st_scheme \<Rightarrow> nat option" where
  "free_bit byte s = for_find (\<lambda>k. \<not> pmm_test_bit (byte * 8 + k) s) 0 8"

definition pmm_scan :: "'a pmm_st_scheme \<Rightarrow> nat option" where
  "pmm_scan s =
     (case for_find (\<lambda>byte. pmm_bitmap s byte \<noteq> 0xFF \<and> free_bit byte s \<noteq> None) 0 (MAX_FRAMES div 8) of
        None \<Rightarrow> None
      | Some byte \<Rightarrow> map_option (\<lambda>k. byte * 8 + k) (free_bit byte s))"

definition take_frame :: "nat \<Rightarrow> 'a pmm_st_scheme \<Rightarrow> 'a pmm_st_scheme" where
  "take_frame f s = pmm_used_inc (pmm_set_ref f 1 (pmm_set_bit f s))"

definition pmm_alloc_frame :: "'a pmm_st_scheme \<Rightarrow> u64 \<times> 'a pmm_st_scheme" where
  "pmm_alloc_frame s =
     (case pmm_scan s of
        None \<Rightarrow> (0, s)
      | Some f \<Rightarrow> (of_nat f * PMM_FRAME_SIZE, take_frame f s))"

text \<open>The scan of \<open>pmm_alloc_frames\<close> for a run of \<open>count\<close> free frames.\<close>

function find_run :: "nat \<Rightarrow> nat \<Rightarrow> nat \<Rightarrow> nat \<Rightarrow> 'a pmm_st_scheme \<Rightarrow> nat option" where
  "find_run count f run start s =
     (if f < MAX_FRAMES then
        if \<not> pmm_test_bit f s then
          (let start' = (if run = 0 then f else start) in
           if run + 1 = count then Some start' else find_run count (f + 1) (run + 1) start' s)
        else find_run count (f + 1) 0 start s
      else None)"
  by pat_completeness auto
termination
  by (relation "measure (\<lambda>(count, f, run, start, s). MAX_FRAMES - f)") auto

declare find_run.simps [simp del]

definition pmm_alloc_frames :: "nat \<Rightarrow> 'a pmm_st_scheme \<Rightarrow> u64 \<times> 'a pmm_st_scheme" where
  "pmm_alloc_frames count s =
     (if count = 0 then (0, s)
      else if count = 1 then pmm_alloc_frame s
      else (case find_run count 0 0 0 s of
              None \<Rightarrow> (0, s)
            | Some start \<Rightarrow> (of_nat start * PMM_FRAME_SIZE, fold take_frame [start..<start + count] s)))"

definition pmm_free_frame :: "u64 \<Rightarrow> 'a pmm_st_scheme \<Rightarrow> 'a pmm_st_scheme" where
  "pmm_free_frame frame s =
     (let f = unat (frame div PMM_FRAME_SIZE) in
      if f \<ge> MAX_FRAMES then s
      else if \<not> pmm_test_bit f s then s
      else if pmm_refcounts s f > 1 then pmm_set_ref f (pmm_refcounts s f - 1) s
      else pmm_used_dec (pmm_clear_bit f (pmm_set_ref f 0 s)))"

definition pmm_free_frames :: "u64 \<Rightarrow> nat \<Rightarrow> 'a pmm_st_scheme \<Rightarrow> 'a pmm_st_scheme" where
  "pmm_free_frames frame count s =
     fold (\<lambda>i. pmm_free_frame (frame + of_nat i * PMM_FRAME_SIZE)) [0..<count] s"

definition pmm_ref_frame :: "u64 \<Rightarrow> 'a pmm_st_scheme \<Rightarrow> 'a pmm_st_scheme" where
  "pmm_ref_frame phys s =
     (let f = unat (phys div PMM_FRAME_SIZE) in
      if f \<ge> MAX_FRAMES then s
      else if pmm_refcounts s f < 255 then pmm_set_ref f (pmm_refcounts s f + 1) s
      else s)"

definition pmm_unref_frame :: "u64 \<Rightarrow> 'a pmm_st_scheme \<Rightarrow> 'a pmm_st_scheme" where
  "pmm_unref_frame phys = pmm_free_frame phys"

definition pmm_get_refcount :: "u64 \<Rightarrow> 'a pmm_st_scheme \<Rightarrow> u8" where
  "pmm_get_refcount phys s =
     (let f = unat (phys div PMM_FRAME_SIZE) in if f \<ge> MAX_FRAMES then 0 else pmm_refcounts s f)"

definition pmm_free_frames_count :: "'a pmm_st_scheme \<Rightarrow> u64" where
  "pmm_free_frames_count s = pmm_total_frame_count s - pmm_used_frame_count s"

definition pmm_total_frames :: "'a pmm_st_scheme \<Rightarrow> u64" where
  "pmm_total_frames s = pmm_total_frame_count s"

section \<open>The bitmap as a set\<close>

lemma test_bit_eq: "pmm_test_bit f s \<longleftrightarrow> bit (pmm_bitmap s (f div 8)) (f mod 8)"
proof -
  have "(drop_bit (f mod 8) (pmm_bitmap s (f div 8)) AND 1 \<noteq> 0) = odd (drop_bit (f mod 8) (pmm_bitmap s (f div 8)))"
    by (simp add: and_one_eq odd_iff_mod_2_eq_one)
  then show ?thesis by (simp add: pmm_test_bit_def bit_iff_odd_drop_bit)
qed

lemma frame_eq_iff: "(f :: nat) = g \<longleftrightarrow> f div 8 = g div 8 \<and> f mod 8 = g mod 8"
  by (metis div_mult_mod_eq)

lemma bit_mask8: "n < 8 \<Longrightarrow> bit (push_bit m 1 :: u8) n \<longleftrightarrow> n = m"
  by (auto simp: bit_push_bit_iff bit_1_iff possible_bit_def bit_exp_iff not_le)

lemma test_set_bit [simp]: "pmm_test_bit g (pmm_set_bit f s) \<longleftrightarrow> g = f \<or> pmm_test_bit g s"
  by (auto simp: test_bit_eq pmm_set_bit_def bit_or_iff frame_eq_iff [of g f] bit_mask8 simp del: push_bit_of_1)

lemma test_clear_bit [simp]: "pmm_test_bit g (pmm_clear_bit f s) \<longleftrightarrow> g \<noteq> f \<and> pmm_test_bit g s"
  by (auto simp: test_bit_eq pmm_clear_bit_def bit_and_iff bit_not_iff frame_eq_iff [of g f] bit_mask8 simp del: push_bit_of_1)

lemma test_other [simp]:
  "pmm_test_bit g (pmm_used_inc s) = pmm_test_bit g s" "pmm_test_bit g (pmm_used_dec s) = pmm_test_bit g s"
  "pmm_test_bit g (pmm_set_ref f r s) = pmm_test_bit g s"
  by (simp_all add: pmm_test_bit_def pmm_used_inc_def pmm_used_dec_def pmm_set_ref_def)

section \<open>Finding free frames\<close>

lemma byte_full_iff: "(w :: u8) = 0xFF \<longleftrightarrow> (\<forall>k < 8. bit w k)"
proof
  assume "w = 0xFF"
  moreover have "(0xFF :: u8) = - 1" by simp
  ultimately show "\<forall>k < 8. bit w k" by (simp only: bit_minus_1_iff) simp
next
  assume "\<forall>k < 8. bit w k"
  then have "w = - 1" by (intro bit_word_eqI) simp
  then show "w = 0xFF" by simp
qed

lemma test_byte: "k < 8 \<Longrightarrow> pmm_test_bit (byte * 8 + k) s \<longleftrightarrow> bit (pmm_bitmap s byte) k"
  by (simp add: test_bit_eq)

lemma free_bit_None_iff: "free_bit byte s = None \<longleftrightarrow> pmm_bitmap s byte = 0xFF"
  unfolding byte_full_iff free_bit_def for_find_None_iff by (auto simp: test_byte)

text \<open>The two-level scan is the search for the first free frame.\<close>

lemma pmm_scan_first: "pmm_scan s = for_find (\<lambda>f. \<not> pmm_test_bit f s) 0 MAX_FRAMES"
proof (cases "for_find (\<lambda>f. \<not> pmm_test_bit f s) 0 MAX_FRAMES")
  case None
  then have used: "pmm_test_bit f s" if "f < MAX_FRAMES" for f using that by (simp add: for_find_None_iff)
  have "free_bit byte s = None" if "byte < MAX_FRAMES div 8" for byte
    unfolding free_bit_def for_find_None_iff using used that by (auto simp: MAX_FRAMES_def)
  then have "for_find (\<lambda>byte. pmm_bitmap s byte \<noteq> 0xFF \<and> free_bit byte s \<noteq> None) 0 (MAX_FRAMES div 8) = None"
    by (simp add: for_find_None_iff)
  with None show ?thesis by (simp add: pmm_scan_def)
next
  case (Some f)
  then have f: "f < MAX_FRAMES" "\<not> pmm_test_bit f s" and first: "\<And>g. g < f \<Longrightarrow> pmm_test_bit g s"
    by (auto simp: for_find_Some_iff)
  let ?b = "f div 8" and ?k = "f mod 8"
  have fk: "?b * 8 + ?k = f" by simp
  have "free_bit ?b s = Some ?k"
  proof -
    have "pmm_test_bit (?b * 8 + j) s" if "j < ?k" for j by (rule first) (use that fk in linarith)
    then show ?thesis unfolding free_bit_def for_find_Some_iff using f(2) by simp
  qed
  moreover have "free_bit b s = None" if "b < ?b" for b
  proof -
    have "pmm_test_bit (b * 8 + k) s" if "k < 8" for k by (rule first) (use that \<open>b < ?b\<close> fk in linarith)
    then show ?thesis unfolding free_bit_def for_find_None_iff by simp
  qed
  moreover have "?b < MAX_FRAMES div 8" using f(1) by (simp add: MAX_FRAMES_def div_less_iff_less_mult)
  ultimately have "for_find (\<lambda>byte. pmm_bitmap s byte \<noteq> 0xFF \<and> free_bit byte s \<noteq> None) 0 (MAX_FRAMES div 8) = Some ?b"
    unfolding for_find_Some_iff by (auto simp: free_bit_None_iff [symmetric])
  then show ?thesis using \<open>free_bit ?b s = Some ?k\<close> fk Some by (simp add: pmm_scan_def)
qed

definition is_run :: "nat \<Rightarrow> nat \<Rightarrow> 'a pmm_st_scheme \<Rightarrow> bool" where
  "is_run count st s \<longleftrightarrow> st + count \<le> MAX_FRAMES \<and> (\<forall>i. st \<le> i \<and> i < st + count \<longrightarrow> \<not> pmm_test_bit i s)"

lemma find_run_spec:
  assumes "f \<le> MAX_FRAMES" "run \<le> f" "run < count" "run \<noteq> 0 \<Longrightarrow> start = f - run"
    "\<And>i. f - run \<le> i \<Longrightarrow> i < f \<Longrightarrow> \<not> pmm_test_bit i s" "\<And>st. is_run count st s \<Longrightarrow> f - run \<le> st"
  shows "case find_run count f run start s of
      None \<Rightarrow> \<forall>st. \<not> is_run count st s
    | Some st \<Rightarrow> is_run count st s \<and> (\<forall>st'. is_run count st' s \<longrightarrow> st \<le> st')"
  using assms
proof (induction count f run start s rule: find_run.induct)
  case (1 count f run start s)
  consider (fin) "\<not> f < MAX_FRAMES" | (used) "f < MAX_FRAMES" "pmm_test_bit f s"
    | (found) "f < MAX_FRAMES" "\<not> pmm_test_bit f s" "run + 1 = count"
    | (more) "f < MAX_FRAMES" "\<not> pmm_test_bit f s" "run + 1 \<noteq> count" by blast
  then show ?case
  proof cases
    case fin
    have "False" if r: "is_run count st s" for st
      using "1.prems"(6) [OF r] "1.prems"(1,3) fin r [unfolded is_run_def, THEN conjunct1] by linarith
    then show ?thesis by (subst find_run.simps) (auto simp: fin)
  next
    case used
    have "f + 1 \<le> st" if "is_run count st s" for st
    proof (rule ccontr)
      assume "\<not> f + 1 \<le> st"
      then have "st \<le> f" "f < st + count" using "1.prems"(6) [OF that] "1.prems"(3) by linarith+
      then show False using that used(2) by (simp add: is_run_def)
    qed
    then have "case find_run count (f + 1) 0 start s of None \<Rightarrow> \<forall>st. \<not> is_run count st s
      | Some st \<Rightarrow> is_run count st s \<and> (\<forall>st'. is_run count st' s \<longrightarrow> st \<le> st')"
      using "1.IH"(2) [OF used(1)] used "1.prems"(3) by simp
    then show ?thesis by (subst find_run.simps) (simp add: used)
  next
    case found
    have "is_run count (f - run) s"
      unfolding is_run_def
    proof (intro conjI allI impI)
      show "f - run + count \<le> MAX_FRAMES" using found "1.prems"(2) by linarith
      show "\<not> pmm_test_bit i s" if "f - run \<le> i \<and> i < f - run + count" for i
        using "1.prems"(5) [of i] that found "1.prems"(2) by (cases "i = f") auto
    qed
    moreover have "find_run count f run start s = Some (f - run)"
      using found "1.prems"(4) by (subst find_run.simps) (cases "run = 0"; simp add: Let_def)
    ultimately show ?thesis using "1.prems"(6) by simp
  next
    case more
    let ?st = "if run = 0 then f else start"
    have "case find_run count (f + 1) (run + 1) ?st s of None \<Rightarrow> \<forall>st. \<not> is_run count st s
      | Some st \<Rightarrow> is_run count st s \<and> (\<forall>st'. is_run count st' s \<longrightarrow> st \<le> st')"
    proof (rule "1.IH"(1) [OF more(1,2) refl more(3)])
      show "\<not> pmm_test_bit i s" if "f + 1 - (run + 1) \<le> i" "i < f + 1" for i
        using "1.prems"(5) [of i] that more(2) by (cases "i = f") auto
    qed (use more "1.prems" in auto)
    then show ?thesis using more by (subst find_run.simps) (simp add: Let_def)
  qed
qed

section \<open>The frame counters\<close>

definition used_count :: "'a pmm_st_scheme \<Rightarrow> nat" where
  "used_count s = cells (\<lambda>f. pmm_test_bit f s) MAX_FRAMES"

definition free_count :: "'a pmm_st_scheme \<Rightarrow> nat" where
  "free_count s = cells (\<lambda>f. \<not> pmm_test_bit f s) MAX_FRAMES"

definition pmm_inv :: "'a pmm_st_scheme \<Rightarrow> bool" where
  "pmm_inv s \<longleftrightarrow> pmm_used_frame_count s = of_nat (used_count s)"

lemma used_free: "used_count s + free_count s = MAX_FRAMES"
proof -
  have "{f. f < MAX_FRAMES \<and> pmm_test_bit f s} \<union> {f. f < MAX_FRAMES \<and> \<not> pmm_test_bit f s} = {..<MAX_FRAMES}" by auto
  moreover have "card ({f. f < MAX_FRAMES \<and> pmm_test_bit f s} \<union> {f. f < MAX_FRAMES \<and> \<not> pmm_test_bit f s})
      = used_count s + free_count s"
    unfolding used_count_def free_count_def cells_def by (rule card_Un_disjoint) auto
  ultimately show ?thesis by simp
qed

lemma pmm_sel [simp]:
  "pmm_used_frame_count (pmm_set_bit f s) = pmm_used_frame_count s" "pmm_used_frame_count (pmm_clear_bit f s) = pmm_used_frame_count s"
  "pmm_used_frame_count (pmm_set_ref f r s) = pmm_used_frame_count s"
  "pmm_used_frame_count (pmm_used_inc s) = pmm_used_frame_count s + 1" "pmm_used_frame_count (pmm_used_dec s) = pmm_used_frame_count s - 1"
  "pmm_refcounts (pmm_set_bit f s) = pmm_refcounts s" "pmm_refcounts (pmm_clear_bit f s) = pmm_refcounts s"
  "pmm_refcounts (pmm_used_inc s) = pmm_refcounts s" "pmm_refcounts (pmm_used_dec s) = pmm_refcounts s"
  "pmm_refcounts (pmm_set_ref f r s) = (pmm_refcounts s)(f := r)"
  "pmm_total_frame_count (pmm_set_bit f s) = pmm_total_frame_count s" "pmm_total_frame_count (pmm_clear_bit f s) = pmm_total_frame_count s"
  "pmm_total_frame_count (pmm_used_inc s) = pmm_total_frame_count s" "pmm_total_frame_count (pmm_used_dec s) = pmm_total_frame_count s"
  "pmm_total_frame_count (pmm_set_ref f r s) = pmm_total_frame_count s"
  by (simp_all add: pmm_set_bit_def pmm_clear_bit_def pmm_used_inc_def pmm_used_dec_def pmm_set_ref_def)

lemma used_count_take:
  assumes "f < MAX_FRAMES" "\<not> pmm_test_bit f s" "\<And>g. pmm_test_bit g t \<longleftrightarrow> g = f \<or> pmm_test_bit g s"
  shows "used_count t = Suc (used_count s)"
  unfolding used_count_def by (rule cells_set [of f]) (use assms in auto)

lemma used_count_drop:
  assumes "f < MAX_FRAMES" "pmm_test_bit f s" "\<And>g. pmm_test_bit g t \<longleftrightarrow> g \<noteq> f \<and> pmm_test_bit g s"
  shows "Suc (used_count t) = used_count s"
  unfolding used_count_def by (rule cells_clear [of f]) (use assms in auto)

lemma used_count_cong: "(\<And>g. pmm_test_bit g t = pmm_test_bit g s) \<Longrightarrow> used_count t = used_count s"
  unfolding used_count_def by (rule cells_cong) simp

lemma take_frame_test [simp]: "pmm_test_bit g (take_frame f s) \<longleftrightarrow> g = f \<or> pmm_test_bit g s"
  by (simp add: take_frame_def)

lemma take_frame_ref [simp]: "pmm_refcounts (take_frame f s) = (pmm_refcounts s)(f := 1)"
  by (simp add: take_frame_def)

lemma take_frame_inv: "pmm_inv s \<Longrightarrow> f < MAX_FRAMES \<Longrightarrow> \<not> pmm_test_bit f s \<Longrightarrow> pmm_inv (take_frame f s)"
  using used_count_take [of f s "take_frame f s"] by (simp add: pmm_inv_def take_frame_def)

lemma mark_used_inv: "pmm_inv s \<Longrightarrow> f < MAX_FRAMES \<Longrightarrow> pmm_inv (mark_used_frame f s)"
  using used_count_take [of f s "mark_used_frame f s"] by (simp add: pmm_inv_def mark_used_frame_def)

lemma mark_free_inv:
  assumes "pmm_inv s" "f < MAX_FRAMES"
  shows "pmm_inv (mark_free_frame f s)"
proof (cases "pmm_test_bit f s")
  case True
  then have "Suc (used_count (mark_free_frame f s)) = used_count s"
    using used_count_drop [OF assms(2) True, of "mark_free_frame f s"] by (simp add: mark_free_frame_def)
  then have "pmm_used_frame_count s - 1 = of_nat (used_count (mark_free_frame f s))"
    using assms(1) of_nat_Suc_minus by (metis pmm_inv_def)
  then show ?thesis using True by (simp add: pmm_inv_def mark_free_frame_def)
qed (simp add: mark_free_frame_def assms)

lemma fold_range_inv:
  assumes "\<And>f s. pmm_inv s \<Longrightarrow> f < MAX_FRAMES \<Longrightarrow> pmm_inv (g f s)" "pmm_inv s"
  shows "pmm_inv (fold g (frame_range a b) s)"
proof -
  have "pmm_inv (fold g xs s)" if "\<forall>x \<in> set xs. x < MAX_FRAMES" "pmm_inv s" for xs s
    using that assms(1) by (induction xs arbitrary: s) auto
  then show ?thesis using assms(2) by (simp add: frame_range_def)
qed

lemma pmm_mark_inv:
  "pmm_inv s \<Longrightarrow> pmm_inv (pmm_mark_used a n s)" "pmm_inv s \<Longrightarrow> pmm_inv (pmm_mark_free a n s)"
  unfolding pmm_mark_used_def pmm_mark_free_def by (auto intro!: fold_range_inv mark_used_inv mark_free_inv)

lemma pmm_inv_total [simp]: "pmm_inv (s\<lparr>pmm_total_frame_count := t\<rparr>) = pmm_inv s"
  by (simp add: pmm_inv_def used_count_def pmm_test_bit_def)

lemma pmm_init_inv:
  assumes "pmm_init mmap kend bm s = Some s'"
  shows "pmm_inv s'"
proof -
  let ?s1 = "s\<lparr>pmm_bitmap := \<lambda>_. 0xFF, pmm_used_frame_count := of_nat MAX_FRAMES\<rparr>"
  have "pmm_test_bit f ?s1" for f
    using byte_full_iff [of "0xFF"] by (simp add: test_bit_eq)
  then have "used_count ?s1 = MAX_FRAMES" unfolding used_count_def by (intro cells_all)
  then have "pmm_inv ?s1" by (simp add: pmm_inv_def)
  moreover have "pmm_inv (fold pmm_init_entry es t)" if "pmm_inv t" for es t
    using that by (induction es arbitrary: t) (auto simp: pmm_init_entry_def Let_def pmm_mark_inv)
  ultimately show ?thesis
    using assms by (auto simp: pmm_init_def Let_def intro!: pmm_mark_inv split: option.splits)
qed

section \<open>Addresses of frames\<close>

definition frame_addr :: "nat \<Rightarrow> u64" where
  "frame_addr f = of_nat f * PMM_FRAME_SIZE"

lemma frame_of_addr [simp]:
  assumes "f < MAX_FRAMES"
  shows "unat (frame_addr f div PMM_FRAME_SIZE) = f"
proof -
  have "unat (frame_addr f) = f * 0x1000"
    using assms unat_of_nat_u64 [of "f * 0x1000"] by (simp add: frame_addr_def MAX_FRAMES_def)
  then show ?thesis by (simp add: unat_div)
qed

lemma frame_addr_inj: "f < MAX_FRAMES \<Longrightarrow> g < MAX_FRAMES \<Longrightarrow> frame_addr f = frame_addr g \<longleftrightarrow> f = g"
  by (metis frame_of_addr)

lemma alloc_frame_cases:
  "pmm_alloc_frame s = (case for_find (\<lambda>f. \<not> pmm_test_bit f s) 0 MAX_FRAMES of
     None \<Rightarrow> (0, s) | Some f \<Rightarrow> (frame_addr f, take_frame f s))"
  by (simp add: pmm_alloc_frame_def pmm_scan_first frame_addr_def split: option.splits)

section \<open>Properties\<close>


text \<open>Frames 0 to 255 in use, the others free: a machine after start-up in miniature.\<close>

definition pmm_demo :: pmm_st where
  "pmm_demo = \<lparr>tick_count = 0, pmm_bitmap = (\<lambda>b. if b < 32 then 0xFF else 0), pmm_refcounts = \<lambda>_. 0,
     pmm_total_frame_count = 0x100000, pmm_used_frame_count = 256\<rparr>"

lemma demo_test: "pmm_test_bit f pmm_demo \<longleftrightarrow> f < 256"
proof -
  have "f div 8 < 32 \<longleftrightarrow> f < 256" by (simp add: div_less_iff_less_mult)
  then show ?thesis using byte_full_iff [of "0xFF"] by (simp add: test_bit_eq pmm_demo_def)
qed

lemma pmm_demo_inv: "pmm_inv pmm_demo"
proof -
  have "{f. f < MAX_FRAMES \<and> f < 256} = {..<256}" by (auto simp: MAX_FRAMES_def)
  then show ?thesis by (simp add: pmm_inv_def used_count_def cells_def demo_test) (simp add: pmm_demo_def)
qed

lemma pmm_demo_first: "for_find (\<lambda>f. \<not> pmm_test_bit f pmm_demo) 0 MAX_FRAMES = Some 256"
  by (simp add: for_find_Some_iff demo_test MAX_FRAMES_def)


lemma take_frames_effect:
  assumes "pmm_inv s" "a \<le> b" "b \<le> MAX_FRAMES" "\<And>i. a \<le> i \<Longrightarrow> i < b \<Longrightarrow> \<not> pmm_test_bit i s"
  shows "(\<forall>g. pmm_test_bit g (fold take_frame [a..<b] s) \<longleftrightarrow> a \<le> g \<and> g < b \<or> pmm_test_bit g s) \<and>
    (\<forall>g. pmm_refcounts (fold take_frame [a..<b] s) g = (if a \<le> g \<and> g < b then 1 else pmm_refcounts s g)) \<and>
    pmm_inv (fold take_frame [a..<b] s)"
  using assms
proof (induction b)
  case (Suc b)
  show ?case
  proof (cases "a = Suc b")
    case True
    then show ?thesis using Suc.prems(1) by auto
  next
    case False
    then have IH: "(\<forall>g. pmm_test_bit g (fold take_frame [a..<b] s) \<longleftrightarrow> a \<le> g \<and> g < b \<or> pmm_test_bit g s) \<and>
        (\<forall>g. pmm_refcounts (fold take_frame [a..<b] s) g = (if a \<le> g \<and> g < b then 1 else pmm_refcounts s g)) \<and>
        pmm_inv (fold take_frame [a..<b] s)" using Suc by simp
    have "\<not> pmm_test_bit b (fold take_frame [a..<b] s)" using IH Suc.prems(4) [of b] False Suc.prems(2) by simp
    then show ?thesis using IH Suc.prems False by (auto simp: take_frame_inv less_Suc_eq)
  qed
qed simp

text \<open>
  C19: \<open>pmm_alloc_frames\<close> for two or more frames finds the lowest run of that many contiguous free
  frames and takes exactly those, each with one reference; it returns NULL, changing
  nothing, exactly when there is no such run.
\<close>

theorem pmm_alloc_frames_spec:
  assumes "pmm_inv s" "2 \<le> count"
  shows "if \<exists>st. is_run count st s
    then \<exists>st. is_run count st s \<and> (\<forall>st'. is_run count st' s \<longrightarrow> st \<le> st') \<and>
      fst (pmm_alloc_frames count s) = frame_addr st \<and> pmm_inv (snd (pmm_alloc_frames count s)) \<and>
      (\<forall>g. pmm_test_bit g (snd (pmm_alloc_frames count s)) \<longleftrightarrow> st \<le> g \<and> g < st + count \<or> pmm_test_bit g s) \<and>
      (\<forall>g. pmm_refcounts (snd (pmm_alloc_frames count s)) g = (if st \<le> g \<and> g < st + count then 1 else pmm_refcounts s g))
    else pmm_alloc_frames count s = (0, s)"
proof -
  have spec: "case find_run count 0 0 0 s of None \<Rightarrow> \<forall>st. \<not> is_run count st s
    | Some st \<Rightarrow> is_run count st s \<and> (\<forall>st'. is_run count st' s \<longrightarrow> st \<le> st')"
    using assms(2) by (intro find_run_spec) auto
  show ?thesis
  proof (cases "find_run count 0 0 0 s")
    case None
    then show ?thesis using spec assms(2) by (simp add: pmm_alloc_frames_def)
  next
    case (Some st)
    then have run: "is_run count st s" "\<forall>st'. is_run count st' s \<longrightarrow> st \<le> st'" using spec by simp_all
    have eq: "pmm_alloc_frames count s = (frame_addr st, fold take_frame [st..<st + count] s)"
      using Some assms(2) by (simp add: pmm_alloc_frames_def frame_addr_def)
    have "st \<le> st + count" "st + count \<le> MAX_FRAMES" "\<And>i. st \<le> i \<Longrightarrow> i < st + count \<Longrightarrow> \<not> pmm_test_bit i s"
      using run(1) by (auto simp: is_run_def)
    from take_frames_effect [OF assms(1) this] run eq show ?thesis by auto
  qed
qed

theorem pmm_alloc_frames_spec_witness: "fst (pmm_alloc_frames 3 pmm_demo) = 0x100000"
proof -
  have run: "is_run 3 256 pmm_demo" by (simp add: is_run_def demo_test MAX_FRAMES_def)
  obtain st where st: "is_run 3 st pmm_demo" "\<forall>st'. is_run 3 st' pmm_demo \<longrightarrow> st \<le> st'"
      "fst (pmm_alloc_frames 3 pmm_demo) = frame_addr st"
    using pmm_alloc_frames_spec [OF pmm_demo_inv, of 3] run by (auto split: if_splits)
  have "256 \<le> st" using st(1) by (auto simp: is_run_def demo_test not_less)
  with st(2) run have "st = 256" by (simp add: antisym)
  with st(3) show ?thesis by (simp add: frame_addr_def)
qed

section \<open>Sharing\<close>

lemma ref_frame_eq:
  assumes "f < MAX_FRAMES"
  shows "pmm_ref_frame (frame_addr f) s = (if pmm_refcounts s f < 255 then pmm_set_ref f (pmm_refcounts s f + 1) s else s)"
  using frame_of_addr [OF assms] assms by (simp add: pmm_ref_frame_def Let_def)

lemma free_frame_eq:
  assumes "f < MAX_FRAMES"
  shows "pmm_free_frame (frame_addr f) s =
    (if \<not> pmm_test_bit f s then s
     else if pmm_refcounts s f > 1 then pmm_set_ref f (pmm_refcounts s f - 1) s
     else pmm_used_dec (pmm_clear_bit f (pmm_set_ref f 0 s)))"
  using frame_of_addr [OF assms] assms by (simp add: pmm_free_frame_def Let_def)

text \<open>The count after \<open>n\<close> references: it stops at 255.\<close>

lemma unat_u8_inc: "(w :: u8) < 255 \<Longrightarrow> unat (w + 1) = Suc (unat w)"
  by (rule unat_Suc_no_wrap) auto

lemma refs_count:
  assumes "f < MAX_FRAMES" "unat (pmm_refcounts s f) = 1"
  shows "unat (pmm_refcounts ((pmm_ref_frame (frame_addr f) ^^ n) s) f) = min 255 (Suc n) \<and>
    (\<forall>g. pmm_test_bit g ((pmm_ref_frame (frame_addr f) ^^ n) s) = pmm_test_bit g s)"
proof (induction n)
  case (Suc n)
  define t where "t = (pmm_ref_frame (frame_addr f) ^^ n) s"
  have t: "unat (pmm_refcounts t f) = min 255 (Suc n)" "\<forall>g. pmm_test_bit g t = pmm_test_bit g s"
    using Suc by (simp_all add: t_def)
  have "unat (pmm_refcounts (pmm_ref_frame (frame_addr f) t) f) = min 255 (Suc (Suc n))"
    using t(1) unat_u8_inc [of "pmm_refcounts t f"]
    by (auto simp: ref_frame_eq [OF assms(1)] word_less_nat_alt min_def split: if_splits)
  moreover have "\<forall>g. pmm_test_bit g (pmm_ref_frame (frame_addr f) t) = pmm_test_bit g s"
    using t(2) by (simp add: ref_frame_eq [OF assms(1)])
  ultimately show ?case unfolding funpow.simps comp_apply t_def by simp
qed (use assms in simp)

lemma frees_count:
  assumes "f < MAX_FRAMES" "pmm_test_bit f s" "k < unat (pmm_refcounts s f)"
  shows "unat (pmm_refcounts ((pmm_free_frame (frame_addr f) ^^ k) s) f) = unat (pmm_refcounts s f) - k \<and>
    pmm_test_bit f ((pmm_free_frame (frame_addr f) ^^ k) s)"
  using assms(3)
proof (induction k)
  case (Suc k)
  define t where "t = (pmm_free_frame (frame_addr f) ^^ k) s"
  have t: "unat (pmm_refcounts t f) = unat (pmm_refcounts s f) - k" "pmm_test_bit f t" using Suc by (simp_all add: t_def)
  with Suc.prems have gt: "pmm_refcounts t f > 1" by (simp add: word_less_nat_alt)
  then have "unat (pmm_refcounts t f - 1) = unat (pmm_refcounts t f) - 1" by (intro unat_minus_1) auto
  with t gt have "unat (pmm_refcounts (pmm_free_frame (frame_addr f) t) f) = unat (pmm_refcounts s f) - Suc k \<and>
      pmm_test_bit f (pmm_free_frame (frame_addr f) t)" by (simp add: free_frame_eq [OF assms(1)])
  then show ?case unfolding funpow.simps comp_apply t_def by simp
qed (use assms in simp)

lemma frees_release:
  assumes "f < MAX_FRAMES" "pmm_test_bit f s" "unat (pmm_refcounts s f) = Suc k"
  shows "\<not> pmm_test_bit f ((pmm_free_frame (frame_addr f) ^^ Suc k) s)"
proof -
  define t where "t = (pmm_free_frame (frame_addr f) ^^ k) s"
  have t: "unat (pmm_refcounts t f) = 1" "pmm_test_bit f t"
    using frees_count [OF assms(1,2), of k] assms(3) by (simp_all add: t_def)
  then have "\<not> pmm_refcounts t f > 1" by (simp add: word_less_nat_alt)
  with t have "\<not> pmm_test_bit f (pmm_free_frame (frame_addr f) t)" by (simp add: free_frame_eq [OF assms(1)])
  then show ?thesis unfolding funpow.simps comp_apply t_def by simp
qed

text \<open>
  C20: reference counting of a shared frame, below saturation. A freshly allocated frame that was
  referenced \<open>n\<close> more times, at most 254, stays in use for \<open>n\<close> frees and is released by the next one.
\<close>

theorem pmm_shared_frame:
  fixes s0 :: "'a pmm_st_scheme"
  assumes "f < MAX_FRAMES" "n \<le> 254" "k \<le> n"
  defines "s \<equiv> (pmm_ref_frame (frame_addr f) ^^ n) (take_frame f s0)"
  shows "pmm_test_bit f ((pmm_free_frame (frame_addr f) ^^ k) s) \<and>
    \<not> pmm_test_bit f ((pmm_free_frame (frame_addr f) ^^ Suc n) s)"
proof -
  have s: "unat (pmm_refcounts s f) = Suc n" "pmm_test_bit f s"
    using refs_count [OF assms(1), of "take_frame f s0" n] assms(2) by (simp_all add: s_def)
  show ?thesis using frees_count [OF assms(1) s(2), of k] frees_release [OF assms(1) s(2,1)] assms(3) s(1) by simp
qed

theorem pmm_shared_frame_witness:
  "pmm_test_bit 256 ((pmm_free_frame (frame_addr 256) ^^ 2) ((pmm_ref_frame (frame_addr 256) ^^ 2) (take_frame 256 pmm_demo)))"
  using pmm_shared_frame [of 256 2 2 pmm_demo] by (simp add: MAX_FRAMES_def)

text \<open>
  C21: beyond saturation the count is lost. A frame that was referenced 255 or more times besides its
  allocation is released by the 255th free, although \<open>n - 254\<close> users still hold it.
\<close>

theorem pmm_refcount_saturation:
  assumes "f < MAX_FRAMES" "255 \<le> n"
  shows "\<not> pmm_test_bit f ((pmm_free_frame (frame_addr f) ^^ 255) ((pmm_ref_frame (frame_addr f) ^^ n) (take_frame f s0)))"
proof -
  let ?s = "(pmm_ref_frame (frame_addr f) ^^ n) (take_frame f s0)"
  have s: "unat (pmm_refcounts ?s f) = Suc 254" "pmm_test_bit f ?s"
    using refs_count [OF assms(1), of "take_frame f s0" n] assms(2) by simp_all
  have "255 = Suc 254" by simp
  with frees_release [OF assms(1) s(2,1)] show ?thesis by (simp only: not_False_eq_True)
qed

theorem pmm_refcount_saturation_witness:
  "\<not> pmm_test_bit 256 ((pmm_free_frame (frame_addr 256) ^^ 255) ((pmm_ref_frame (frame_addr 256) ^^ 300) (take_frame 256 pmm_demo)))"
  by (rule pmm_refcount_saturation) (simp_all add: MAX_FRAMES_def)

text \<open>
  After \<open>pmm_init\<close>, \<open>pmm_free_frames_count\<close> is the number of free frames only if the memory map
  covers all 4 GB. The used counter starts from all tracked frames but the total only counts the
  available ones, so the result is short by the frames that are not available memory, and wraps
  around when that is more than the free frames.
\<close>

theorem pmm_free_count_offset:
  assumes "pmm_init mmap kend bm s0 = Some s"
  shows "pmm_free_frames_count s = of_nat (free_count s) \<longleftrightarrow> pmm_total_frame_count s = of_nat MAX_FRAMES"
proof -
  have "pmm_used_frame_count s + of_nat (free_count s) = of_nat MAX_FRAMES"
    using pmm_init_inv [OF assms] used_free [of s] by (metis of_nat_add pmm_inv_def)
  then have "pmm_used_frame_count s = of_nat MAX_FRAMES - of_nat (free_count s)" by (simp add: algebra_simps)
  then show ?thesis by (auto simp: pmm_free_frames_count_def algebra_simps)
qed

theorem pmm_free_count_offset_witness:
  "\<exists>s. pmm_init (Some []) 0x200000 0xFFFFFFFF80300000 pmm_demo = Some s \<and>
     (pmm_free_frames_count s = of_nat (free_count s) \<longleftrightarrow> pmm_total_frame_count s = of_nat MAX_FRAMES)"
proof -
  obtain s where "pmm_init (Some []) 0x200000 0xFFFFFFFF80300000 pmm_demo = Some s" by (simp add: pmm_init_def Let_def)
  with pmm_free_count_offset [OF this] show ?thesis by blast
qed

end
