(* ===== verification/Vmm.thy ===== *)
theory Vmm
  imports Pmm
begin

text \<open>
  The virtual memory manager, \<open>memory/vmm.c\<close>: four-level page tables in frames of the physical
  memory manager, address spaces that share the kernel half, copy-on-write cloning and
  the resolution of write faults on shared pages.

  Memory is modelled by 4 KB pages: \<open>page s p\<close> is the page at the kernel virtual address \<open>p\<close>, read as
  512 words. Page tables and the data pages they map live in the same memory, so copying
  a page and writing a table entry act on one store. Flushing the translation buffer has no
  effect in this model.
\<close>

section \<open>State\<close>

abbreviation (input) PTE_PRESENT :: u64 where "PTE_PRESENT \<equiv> 0x1"
abbreviation (input) PTE_WRITABLE :: u64 where "PTE_WRITABLE \<equiv> 0x2"
abbreviation (input) PTE_USER :: u64 where "PTE_USER \<equiv> 0x4"
abbreviation (input) PTE_HUGE :: u64 where "PTE_HUGE \<equiv> 0x80"
abbreviation (input) PTE_GLOBAL :: u64 where "PTE_GLOBAL \<equiv> 0x100"
abbreviation (input) PTE_COW :: u64 where "PTE_COW \<equiv> 0x200"
abbreviation (input) PTE_GUARD :: u64 where "PTE_GUARD \<equiv> 0x400"
abbreviation (input) PTE_ADDR_MASK :: u64 where "PTE_ADDR_MASK \<equiv> 0x000FFFFFFFFFF000"
abbreviation (input) PTE_FLAGS_MASK :: u64 where "PTE_FLAGS_MASK \<equiv> NOT 0x000FFFFFFFFFF000"
abbreviation (input) HUGE_MASK :: u64 where "HUGE_MASK \<equiv> NOT 0x1FFFFF"

record vmm_st = pmm_st +
  kernel_pml4 :: u64
  kernel_pml4_phys :: u64
  cr3 :: u64
  page :: "u64 \<Rightarrow> nat \<Rightarrow> u64"

definition PHYS_TO_VIRT :: "u64 \<Rightarrow> u64" where
  "PHYS_TO_VIRT addr = addr + KERNEL_VMA_BASE"

definition virt_to_phys_kernel :: "u64 \<Rightarrow> u64" where
  "virt_to_phys_kernel vaddr = vaddr - KERNEL_VMA_BASE"

definition PML4_INDEX :: "u64 \<Rightarrow> nat" where "PML4_INDEX vaddr = unat (drop_bit 39 vaddr AND 0x1FF)"
definition PDPT_INDEX :: "u64 \<Rightarrow> nat" where "PDPT_INDEX vaddr = unat (drop_bit 30 vaddr AND 0x1FF)"
definition PD_INDEX :: "u64 \<Rightarrow> nat" where "PD_INDEX vaddr = unat (drop_bit 21 vaddr AND 0x1FF)"
definition PT_INDEX :: "u64 \<Rightarrow> nat" where "PT_INDEX vaddr = unat (drop_bit 12 vaddr AND 0x1FF)"

text \<open>\<open>entry & flag\<close> as a condition, and a write to \<open>table->entries[idx]\<close>.\<close>

definition has :: "u64 \<Rightarrow> u64 \<Rightarrow> bool" where
  "has entry flag \<longleftrightarrow> entry AND flag \<noteq> 0"

definition set_entry :: "u64 \<Rightarrow> nat \<Rightarrow> u64 \<Rightarrow> 'a vmm_st_scheme \<Rightarrow> 'a vmm_st_scheme" where
  "set_entry table idx v s = s\<lparr>page := (page s)(table := (page s table)(idx := v))\<rparr>"

definition set_page :: "u64 \<Rightarrow> (nat \<Rightarrow> u64) \<Rightarrow> 'a vmm_st_scheme \<Rightarrow> 'a vmm_st_scheme" where
  "set_page p c s = s\<lparr>page := (page s)(p := c)\<rparr>"

text \<open>The table an entry points to.\<close>

definition entry_table :: "u64 \<Rightarrow> u64" where
  "entry_table e = PHYS_TO_VIRT (e AND PTE_ADDR_MASK)"

section \<open>Page tables\<close>

definition alloc_page_table :: "'a vmm_st_scheme \<Rightarrow> u64 \<times> 'a vmm_st_scheme" where
  "alloc_page_table s =
     (let (phys, s1) = pmm_alloc_frame s in
      if phys = 0 then (0, s1)
      else (let virt = PHYS_TO_VIRT phys in (virt, set_page virt (\<lambda>_. 0) s1)))"

definition get_or_create_table :: "u64 \<Rightarrow> nat \<Rightarrow> u64 \<Rightarrow> 'a vmm_st_scheme \<Rightarrow> u64 \<times> 'a vmm_st_scheme" where
  "get_or_create_table parent idx flags s =
     (let e = page s parent idx in
      if has e PTE_PRESENT then
        if has e PTE_HUGE then (0, s) else (entry_table e, s)
      else
        (let (child, s1) = alloc_page_table s in
         if child = 0 then (0, s1)
         else (child, set_entry parent idx (virt_to_phys_kernel child OR flags) s1)))"

text \<open>The result is the C return value, 0 or -1.\<close>

definition vmm_map_page :: "u64 \<Rightarrow> u64 \<Rightarrow> u64 \<Rightarrow> u64 \<Rightarrow> 'a vmm_st_scheme \<Rightarrow> int \<times> 'a vmm_st_scheme" where
  "vmm_map_page pml4 vaddr paddr flags s =
     (let huge = has flags PTE_HUGE;
          entry_flags = PTE_PRESENT OR PTE_WRITABLE OR (if has flags PTE_USER then PTE_USER else 0);
          (pdpt, s1) = get_or_create_table pml4 (PML4_INDEX vaddr) entry_flags s in
      if pdpt = 0 then (-1, s1)
      else
        (let (pd, s2) = get_or_create_table pdpt (PDPT_INDEX vaddr) entry_flags s1 in
         if pd = 0 then (-1, s2)
         else if huge then
           (0, set_entry pd (PD_INDEX vaddr) ((paddr AND HUGE_MASK) OR flags OR PTE_PRESENT) s2)
         else
           (let (pt, s3) = get_or_create_table pd (PD_INDEX vaddr) entry_flags s2 in
            if pt = 0 then (-1, s3)
            else (0, set_entry pt (PT_INDEX vaddr) ((paddr AND PTE_ADDR_MASK) OR flags OR PTE_PRESENT) s3))))"

text \<open>\<open>vmm_init\<close>: the loop over the first 4 GB in steps of 2 MB; None is the kernel panic.\<close>

definition vmm_init_step :: "u64 \<Rightarrow> nat \<Rightarrow> 'a vmm_st_scheme \<Rightarrow> 'a vmm_st_scheme" where
  "vmm_init_step pml4 n s =
     (let addr = of_nat n * 0x200000;
          flags = PTE_PRESENT OR PTE_WRITABLE OR PTE_GLOBAL OR PTE_HUGE;
          s1 = snd (vmm_map_page pml4 addr addr flags s)
      in if addr < 0x80000000 then snd (vmm_map_page pml4 (KERNEL_VMA_BASE + addr) addr flags s1) else s1)"

definition vmm_init :: "'a vmm_st_scheme \<Rightarrow> 'a vmm_st_scheme option" where
  "vmm_init s =
     (let (pml4, s1) = alloc_page_table s in
      if pml4 = 0 then None
      else
        (let phys = virt_to_phys_kernel pml4;
             s2 = fold (vmm_init_step pml4) [0..<2048] (s1\<lparr>kernel_pml4 := pml4, kernel_pml4_phys := phys\<rparr>)
         in Some (s2\<lparr>cr3 := phys\<rparr>)))"

definition vmm_unmap_page :: "u64 \<Rightarrow> u64 \<Rightarrow> 'a vmm_st_scheme \<Rightarrow> int \<times> 'a vmm_st_scheme" where
  "vmm_unmap_page pml4 vaddr s =
     (let e4 = page s pml4 (PML4_INDEX vaddr); pdpt = entry_table e4 in
      if pdpt = 0 \<or> \<not> has e4 PTE_PRESENT then (-1, s)
      else
        (let e3 = page s pdpt (PDPT_INDEX vaddr); pd = entry_table e3 in
         if pd = 0 \<or> \<not> has e3 PTE_PRESENT then (-1, s)
         else
           (let pd_entry = page s pd (PD_INDEX vaddr) in
            if \<not> has pd_entry PTE_PRESENT then (-1, s)
            else if has pd_entry PTE_HUGE then (0, set_entry pd (PD_INDEX vaddr) 0 s)
            else
              (let pt = entry_table pd_entry in
               if pt = 0 then (-1, s) else (0, set_entry pt (PT_INDEX vaddr) 0 s)))))"

definition vmm_get_physical :: "u64 \<Rightarrow> u64 \<Rightarrow> 'a vmm_st_scheme \<Rightarrow> u64" where
  "vmm_get_physical pml4 vaddr s =
     (let e4 = page s pml4 (PML4_INDEX vaddr) in
      if \<not> has e4 PTE_PRESENT then 0
      else
        (let e3 = page s (entry_table e4) (PDPT_INDEX vaddr) in
         if \<not> has e3 PTE_PRESENT then 0
         else
           (let e2 = page s (entry_table e3) (PD_INDEX vaddr) in
            if \<not> has e2 PTE_PRESENT then 0
            else if has e2 PTE_HUGE then (e2 AND HUGE_MASK) OR (vaddr AND 0x1FFFFF)
            else
              (let e1 = page s (entry_table e2) (PT_INDEX vaddr) in
               if \<not> has e1 PTE_PRESENT then 0 else (e1 AND PTE_ADDR_MASK) OR (vaddr AND 0xFFF)))))"

text \<open>
  \<open>vmm_map_range\<close>: one step per page. The offset does not wrap as long as the aligned size is
  a 64-bit value, so the loop runs once for each page.
\<close>

primrec map_pages :: "nat \<Rightarrow> u64 \<Rightarrow> u64 \<Rightarrow> u64 \<Rightarrow> u64 \<Rightarrow> 'a vmm_st_scheme \<Rightarrow> int \<times> 'a vmm_st_scheme" where
  "map_pages 0 pml4 vaddr paddr flags s = (0, s)"
| "map_pages (Suc n) pml4 vaddr paddr flags s =
     (let (r, s1) = vmm_map_page pml4 vaddr paddr flags s in
      if r \<noteq> 0 then (-1, s1) else map_pages n pml4 (vaddr + 0x1000) (paddr + 0x1000) flags s1)"

definition vmm_map_range :: "u64 \<Rightarrow> u64 \<Rightarrow> u64 \<Rightarrow> u64 \<Rightarrow> u64 \<Rightarrow> 'a vmm_st_scheme \<Rightarrow> int \<times> 'a vmm_st_scheme" where
  "vmm_map_range pml4 vaddr paddr sz flags s =
     map_pages (unat (ALIGN_UP sz 0x1000 div 0x1000)) pml4 vaddr paddr flags s"

section \<open>Address spaces\<close>

definition vmm_create_address_space :: "'a vmm_st_scheme \<Rightarrow> u64 \<times> 'a vmm_st_scheme" where
  "vmm_create_address_space s =
     (let (pml4, s1) = alloc_page_table s in
      if pml4 = 0 then (0, s1)
      else (pml4, fold (\<lambda>i t. set_entry pml4 i (page t (kernel_pml4 t) i) t) [256..<512] s1))"

definition destroy_pt :: "u64 \<Rightarrow> 'a vmm_st_scheme \<Rightarrow> 'a vmm_st_scheme" where
  "destroy_pt pde s =
     (let pt = entry_table pde;
          s1 = fold (\<lambda>l t. if has (page t pt l) PTE_PRESENT
                           then pmm_free_frame (page t pt l AND PTE_ADDR_MASK) t else t) [0..<512] s
      in pmm_free_frame (pde AND PTE_ADDR_MASK) s1)"

definition destroy_pd :: "u64 \<Rightarrow> 'a vmm_st_scheme \<Rightarrow> 'a vmm_st_scheme" where
  "destroy_pd pd s =
     fold (\<lambda>k t. let pde = page t pd k in
        if \<not> has pde PTE_PRESENT then t
        else if has pde PTE_HUGE then pmm_free_frames (pde AND HUGE_MASK) 512 t
        else destroy_pt pde t) [0..<512] s"

definition destroy_pdpt :: "u64 \<Rightarrow> 'a vmm_st_scheme \<Rightarrow> 'a vmm_st_scheme" where
  "destroy_pdpt pdpt s =
     fold (\<lambda>j t. if \<not> has (page t pdpt j) PTE_PRESENT then t
        else (let t1 = destroy_pd (entry_table (page t pdpt j)) t
              in pmm_free_frame (page t1 pdpt j AND PTE_ADDR_MASK) t1)) [0..<512] s"

definition vmm_destroy_address_space :: "u64 \<Rightarrow> 'a vmm_st_scheme \<Rightarrow> 'a vmm_st_scheme" where
  "vmm_destroy_address_space pml4 s =
     (let s1 = fold (\<lambda>i t. if \<not> has (page t pml4 i) PTE_PRESENT then t
            else (let t1 = destroy_pdpt (entry_table (page t pml4 i)) t
                  in pmm_free_frame (page t1 pml4 i AND PTE_ADDR_MASK) t1)) [0..<256] s
      in pmm_free_frame (virt_to_phys_kernel pml4) s1)"

definition vmm_switch_address_space :: "u64 \<Rightarrow> 'a vmm_st_scheme \<Rightarrow> 'a vmm_st_scheme" where
  "vmm_switch_address_space pml4 s = s\<lparr>cr3 := virt_to_phys_kernel pml4\<rparr>"

definition vmm_current_address_space :: "'a vmm_st_scheme \<Rightarrow> u64" where
  "vmm_current_address_space s = PHYS_TO_VIRT (cr3 s)"

text \<open>
  The page table entry of an address, reached through present entries only and not through a 2 MB
  page: the table and the index. Both cases of the fault handler make this walk.
\<close>

definition fault_walk :: "u64 \<Rightarrow> u64 \<Rightarrow> 'a vmm_st_scheme \<Rightarrow> (u64 \<times> nat) option" where
  "fault_walk pml4 vaddr s =
     (let e4 = page s pml4 (PML4_INDEX vaddr) in
      if \<not> has e4 PTE_PRESENT then None
      else
        (let e3 = page s (entry_table e4) (PDPT_INDEX vaddr) in
         if \<not> has e3 PTE_PRESENT then None
         else
           (let e2 = page s (entry_table e3) (PD_INDEX vaddr) in
            if has e2 PTE_PRESENT \<and> \<not> has e2 PTE_HUGE then Some (entry_table e2, PT_INDEX vaddr) else None)))"

text \<open>What the handler does for a write to a present page.\<close>

datatype cow_result = Cow_resolved | Cow_none | Cow_oom

definition cow_break :: "u64 \<Rightarrow> u64 \<Rightarrow> 'a vmm_st_scheme \<Rightarrow> cow_result \<times> 'a vmm_st_scheme" where
  "cow_break pml4 fault_addr s =
     (case fault_walk pml4 fault_addr s of
        None \<Rightarrow> (Cow_none, s)
      | Some (pt, i) \<Rightarrow>
          (let pte = page s pt i in
           if has pte PTE_COW \<and> has pte PTE_PRESENT then
             (let old_phys = pte AND PTE_ADDR_MASK in
              if pmm_get_refcount old_phys s = 1 then
                (Cow_resolved, set_entry pt i ((pte AND NOT PTE_COW) OR PTE_WRITABLE) s)
              else
                (let (new_phys, s1) = pmm_alloc_frame s in
                 if new_phys = 0 then (Cow_oom, s1)
                 else
                   (let s2 = set_page (PHYS_TO_VIRT new_phys) (page s1 (PHYS_TO_VIRT old_phys)) s1;
                        s3 = set_entry pt i ((new_phys AND PTE_ADDR_MASK)
                               OR (pte AND PTE_FLAGS_MASK AND NOT PTE_COW) OR PTE_WRITABLE) s2
                    in (Cow_resolved, pmm_unref_frame old_phys s3))))
           else (Cow_none, s)))"

definition guard_hit :: "u64 \<Rightarrow> u64 \<Rightarrow> 'a vmm_st_scheme \<Rightarrow> bool" where
  "guard_hit pml4 fault_addr s =
     (case fault_walk pml4 fault_addr s of None \<Rightarrow> False | Some (pt, i) \<Rightarrow> has (page s pt i) PTE_GUARD)"

text \<open>
  \<open>vmm_clone_address_space\<close>: loops that stop at the first failure (the \<open>goto oom\<close> of the source).
\<close>

primrec loop_ok :: "('b \<Rightarrow> 's \<Rightarrow> bool \<times> 's) \<Rightarrow> 'b list \<Rightarrow> 's \<Rightarrow> bool \<times> 's" where
  "loop_ok f [] s = (True, s)"
| "loop_ok f (x # xs) s = (case f x s of (ok, s') \<Rightarrow> if ok then loop_ok f xs s' else (False, s'))"

definition clone_vaddr :: "nat \<Rightarrow> nat \<Rightarrow> nat \<Rightarrow> nat \<Rightarrow> u64" where
  "clone_vaddr i j k l = push_bit 39 (of_nat i) OR push_bit 30 (of_nat j) OR push_bit 21 (of_nat k)
     OR push_bit 12 (of_nat l)"

definition clone_pte :: "u64 \<Rightarrow> u64 \<Rightarrow> u64 \<Rightarrow> nat \<Rightarrow> 'a vmm_st_scheme \<Rightarrow> bool \<times> 'a vmm_st_scheme" where
  "clone_pte dst vaddr src_pt l s =
     (let pte = page s src_pt l in
      if \<not> has pte PTE_PRESENT then (True, s)
      else
        (let paddr = pte AND PTE_ADDR_MASK;
             cow_flags = (pte AND PTE_FLAGS_MASK AND NOT PTE_WRITABLE) OR PTE_COW;
             (r, s1) = vmm_map_page dst vaddr paddr cow_flags s in
         if r \<noteq> 0 then (False, s1)
         else (True, pmm_ref_frame paddr (set_entry src_pt l ((pte AND NOT PTE_WRITABLE) OR PTE_COW) s1))))"

definition clone_huge :: "u64 \<Rightarrow> u64 \<Rightarrow> u64 \<Rightarrow> 'a vmm_st_scheme \<Rightarrow> bool \<times> 'a vmm_st_scheme" where
  "clone_huge dst vaddr pde s =
     (let paddr = pde AND HUGE_MASK; (new_phys, s1) = pmm_alloc_frames 512 s in
      if new_phys = 0 then (False, s1)
      else
        (let s2 = fold (\<lambda>n t. set_page (PHYS_TO_VIRT (new_phys + of_nat n * 0x1000))
                              (page t (PHYS_TO_VIRT (paddr + of_nat n * 0x1000))) t) [0..<512] s1
         in (True, snd (vmm_map_page dst vaddr new_phys ((pde AND PTE_FLAGS_MASK) OR PTE_HUGE) s2))))"

definition clone_pd :: "u64 \<Rightarrow> nat \<Rightarrow> nat \<Rightarrow> u64 \<Rightarrow> nat \<Rightarrow> 'a vmm_st_scheme \<Rightarrow> bool \<times> 'a vmm_st_scheme" where
  "clone_pd dst i j src_pd k s =
     (let pde = page s src_pd k in
      if \<not> has pde PTE_PRESENT then (True, s)
      else if has pde PTE_HUGE then clone_huge dst (clone_vaddr i j k 0) pde s
      else loop_ok (\<lambda>l. clone_pte dst (clone_vaddr i j k l) (entry_table pde) l) [0..<512] s)"

definition clone_pdpt :: "u64 \<Rightarrow> nat \<Rightarrow> u64 \<Rightarrow> nat \<Rightarrow> 'a vmm_st_scheme \<Rightarrow> bool \<times> 'a vmm_st_scheme" where
  "clone_pdpt dst i src_pdpt j s =
     (let e = page s src_pdpt j in
      if \<not> has e PTE_PRESENT then (True, s) else loop_ok (clone_pd dst i j (entry_table e)) [0..<512] s)"

definition clone_pml4 :: "u64 \<Rightarrow> u64 \<Rightarrow> nat \<Rightarrow> 'a vmm_st_scheme \<Rightarrow> bool \<times> 'a vmm_st_scheme" where
  "clone_pml4 dst src i s =
     (let e = page s src i in
      if \<not> has e PTE_PRESENT then (True, s) else loop_ok (clone_pdpt dst i (entry_table e)) [0..<512] s)"

definition vmm_clone_address_space :: "u64 \<Rightarrow> 'a vmm_st_scheme \<Rightarrow> u64 \<times> 'a vmm_st_scheme" where
  "vmm_clone_address_space src s =
     (let (dst, s1) = vmm_create_address_space s in
      if dst = 0 then (0, s1)
      else
        (let (ok, s2) = loop_ok (clone_pml4 dst src) [0..<256] s1
         in if ok then (dst, s2) else (0, vmm_destroy_address_space dst s2)))"

definition vmm_map_guard_page :: "u64 \<Rightarrow> u64 \<Rightarrow> 'a vmm_st_scheme \<Rightarrow> int \<times> 'a vmm_st_scheme" where
  "vmm_map_guard_page pml4 vaddr s =
     (let entry_flags = PTE_PRESENT OR PTE_WRITABLE OR PTE_USER;
          (pdpt, s1) = get_or_create_table pml4 (PML4_INDEX vaddr) entry_flags s in
      if pdpt = 0 then (-1, s1)
      else
        (let (pd, s2) = get_or_create_table pdpt (PDPT_INDEX vaddr) entry_flags s1 in
         if pd = 0 then (-1, s2)
         else
           (let (pt, s3) = get_or_create_table pd (PD_INDEX vaddr) entry_flags s2 in
            if pt = 0 then (-1, s3) else (0, set_entry pt (PT_INDEX vaddr) PTE_GUARD s3))))"

section \<open>Entries and frames\<close>

lemma pmm_page [simp]:
  "page (take_frame f s) = page s" "page (pmm_free_frame a s) = page s" "page (pmm_ref_frame a s) = page s"
  "page (pmm_unref_frame a s) = page s"
  by (simp_all add: take_frame_def pmm_used_inc_def pmm_used_dec_def pmm_set_ref_def pmm_set_bit_def
      pmm_clear_bit_def pmm_free_frame_def pmm_ref_frame_def pmm_unref_frame_def Let_def)

lemma page_set [simp]:
  "page (set_entry t i v s) = (page s)(t := (page s t)(i := v))" "page (set_page p c s) = (page s)(p := c)"
  by (simp_all add: set_entry_def set_page_def)

lemma test_bit_set [simp]:
  "pmm_test_bit f (set_entry t i v s) = pmm_test_bit f s" "pmm_test_bit f (set_page p c s) = pmm_test_bit f s"
  by (simp_all add: set_entry_def set_page_def pmm_test_bit_def)

lemma addr_mask: "(PTE_ADDR_MASK :: u64) = push_bit 12 (mask 40)"
  by (simp add: mask_eq_exp_minus_1 push_bit_eq_mult)

lemma bit_addr_mask: "bit (PTE_ADDR_MASK :: u64) n \<longleftrightarrow> 12 \<le> n \<and> n < 52"
  unfolding addr_mask by (auto simp: bit_push_bit_iff bit_mask_iff)

lemma frame_addr_bits:
  assumes "f < MAX_FRAMES" "bit (frame_addr f) n"
  shows "12 \<le> n \<and> n < 52"
proof -
  have e: "frame_addr f = push_bit 12 (of_nat f)" by (simp add: frame_addr_def push_bit_eq_mult)
  have n: "bit (of_nat f :: u64) (n - 12)" "12 \<le> n" using assms(2) unfolding e by (auto simp: bit_push_bit_iff)
  then have "bit f (n - 12)" by (simp add: bit_of_nat_iff)
  moreover have "\<not> bit f (n - 12)" if "20 \<le> n - 12"
    using assms(1) that power_increasing [of 20 "n - 12" "2::nat"] by (simp add: bit_iff_odd MAX_FRAMES_def)
  ultimately show ?thesis using n(2) by linarith
qed

lemma frame_addr_mask [simp]: "f < MAX_FRAMES \<Longrightarrow> frame_addr f AND PTE_ADDR_MASK = frame_addr f"
  using frame_addr_bits [of f] by (intro bit_word_eqI) (auto simp only: bit_and_iff bit_addr_mask)

lemma mask_or: "flags AND PTE_ADDR_MASK = 0 \<Longrightarrow> (a OR flags) AND PTE_ADDR_MASK = a AND PTE_ADDR_MASK"
  by (simp add: bit.conj_disj_distrib2)

lemma virt_phys [simp]: "virt_to_phys_kernel (PHYS_TO_VIRT a) = a"
  by (simp add: virt_to_phys_kernel_def PHYS_TO_VIRT_def)

lemma virt_inj [simp]: "PHYS_TO_VIRT a = PHYS_TO_VIRT b \<longleftrightarrow> a = b"
  by (simp add: PHYS_TO_VIRT_def)

lemma has_or: "has (a OR b) c \<longleftrightarrow> has a c \<or> has b c"
  unfolding has_def by (auto simp: bit.conj_disj_distrib2 bit_eq_iff bit_simps)

lemma has_0 [simp]: "\<not> has 0 c"
  by (simp add: has_def)

section \<open>Well-formed page tables\<close>

text \<open>
  A tag gives each page table its level (4 for a PML4, 1 for the last level) and the part of the
  virtual address that leads to it. In well-formed tables every tagged page is a used frame, and
  a present entry leads to the table with the next tag, or is a 2 MB page in a level-2 table.
  Address spaces share kernel tables under one tag; within one address space no table
  is reached twice. No frame above 2 GB is free: for those \<open>PHYS_TO_VIRT\<close> wraps around to
  addresses that are not the kernel's view of the frame.
\<close>

type_synonym tagging = "u64 \<Rightarrow> (nat \<times> nat) option"

definition vmm_wf :: "tagging \<Rightarrow> 'a vmm_st_scheme \<Rightarrow> bool" where
  "vmm_wf tag s \<longleftrightarrow>
     (\<forall>p. tag p \<noteq> None \<longrightarrow> (\<exists>f. 0 < f \<and> f < MAX_FRAMES \<and> p = PHYS_TO_VIRT (frame_addr f) \<and> pmm_test_bit f s)) \<and>
     (\<forall>f. 0x80000 \<le> f \<longrightarrow> f < MAX_FRAMES \<longrightarrow> pmm_test_bit f s) \<and>
     (\<forall>p n pre i. tag p = Some (n, pre) \<longrightarrow> 1 < n \<longrightarrow> i < 512 \<longrightarrow> has (page s p i) PTE_PRESENT \<longrightarrow>
        (if has (page s p i) PTE_HUGE then n = 2
         else tag (entry_table (page s p i)) = Some (n - 1, pre * 512 + i)))"

lemma wf_frame: "vmm_wf tag s \<Longrightarrow> tag p = Some x \<Longrightarrow>
    \<exists>f. 0 < f \<and> f < MAX_FRAMES \<and> p = PHYS_TO_VIRT (frame_addr f) \<and> pmm_test_bit f s"
  unfolding vmm_wf_def by blast

lemma wf_entry: "vmm_wf tag s \<Longrightarrow> tag p = Some (n, pre) \<Longrightarrow> 1 < n \<Longrightarrow> i < 512 \<Longrightarrow>
    has (page s p i) PTE_PRESENT \<Longrightarrow>
    (if has (page s p i) PTE_HUGE then n = 2 else tag (entry_table (page s p i)) = Some (n - 1, pre * 512 + i))"
  unfolding vmm_wf_def by blast

lemma index_lt [simp]: "PML4_INDEX v < 512" "PDPT_INDEX v < 512" "PD_INDEX v < 512" "PT_INDEX v < 512"
proof -
  have "unat (w AND 0x1FF :: u64) < 512" for w :: u64
    using word_and_le1 [of w "0x1FF"] by (simp add: word_le_nat_alt)
  then show "PML4_INDEX v < 512" "PDPT_INDEX v < 512" "PD_INDEX v < 512" "PT_INDEX v < 512"
    by (simp_all add: PML4_INDEX_def PDPT_INDEX_def PD_INDEX_def PT_INDEX_def)
qed

text \<open>
  What an operation may do to the tables without changing a translation: turn an entry that was
  not present into a reference to an empty table.
\<close>

definition adds_tables :: "tagging \<Rightarrow> 'a vmm_st_scheme \<Rightarrow> 'a vmm_st_scheme \<Rightarrow> bool" where
  "adds_tables tag s s' \<longleftrightarrow> (\<forall>q n pre j. tag q = Some (n, pre) \<longrightarrow> page s' q j = page s q j \<or>
     1 < n \<and> \<not> has (page s q j) PTE_PRESENT \<and> \<not> has (page s' q j) PTE_HUGE
       \<and> page s' (entry_table (page s' q j)) = (\<lambda>_. 0))"

lemma adds_tables_refl: "page s' = page s \<Longrightarrow> adds_tables tag s s'"
  by (simp add: adds_tables_def)

lemma adds_tables_physical:
  assumes wf: "vmm_wf tag s" and p4: "tag pml4 = Some (4, 0)" and ad: "adds_tables tag s s'"
  shows "vmm_get_physical pml4 v s' = vmm_get_physical pml4 v s"
proof -
  let ?e4 = "page s pml4 (PML4_INDEX v)" and ?e4' = "page s' pml4 (PML4_INDEX v)"
  have step: "page s' q j = page s q j \<or> \<not> has (page s q j) PTE_PRESENT \<and> 1 < n
      \<and> \<not> has (page s' q j) PTE_HUGE \<and> page s' (entry_table (page s' q j)) = (\<lambda>_. 0)"
    if "tag q = Some (n, pre)" for q n pre j
    using ad that unfolding adds_tables_def by blast
  consider "\<not> has ?e4 PTE_PRESENT" | "has ?e4 PTE_PRESENT" by blast
  then show ?thesis
  proof cases
    case 1
    then show ?thesis using step [OF p4, of "PML4_INDEX v"] by (auto simp: vmm_get_physical_def Let_def)
  next
    case 2
    then have e4: "?e4' = ?e4" using step [OF p4] by blast
    have t3: "tag (entry_table ?e4) = Some (3, PML4_INDEX v)"
      using wf_entry [OF wf p4 _ _ 2] by (simp split: if_splits)
    let ?p3 = "entry_table ?e4" let ?e3 = "page s ?p3 (PDPT_INDEX v)"
    show ?thesis
    proof (cases "has ?e3 PTE_PRESENT")
      case False
      then show ?thesis using 2 e4 step [OF t3, of "PDPT_INDEX v"] by (auto simp: vmm_get_physical_def Let_def)
    next
      case e3p: True
      then have e3: "page s' ?p3 (PDPT_INDEX v) = ?e3" using step [OF t3] by blast
      have t2: "tag (entry_table ?e3) = Some (2, PML4_INDEX v * 512 + PDPT_INDEX v)"
        using wf_entry [OF wf t3 _ _ e3p] by (simp split: if_splits)
      let ?p2 = "entry_table ?e3" let ?e2 = "page s ?p2 (PD_INDEX v)"
      show ?thesis
      proof (cases "has ?e2 PTE_PRESENT")
        case False
        then show ?thesis using 2 e4 e3 e3p step [OF t2, of "PD_INDEX v"]
          by (auto simp: vmm_get_physical_def Let_def)
      next
        case e2p: True
        then have e2: "page s' ?p2 (PD_INDEX v) = ?e2" using step [OF t2] by blast
        show ?thesis
        proof (cases "has ?e2 PTE_HUGE")
          case True
          then show ?thesis using e4 e3 e2 by (simp add: vmm_get_physical_def Let_def)
        next
          case False
          then have "tag (entry_table ?e2) = Some (1, (PML4_INDEX v * 512 + PDPT_INDEX v) * 512 + PD_INDEX v)"
            using wf_entry [OF wf t2 _ _ e2p] by simp
          from step [OF this] have "page s' (entry_table ?e2) (PT_INDEX v) = page s (entry_table ?e2) (PT_INDEX v)"
            by blast
          then show ?thesis using e4 e3 e2 by (simp add: vmm_get_physical_def Let_def)
        qed
      qed
    qed
  qed
qed

lemma alloc_page_table_fresh:
  assumes "alloc_page_table s = (c, s')" "c \<noteq> 0"
  shows "\<exists>f. 0 < f \<and> f < MAX_FRAMES \<and> c = PHYS_TO_VIRT (frame_addr f) \<and> \<not> pmm_test_bit f s
    \<and> (\<forall>g. pmm_test_bit g s' \<longleftrightarrow> g = f \<or> pmm_test_bit g s) \<and> page s' = (page s)(c := \<lambda>_. 0)"
proof (cases "for_find (\<lambda>f. \<not> pmm_test_bit f s) 0 MAX_FRAMES")
  case None
  then show ?thesis using assms by (simp add: alloc_page_table_def alloc_frame_cases)
next
  case (Some f)
  then have f: "f < MAX_FRAMES" "\<not> pmm_test_bit f s" by (simp_all add: for_find_Some_iff)
  have "frame_addr f \<noteq> 0" using assms Some by (auto simp: alloc_page_table_def alloc_frame_cases)
  then have "0 < f" by (cases f) (auto simp: frame_addr_def)
  moreover have "c = PHYS_TO_VIRT (frame_addr f)" "s' = set_page c (\<lambda>_. 0) (take_frame f s)"
    using assms Some \<open>frame_addr f \<noteq> 0\<close> by (auto simp: alloc_page_table_def alloc_frame_cases Let_def)
  ultimately show ?thesis using f by auto
qed

lemma wf_low: "vmm_wf tag s \<Longrightarrow> f < MAX_FRAMES \<Longrightarrow> \<not> pmm_test_bit f s \<Longrightarrow> f < 0x80000"
  unfolding vmm_wf_def by (meson not_le)

lemma virt_nonzero:
  assumes "f < 0x80000"
  shows "PHYS_TO_VIRT (frame_addr f) \<noteq> 0"
proof
  assume "PHYS_TO_VIRT (frame_addr f) = 0"
  then have "frame_addr f = - KERNEL_VMA_BASE" by (simp add: PHYS_TO_VIRT_def add_eq_0_iff2)
  then have "frame_addr f = frame_addr 0x80000" by (simp add: frame_addr_def)
  then show False using assms frame_addr_inj [of f "0x80000"] by (simp add: MAX_FRAMES_def)
qed

lemma alloc_page_table_null:
  assumes "vmm_wf tag s" "alloc_page_table s = (0, s')"
  shows "page s' = page s" "\<forall>g. pmm_test_bit g s \<longrightarrow> pmm_test_bit g s'"
proof -
  have "page s' = page s \<and> (\<forall>g. pmm_test_bit g s \<longrightarrow> pmm_test_bit g s')"
  proof (cases "for_find (\<lambda>f. \<not> pmm_test_bit f s) 0 MAX_FRAMES")
    case None
    then show ?thesis using assms(2) by (simp add: alloc_page_table_def alloc_frame_cases)
  next
    case (Some f)
    then have "f < MAX_FRAMES" "\<not> pmm_test_bit f s" by (simp_all add: for_find_Some_iff)
    from virt_nonzero [OF wf_low [OF assms(1) this]] Some assms(2) show ?thesis
      by (auto simp: alloc_page_table_def alloc_frame_cases Let_def split: if_splits)
  qed
  then show "page s' = page s" "\<forall>g. pmm_test_bit g s \<longrightarrow> pmm_test_bit g s'" by auto
qed

lemma wf_tagged:
  assumes wf: "vmm_wf tag s" and p: "\<And>q x. tag q = Some x \<Longrightarrow> page s' q = page s q"
    and b: "\<And>g. pmm_test_bit g s \<Longrightarrow> pmm_test_bit g s'"
  shows "vmm_wf tag s'"
  unfolding vmm_wf_def
proof (intro conjI allI impI)
  fix q assume "tag q \<noteq> None"
  then show "\<exists>f. 0 < f \<and> f < MAX_FRAMES \<and> q = PHYS_TO_VIRT (frame_addr f) \<and> pmm_test_bit f s'"
    using wf_frame [OF wf] b by blast
next
  fix f :: nat assume "0x80000 \<le> f" "f < MAX_FRAMES"
  then show "pmm_test_bit f s'" using wf b unfolding vmm_wf_def by blast
next
  fix q n pre i assume a: "tag q = Some (n, pre)" "1 < n" "i < 512" "has (page s' q i) PTE_PRESENT"
  then show "if has (page s' q i) PTE_HUGE then n = 2 else tag (entry_table (page s' q i)) = Some (n - 1, pre * 512 + i)"
    using wf_entry [OF wf a(1-3)] p [OF a(1)] by simp
qed

lemma wf_mono:
  assumes "vmm_wf tag s" "page s' = page s" "\<forall>g. pmm_test_bit g s \<longrightarrow> pmm_test_bit g s'"
  shows "vmm_wf tag s'"
  using assms by (intro wf_tagged [OF assms(1)]) auto

lemma frame_flags [simp]:
  assumes "f < MAX_FRAMES" "flag AND PTE_ADDR_MASK = 0"
  shows "\<not> has (frame_addr f) flag"
proof -
  have "frame_addr f AND flag = (frame_addr f AND PTE_ADDR_MASK) AND flag" using assms(1) by simp
  also have "\<dots> = frame_addr f AND (flag AND PTE_ADDR_MASK)" by (simp add: ac_simps)
  finally show ?thesis using assms(2) by (simp add: has_def)
qed

text \<open>Linking a fresh empty table into an entry that was not present.\<close>

lemma wf_link:
  assumes wf: "vmm_wf tag s" and par: "tag parent = Some (n, pre)" "1 < n" "idx < 512"
    and al: "alloc_page_table s = (c, s1)" "c \<noteq> 0" and np: "\<not> has (page s parent idx) PTE_PRESENT"
    and fl: "flags AND PTE_ADDR_MASK = 0" "\<not> has flags PTE_HUGE"
  defines "s' \<equiv> set_entry parent idx (virt_to_phys_kernel c OR flags) s1"
  shows "vmm_wf (tag(c \<mapsto> (n - 1, pre * 512 + idx))) s'" "tag c = None"
    "entry_table (page s' parent idx) = c" "\<not> has (page s' parent idx) PTE_HUGE" "page s' c = (\<lambda>_. 0)"
    "\<And>q j. q \<noteq> c \<Longrightarrow> (q, j) \<noteq> (parent, idx) \<Longrightarrow> page s' q j = page s q j"
proof -
  obtain f where f: "0 < f" "f < MAX_FRAMES" "c = PHYS_TO_VIRT (frame_addr f)" "\<not> pmm_test_bit f s"
    "\<And>g. pmm_test_bit g s1 \<longleftrightarrow> g = f \<or> pmm_test_bit g s" "page s1 = (page s)(c := \<lambda>_. 0)"
    using alloc_page_table_fresh [OF al] by blast
  have fresh: "tag c = None"
  proof (rule ccontr)
    assume "tag c \<noteq> None"
    with wf_frame [OF wf] obtain g where "g < MAX_FRAMES" "c = PHYS_TO_VIRT (frame_addr g)" "pmm_test_bit g s" by blast
    with f(2-4) show False by (simp add: frame_addr_inj)
  qed
  then have pc: "parent \<noteq> c" using par by auto
  have e: "page s' parent idx = frame_addr f OR flags" using f(3) by (simp add: s'_def)
  show "entry_table (page s' parent idx) = c"
    unfolding e entry_table_def mask_or [OF fl(1)] using f(2,3) by simp
  show nh: "\<not> has (page s' parent idx) PTE_HUGE" unfolding e has_or using fl(2) f(2) by simp
  show z: "page s' c = (\<lambda>_. 0)" using f(6) pc by (simp add: s'_def)
  show same: "page s' q j = page s q j" if "q \<noteq> c" "(q, j) \<noteq> (parent, idx)" for q j
    using that f(6) by (auto simp: s'_def)
  show "tag c = None" by (rule fresh)
  show "vmm_wf (tag(c \<mapsto> (n - 1, pre * 512 + idx))) s'"
    unfolding vmm_wf_def
  proof (intro conjI allI impI)
    fix p assume "(tag(c \<mapsto> (n - 1, pre * 512 + idx))) p \<noteq> None"
    then show "\<exists>f. 0 < f \<and> f < MAX_FRAMES \<and> p = PHYS_TO_VIRT (frame_addr f) \<and> pmm_test_bit f s'"
      using f wf_frame [OF wf, of p] by (cases "p = c") (auto simp: s'_def)
  next
    fix g :: nat assume "0x80000 \<le> g" "g < MAX_FRAMES"
    then show "pmm_test_bit g s'" using wf f(5) unfolding vmm_wf_def s'_def by simp
  next
    fix p m pr i
    assume a: "(tag(c \<mapsto> (n - 1, pre * 512 + idx))) p = Some (m, pr)" "1 < m" "i < 512" "has (page s' p i) PTE_PRESENT"
    from a(4) z have p: "p \<noteq> c" by auto
    show "if has (page s' p i) PTE_HUGE then m = 2
      else (tag(c \<mapsto> (n - 1, pre * 512 + idx))) (entry_table (page s' p i)) = Some (m - 1, pr * 512 + i)"
    proof (cases "(p, i) = (parent, idx)")
      case True
      then show ?thesis using nh \<open>entry_table (page s' parent idx) = c\<close> a(1) p par by auto
    next
      case False
      with same p have "page s' p i = page s p i" by blast
      with wf_entry [OF wf _ a(2,3)] a p fresh show ?thesis by (auto split: if_splits)
    qed
  qed
qed

definition tag_le :: "tagging \<Rightarrow> tagging \<Rightarrow> bool" where
  "tag_le tag tag' \<longleftrightarrow> (\<forall>p x. tag p = Some x \<longrightarrow> tag' p = Some x)"

lemma tag_leD: "tag_le tag tag' \<Longrightarrow> tag p = Some x \<Longrightarrow> tag' p = Some x"
  unfolding tag_le_def by blast

lemma tag_le_trans: "tag_le a b \<Longrightarrow> tag_le b c \<Longrightarrow> tag_le a c"
  unfolding tag_le_def by blast

lemma get_or_create_table_wf:
  assumes wf: "vmm_wf tag s" and par: "tag parent = Some (n, pre)" "1 < n" "idx < 512"
    and fl: "flags AND PTE_ADDR_MASK = 0" "\<not> has flags PTE_HUGE" "has flags PTE_PRESENT"
    and g: "get_or_create_table parent idx flags s = (c, s')"
  shows "\<exists>tag'. vmm_wf tag' s' \<and> tag_le tag tag' \<and> adds_tables tag s s' \<and>
    (c \<noteq> 0 \<longrightarrow> tag' c = Some (n - 1, pre * 512 + idx) \<and> has (page s' parent idx) PTE_PRESENT
      \<and> \<not> has (page s' parent idx) PTE_HUGE \<and> entry_table (page s' parent idx) = c)"
proof (cases "has (page s parent idx) PTE_PRESENT")
  case True
  then have "s' = s" "c \<noteq> 0 \<longrightarrow> \<not> has (page s parent idx) PTE_HUGE \<and> c = entry_table (page s parent idx)"
    using g by (auto simp: get_or_create_table_def Let_def split: if_splits)
  with wf wf_entry [OF wf par True] True show ?thesis
    by (intro exI [of _ tag]) (auto simp: tag_le_def adds_tables_refl)
next
  case np: False
  obtain c1 s1 where al: "alloc_page_table s = (c1, s1)" by (cases "alloc_page_table s")
  show ?thesis
  proof (cases "c1 = 0")
    case True
    with al np g have "c = 0" "s' = s1" by (auto simp: get_or_create_table_def Let_def)
    with alloc_page_table_null [OF wf] al True wf_mono [OF wf] show ?thesis
      by (intro exI [of _ tag]) (auto simp: tag_le_def adds_tables_refl)
  next
    case False
    with al np g have eq: "c = c1" "s' = set_entry parent idx (virt_to_phys_kernel c OR flags) s1"
      by (auto simp: get_or_create_table_def Let_def)
    note lk = wf_link [OF wf par al False np fl(1,2), folded eq(1), folded eq(2)]
    have "adds_tables tag s s'"
      unfolding adds_tables_def
    proof (intro allI impI)
      fix q m pr j assume q: "tag q = Some (m, pr)"
      then have "q \<noteq> c" using lk(2) by auto
      then show "page s' q j = page s q j \<or> 1 < m \<and> \<not> has (page s q j) PTE_PRESENT
          \<and> \<not> has (page s' q j) PTE_HUGE \<and> page s' (entry_table (page s' q j)) = (\<lambda>_. 0)"
        using lk(3-6) par q np by (cases "(q, j) = (parent, idx)") auto
    qed
    moreover have "has (page s' parent idx) PTE_PRESENT" using fl(3) by (simp add: eq(2) has_or)
    moreover have "tag_le tag (tag(c \<mapsto> (n - 1, pre * 512 + idx)))" using lk(2) by (auto simp: tag_le_def)
    ultimately show ?thesis using lk by (intro exI [of _ "tag(c \<mapsto> (n - 1, pre * 512 + idx))"]) auto
  qed
qed

lemma adds_tables_present:
  "adds_tables tag s s' \<Longrightarrow> tag q = Some x \<Longrightarrow> has (page s q j) PTE_PRESENT \<Longrightarrow> page s' q j = page s q j"
  unfolding adds_tables_def by (cases x) blast

section \<open>Leaf writes\<close>

definition same_page :: "u64 \<Rightarrow> u64 \<Rightarrow> bool" where
  "same_page v v' \<longleftrightarrow> PML4_INDEX v = PML4_INDEX v' \<and> PDPT_INDEX v = PDPT_INDEX v'
     \<and> PD_INDEX v = PD_INDEX v' \<and> PT_INDEX v = PT_INDEX v'"

definition vpath :: "u64 \<Rightarrow> nat" where
  "vpath v = (PML4_INDEX v * 512 + PDPT_INDEX v) * 512 + PD_INDEX v"

lemma radix512:
  fixes a a' b b' :: nat
  assumes "a * 512 + b = a' * 512 + b'" "b < 512" "b' < 512"
  shows "a = a' \<and> b = b'"
proof -
  have "a = a'" using arg_cong [OF assms(1), of "\<lambda>x. x div 512"] assms(2,3) by simp
  with assms(1) show ?thesis by simp
qed

lemma vpath_same:
  assumes "vpath v = vpath v'" "PT_INDEX v = PT_INDEX v'"
  shows "same_page v v'"
proof -
  have "PML4_INDEX v * 512 + PDPT_INDEX v = PML4_INDEX v' * 512 + PDPT_INDEX v' \<and> PD_INDEX v = PD_INDEX v'"
    using assms(1) unfolding vpath_def by (rule radix512) simp_all
  with assms(2) show ?thesis
    using radix512 [OF _ index_lt(2) index_lt(2)] unfolding same_page_def by blast
qed

text \<open>The translation of \<open>v\<close> depends on the tables above level 1 and on one entry of level 1.\<close>

lemma leaf_write_other:
  assumes wf: "vmm_wf tag s" and p4: "tag pml4 = Some (4, 0)" and pt: "tag pt = Some (1, vpath v)"
    and v': "\<not> same_page v v'"
  shows "vmm_get_physical pml4 v' (set_entry pt (PT_INDEX v) e s) = vmm_get_physical pml4 v' s"
proof -
  let ?s = "set_entry pt (PT_INDEX v) e s"
  have up: "page ?s q = page s q" if "tag q = Some (n, pre)" "n \<noteq> 1" for q n pre
    using that pt by auto
  let ?e4 = "page s pml4 (PML4_INDEX v')"
  let ?e3 = "page s (entry_table ?e4) (PDPT_INDEX v')"
  let ?e2 = "page s (entry_table ?e3) (PD_INDEX v')"
  have e4: "page ?s pml4 = page s pml4" using up [OF p4] by simp
  have t3: "tag (entry_table ?e4) = Some (3, PML4_INDEX v')" if "has ?e4 PTE_PRESENT"
    using wf_entry [OF wf p4 _ _ that] by (simp split: if_splits)
  have t2: "tag (entry_table ?e3) = Some (2, PML4_INDEX v' * 512 + PDPT_INDEX v')"
    if "has ?e4 PTE_PRESENT" "has ?e3 PTE_PRESENT"
    using wf_entry [OF wf t3 [OF that(1)] _ _ that(2)] by (simp split: if_splits)
  have t1: "tag (entry_table ?e2) = Some (1, vpath v')"
    if "has ?e4 PTE_PRESENT" "has ?e3 PTE_PRESENT" "has ?e2 PTE_PRESENT" "\<not> has ?e2 PTE_HUGE"
    using wf_entry [OF wf t2 [OF that(1,2)] _ _ that(3)] that(4) by (simp add: vpath_def)
  have u3: "page ?s (entry_table ?e4) = page s (entry_table ?e4)" if "has ?e4 PTE_PRESENT"
    using up [OF t3 [OF that]] by simp
  have u2: "page ?s (entry_table ?e3) = page s (entry_table ?e3)" if "has ?e4 PTE_PRESENT" "has ?e3 PTE_PRESENT"
    using up [OF t2 [OF that]] by simp
  have leaf: "page ?s (entry_table ?e2) (PT_INDEX v') = page s (entry_table ?e2) (PT_INDEX v')"
    if "tag (entry_table ?e2) = Some (1, vpath v')"
    using that pt v' vpath_same [of v v'] by auto
  show ?thesis
    unfolding vmm_get_physical_def Let_def e4 using u3 u2 leaf [OF t1] by (simp del: page_set)
qed

lemma leaf_write_same:
  fixes tag :: tagging
  assumes p4: "tag pml4 = Some (4, 0)" and pt: "tag pt = Some (1, vpath v)"
    and e4: "has (page s pml4 (PML4_INDEX v)) PTE_PRESENT" "entry_table (page s pml4 (PML4_INDEX v)) = p3" "tag p3 = Some (3, x3)"
    and e3: "has (page s p3 (PDPT_INDEX v)) PTE_PRESENT" "entry_table (page s p3 (PDPT_INDEX v)) = p2" "tag p2 = Some (2, x2)"
    and e2: "has (page s p2 (PD_INDEX v)) PTE_PRESENT" "\<not> has (page s p2 (PD_INDEX v)) PTE_HUGE"
      "entry_table (page s p2 (PD_INDEX v)) = pt"
  shows "vmm_get_physical pml4 v (set_entry pt (PT_INDEX v) e s)
    = (if has e PTE_PRESENT then (e AND PTE_ADDR_MASK) OR (v AND 0xFFF) else 0)"
proof -
  have "pml4 \<noteq> pt" "p3 \<noteq> pt" "p2 \<noteq> pt" using p4 pt e4(3) e3(3) by auto
  then show ?thesis using e4(1,2) e3(1,2) e2 by (simp add: vmm_get_physical_def Let_def)
qed

section \<open>Properties\<close>

lemma entry_flags_ok:
  fixes flags :: u64
  defines "ef \<equiv> PTE_PRESENT OR PTE_WRITABLE OR (if has flags PTE_USER then PTE_USER else 0)"
  shows "ef AND PTE_ADDR_MASK = 0" "\<not> has ef PTE_HUGE" "has ef PTE_PRESENT"
  by (auto simp: ef_def has_def)

text \<open>
  The three steps of a walk that creates tables: all tables exist afterwards, no translation has
  changed, and either the walk failed or it found the level-1 table of the address.
\<close>

definition walk_created :: "tagging \<Rightarrow> u64 \<Rightarrow> u64 \<Rightarrow> u64 \<Rightarrow> 'a vmm_st_scheme \<Rightarrow> bool" where
  "walk_created tag pml4 v pt s \<longleftrightarrow> (\<exists>p3 p2 x3 x2. tag pml4 = Some (4, 0) \<and> tag pt = Some (1, vpath v)
     \<and> has (page s pml4 (PML4_INDEX v)) PTE_PRESENT \<and> entry_table (page s pml4 (PML4_INDEX v)) = p3 \<and> tag p3 = Some (3, x3)
     \<and> has (page s p3 (PDPT_INDEX v)) PTE_PRESENT \<and> entry_table (page s p3 (PDPT_INDEX v)) = p2 \<and> tag p2 = Some (2, x2)
     \<and> has (page s p2 (PD_INDEX v)) PTE_PRESENT \<and> \<not> has (page s p2 (PD_INDEX v)) PTE_HUGE
     \<and> entry_table (page s p2 (PD_INDEX v)) = pt)"

lemma walk_creates:
  assumes wf: "vmm_wf tag s" and p4: "tag pml4 = Some (4, 0)"
    and ef: "ef AND PTE_ADDR_MASK = 0" "\<not> has ef PTE_HUGE" "has ef PTE_PRESENT"
    and w1: "get_or_create_table pml4 (PML4_INDEX v) ef s = (pdpt, s1)"
    and w2: "pdpt \<noteq> 0 \<Longrightarrow> get_or_create_table pdpt (PDPT_INDEX v) ef s1 = (pd, s2)"
    and w3: "pdpt \<noteq> 0 \<Longrightarrow> pd \<noteq> 0 \<Longrightarrow> get_or_create_table pd (PD_INDEX v) ef s2 = (pt, s3)"
  defines "t \<equiv> if pdpt = 0 then s1 else if pd = 0 then s2 else s3"
  shows "\<exists>tag'. vmm_wf tag' t \<and> tag_le tag tag' \<and> (\<forall>v'. vmm_get_physical pml4 v' t = vmm_get_physical pml4 v' s)
    \<and> (pdpt \<noteq> 0 \<longrightarrow> pd \<noteq> 0 \<longrightarrow> pt \<noteq> 0 \<longrightarrow> walk_created tag' pml4 v pt t)"
proof -
  obtain t1 where t1: "vmm_wf t1 s1" "tag_le tag t1" "adds_tables tag s s1"
    "pdpt \<noteq> 0 \<Longrightarrow> t1 pdpt = Some (3, PML4_INDEX v) \<and> has (page s1 pml4 (PML4_INDEX v)) PTE_PRESENT
      \<and> \<not> has (page s1 pml4 (PML4_INDEX v)) PTE_HUGE \<and> entry_table (page s1 pml4 (PML4_INDEX v)) = pdpt"
    using get_or_create_table_wf [OF wf p4 _ index_lt(1) ef w1] by auto
  note ph1 = adds_tables_physical [OF wf p4 t1(3)]
  note p41 = tag_leD [OF t1(2) p4]
  show ?thesis
  proof (cases "pdpt = 0")
    case True
    then show ?thesis using t1(1,2) ph1 by (intro exI [of _ t1]) (simp add: t_def)
  next
    case n3: False
    note e4 = t1(4) [OF n3]
    obtain t2 where t2: "vmm_wf t2 s2" "tag_le t1 t2" "adds_tables t1 s1 s2"
      "pd \<noteq> 0 \<Longrightarrow> t2 pd = Some (2, PML4_INDEX v * 512 + PDPT_INDEX v) \<and> has (page s2 pdpt (PDPT_INDEX v)) PTE_PRESENT
        \<and> \<not> has (page s2 pdpt (PDPT_INDEX v)) PTE_HUGE \<and> entry_table (page s2 pdpt (PDPT_INDEX v)) = pd"
      using get_or_create_table_wf [OF t1(1) _ _ index_lt(2) ef w2 [OF n3]] e4 by auto
    note ph2 = adds_tables_physical [OF t1(1) p41 t2(3)]
    note p42 = tag_leD [OF t2(2) p41]
    have k4: "page s2 pml4 (PML4_INDEX v) = page s1 pml4 (PML4_INDEX v)"
      using adds_tables_present [OF t2(3) p41] e4 by blast
    show ?thesis
    proof (cases "pd = 0")
      case True
      then show ?thesis using n3 t2(1) tag_le_trans [OF t1(2) t2(2)] ph1 ph2 by (intro exI [of _ t2]) (simp add: t_def)
    next
      case n2: False
      note e3 = t2(4) [OF n2]
      obtain t3 where t3: "vmm_wf t3 s3" "tag_le t2 t3" "adds_tables t2 s2 s3"
        "pt \<noteq> 0 \<Longrightarrow> t3 pt = Some (1, vpath v) \<and> has (page s3 pd (PD_INDEX v)) PTE_PRESENT
          \<and> \<not> has (page s3 pd (PD_INDEX v)) PTE_HUGE \<and> entry_table (page s3 pd (PD_INDEX v)) = pt"
        using get_or_create_table_wf [OF t2(1) _ _ index_lt(3) ef w3 [OF n3 n2]] e3 by (auto simp: vpath_def)
      note ph3 = adds_tables_physical [OF t2(1) p42 t3(3)]
      have t2p: "t2 pdpt = Some (3, PML4_INDEX v)" using tag_leD [OF t2(2)] e4 by blast
      have k4': "page s3 pml4 (PML4_INDEX v) = page s1 pml4 (PML4_INDEX v)"
        using adds_tables_present [OF t3(3) p42] e4 k4 by metis
      have k3: "page s3 pdpt (PDPT_INDEX v) = page s2 pdpt (PDPT_INDEX v)"
        using adds_tables_present [OF t3(3) t2p] e3 by blast
      have "walk_created t3 pml4 v pt s3" if "pt \<noteq> 0"
        unfolding walk_created_def k4'
        using t3(4) [OF that] e4 e3 k3 tag_leD [OF t3(2) p42] tag_leD [OF t3(2) t2p] tag_leD [OF t3(2)]
        by (intro exI [of _ pdpt] exI [of _ pd]) simp
      then show ?thesis
        using n3 n2 t3(1) tag_le_trans [OF tag_le_trans [OF t1(2) t2(2)] t3(2)] ph1 ph2 ph3
        by (intro exI [of _ t3]) (simp add: t_def)
    qed
  qed
qed

lemma wf_leaf:
  assumes "vmm_wf tag s" "tag pt = Some (1, x)"
  shows "vmm_wf tag (set_entry pt i e s)"
proof -
  have "page (set_entry pt i e s) p = page s p" if "tag p = Some (n, pre)" "1 < n" for p n pre
    using that assms(2) by auto
  then show ?thesis using assms(1) unfolding vmm_wf_def by (auto simp del: page_set)
qed

lemma walk_created_tagged:
  assumes "walk_created tag pml4 v pt s" "\<And>q x. tag q = Some x \<Longrightarrow> page s' q = page s q"
  shows "walk_created tag pml4 v pt s'"
proof -
  obtain p3 p2 x3 x2 where w: "tag pml4 = Some (4, 0)" "tag p3 = Some (3, x3)" "tag p2 = Some (2, x2)"
    "tag pt = Some (1, vpath v)"
    "has (page s pml4 (PML4_INDEX v)) PTE_PRESENT" "entry_table (page s pml4 (PML4_INDEX v)) = p3"
    "has (page s p3 (PDPT_INDEX v)) PTE_PRESENT" "entry_table (page s p3 (PDPT_INDEX v)) = p2"
    "has (page s p2 (PD_INDEX v)) PTE_PRESENT" "\<not> has (page s p2 (PD_INDEX v)) PTE_HUGE"
    "entry_table (page s p2 (PD_INDEX v)) = pt"
    using assms(1) unfolding walk_created_def by blast
  note q = assms(2) [OF w(1)] assms(2) [OF w(2)] assms(2) [OF w(3)]
  show ?thesis
    unfolding walk_created_def q using w by (intro exI [of _ p3] exI [of _ p2] exI [of _ x3] exI [of _ x2]) (simp add: q)
qed

lemma walk_created_write:
  assumes "vmm_wf tag s" "walk_created tag pml4 v pt s"
  shows "vmm_get_physical pml4 v (set_entry pt (PT_INDEX v) e s)
      = (if has e PTE_PRESENT then (e AND PTE_ADDR_MASK) OR (v AND 0xFFF) else 0)"
    "\<not> same_page v v' \<Longrightarrow> vmm_get_physical pml4 v' (set_entry pt (PT_INDEX v) e s) = vmm_get_physical pml4 v' s"
    "vmm_wf tag (set_entry pt (PT_INDEX v) e s)"
  using assms leaf_write_same [of tag pml4 pt v s] leaf_write_other [of tag s pml4 pt v v' e]
    wf_leaf [of tag s pt "vpath v"] unfolding walk_created_def by blast+

lemma leaf_entry:
  assumes "flags AND PTE_ADDR_MASK = 0"
  shows "has ((pa AND PTE_ADDR_MASK) OR flags OR PTE_PRESENT) PTE_PRESENT"
    "((pa AND PTE_ADDR_MASK) OR flags OR PTE_PRESENT) AND PTE_ADDR_MASK = pa AND PTE_ADDR_MASK"
proof -
  show "has ((pa AND PTE_ADDR_MASK) OR flags OR PTE_PRESENT) PTE_PRESENT" unfolding has_or by (simp add: has_def)
  have "(flags OR 1) AND PTE_ADDR_MASK = 0" using assms by (simp add: bit.conj_disj_distrib2)
  from mask_or [OF this, of "pa AND PTE_ADDR_MASK"]
  show "((pa AND PTE_ADDR_MASK) OR flags OR PTE_PRESENT) AND PTE_ADDR_MASK = pa AND PTE_ADDR_MASK"
    by (simp add: and.assoc)
qed

text \<open>
  C24: mapping a 4 KB page in well-formed tables. \<open>vmm_map_page\<close> returns 0 or -1. After 0 the address
  translates to the frame that was asked for; after -1 its translation is what it was. In
  both cases no other page of the address space changes its translation, although tables may
  have been created on the way, and the tables stay well-formed.
\<close>

theorem vmm_map_page_spec:
  assumes "vmm_wf tag s" "tag pml4 = Some (4, 0)" "\<not> has flags PTE_HUGE" "flags AND PTE_ADDR_MASK = 0"
  shows "case vmm_map_page pml4 v pa flags s of (r, s') \<Rightarrow>
    (\<exists>tag'. vmm_wf tag' s' \<and> tag' pml4 = Some (4, 0)) \<and> (r = 0 \<or> r = -1) \<and>
    vmm_get_physical pml4 v s' = (if r = 0 then (pa AND PTE_ADDR_MASK) OR (v AND 0xFFF) else vmm_get_physical pml4 v s) \<and>
    (\<forall>v'. \<not> same_page v v' \<longrightarrow> vmm_get_physical pml4 v' s' = vmm_get_physical pml4 v' s)"
proof -
  define ef where "ef = PTE_PRESENT OR PTE_WRITABLE OR (if has flags PTE_USER then PTE_USER else 0)"
  obtain pdpt s1 where w1: "get_or_create_table pml4 (PML4_INDEX v) ef s = (pdpt, s1)" by fastforce
  obtain pd s2 where w2: "get_or_create_table pdpt (PDPT_INDEX v) ef s1 = (pd, s2)" by fastforce
  obtain pt s3 where w3: "get_or_create_table pd (PD_INDEX v) ef s2 = (pt, s3)" by fastforce
  define t where "t = (if pdpt = 0 then s1 else if pd = 0 then s2 else s3)"
  obtain tag' where t: "vmm_wf tag' t" "tag_le tag tag'" "\<And>v'. vmm_get_physical pml4 v' t = vmm_get_physical pml4 v' s"
    "pdpt \<noteq> 0 \<Longrightarrow> pd \<noteq> 0 \<Longrightarrow> pt \<noteq> 0 \<Longrightarrow> walk_created tag' pml4 v pt t"
    using walk_creates [OF assms(1,2) entry_flags_ok [of flags, folded ef_def] w1 w2 w3] unfolding t_def by blast
  define e where "e = (pa AND PTE_ADDR_MASK) OR flags OR PTE_PRESENT"
  have m: "vmm_map_page pml4 v pa flags s
      = (if pdpt = 0 \<or> pd = 0 \<or> pt = 0 then (-1, t) else (0, set_entry pt (PT_INDEX v) e t))"
    using assms(3) w1 w2 w3 by (simp add: vmm_map_page_def Let_def ef_def [symmetric] t_def e_def)
  show ?thesis
  proof (cases "pdpt = 0 \<or> pd = 0 \<or> pt = 0")
    case True
    then show ?thesis using m t tag_leD [OF t(2) assms(2)] by auto
  next
    case False
    then have "walk_created tag' pml4 v pt t" using t(4) by blast
    note wr = walk_created_write [OF t(1) this, where e = e]
    show ?thesis
      using m False wr t(3) tag_leD [OF t(2) assms(2)] leaf_entry [OF assms(4), of pa] by (auto simp: e_def)
  qed
qed

text \<open>A machine with 2 GB: the first megabyte is used, and an empty PML4 lies in frame 1.\<close>

definition vmm_demo :: vmm_st where
  "vmm_demo = \<lparr>tick_count = 0, pmm_bitmap = (\<lambda>b. if b < 32 \<or> 0x10000 \<le> b then 0xFF else 0), pmm_refcounts = \<lambda>_. 0,
     pmm_total_frame_count = 0x80000, pmm_used_frame_count = 0x80100,
     kernel_pml4 = 0, kernel_pml4_phys = 0, cr3 = 0x1000, page = \<lambda>_ _. 0\<rparr>"

definition demo_pml4 :: u64 where
  "demo_pml4 = PHYS_TO_VIRT (frame_addr 1)"

lemma vmm_demo_test: "pmm_test_bit f vmm_demo \<longleftrightarrow> f < 256 \<or> 0x80000 \<le> f"
proof -
  have "f div 8 < 32 \<longleftrightarrow> f < 256" "0x10000 \<le> f div 8 \<longleftrightarrow> 0x80000 \<le> f"
    by (simp_all add: div_less_iff_less_mult less_eq_div_iff_mult_less_eq)
  then show ?thesis using byte_full_iff [of "0xFF"] by (simp add: test_bit_eq vmm_demo_def)
qed

lemma vmm_demo_wf: "vmm_wf [demo_pml4 \<mapsto> (4, 0)] vmm_demo"
  unfolding vmm_wf_def demo_pml4_def vmm_demo_test
  by (auto simp: MAX_FRAMES_def vmm_demo_def split: if_splits intro!: exI [of _ 1])

definition demo_bits :: "nat \<Rightarrow> 'a pmm_st_scheme \<Rightarrow> bool" where
  "demo_bits n s \<longleftrightarrow> 0 < n \<and> n < 0x80000 \<and> (\<forall>g. pmm_test_bit g s \<longleftrightarrow> g < n \<or> 0x80000 \<le> g)"

lemma demo_create:
  assumes "demo_bits n s" "n < 0x7FFFF" "page s parent idx = 0" "parent \<noteq> PHYS_TO_VIRT (frame_addr n)"
  shows "\<exists>s'. get_or_create_table parent idx fl s = (PHYS_TO_VIRT (frame_addr n), s') \<and> demo_bits (Suc n) s'
    \<and> page s' (PHYS_TO_VIRT (frame_addr n)) = (\<lambda>_. 0)"
proof -
  have "for_find (\<lambda>f. \<not> pmm_test_bit f s) 0 MAX_FRAMES = Some n"
    using assms(1) by (auto simp: for_find_Some_iff demo_bits_def MAX_FRAMES_def)
  then have al: "pmm_alloc_frame s = (frame_addr n, take_frame n s)" by (simp add: alloc_frame_cases)
  have nz: "PHYS_TO_VIRT (frame_addr n) \<noteq> 0" "frame_addr n \<noteq> 0"
    using assms(1) virt_nonzero [of n] frame_addr_inj [of n 0]
    by (auto simp: demo_bits_def MAX_FRAMES_def frame_addr_def)
  let ?v = "PHYS_TO_VIRT (frame_addr n)"
  let ?s = "set_entry parent idx (frame_addr n OR fl) (set_page ?v (\<lambda>_. 0) (take_frame n s))"
  have "get_or_create_table parent idx fl s = (?v, ?s)"
    by (simp add: get_or_create_table_def alloc_page_table_def Let_def al nz assms(3))
  moreover have "demo_bits (Suc n) ?s"
    unfolding demo_bits_def
  proof (intro conjI allI)
    show "pmm_test_bit g ?s \<longleftrightarrow> g < Suc n \<or> 0x80000 \<le> g" for g
      using assms(1) unfolding demo_bits_def by (simp add: less_Suc_eq disj_ac)
  qed (use assms(2) in simp_all)
  moreover have "page ?s ?v = (\<lambda>_. 0)" using assms(4) by simp
  ultimately show ?thesis by blast
qed

lemma vmm_demo_map: "fst (vmm_map_page demo_pml4 0x400000 0x200000 7 vmm_demo) = 0"
proof -
  let ?P = "\<lambda>f. PHYS_TO_VIRT (frame_addr f)"
  have b0: "demo_bits 256 vmm_demo" by (simp add: demo_bits_def vmm_demo_test)
  have nz: "?P 256 \<noteq> 0" "?P 257 \<noteq> 0" "?P 258 \<noteq> 0" using virt_nonzero by auto
  have ne: "demo_pml4 \<noteq> ?P 256" "?P 256 \<noteq> ?P 257" "?P 257 \<noteq> ?P 258"
    by (simp_all add: demo_pml4_def frame_addr_def)
  have p0: "page vmm_demo demo_pml4 i = 0" for i by (simp add: vmm_demo_def)
  obtain s1 where s1: "get_or_create_table demo_pml4 (PML4_INDEX 0x400000) 7 vmm_demo = (?P 256, s1)"
    "demo_bits 257 s1" "page s1 (?P 256) = (\<lambda>_. 0)"
    using demo_create [OF b0 _ p0 ne(1), of "PML4_INDEX 0x400000" 7] by auto
  obtain s2 where s2: "get_or_create_table (?P 256) (PDPT_INDEX 0x400000) 7 s1 = (?P 257, s2)"
    "demo_bits 258 s2" "page s2 (?P 257) = (\<lambda>_. 0)"
    using demo_create [OF s1(2) _ _ ne(2), of "PDPT_INDEX 0x400000" 7] s1(3) by auto
  obtain s3 where s3: "get_or_create_table (?P 257) (PD_INDEX 0x400000) 7 s2 = (?P 258, s3)"
    using demo_create [OF s2(2) _ _ ne(3), of "PD_INDEX 0x400000" 7] s2(3) by auto
  have f: "has 7 PTE_USER" "\<not> has 7 PTE_HUGE" "PTE_PRESENT OR PTE_WRITABLE OR PTE_USER = (7 :: u64)"
    by (simp_all add: has_def)
  show ?thesis
    unfolding vmm_map_page_def Let_def using nz
    by (simp only: f s1(1) s2(1) s3 case_prod_conv if_True if_False fst_conv simp_thms)
qed

theorem vmm_map_page_spec_witness:
  "vmm_get_physical demo_pml4 0x400000 (snd (vmm_map_page demo_pml4 0x400000 0x200000 7 vmm_demo)) = 0x200000"
proof -
  have "\<not> has 7 PTE_HUGE" "(7 :: u64) AND PTE_ADDR_MASK = 0" by (simp_all add: has_def)
  from vmm_map_page_spec [OF vmm_demo_wf _ this, of demo_pml4 "0x400000" "0x200000"] vmm_demo_map
  show ?thesis by (simp add: case_prod_beta)
qed

section \<open>Copy on write\<close>

lemma fault_walk_created:
  assumes wf: "vmm_wf tag s" and p4: "tag pml4 = Some (4, 0)" and w: "fault_walk pml4 v s = Some (pt, i)"
  shows "walk_created tag pml4 v pt s \<and> i = PT_INDEX v"
proof -
  let ?e4 = "page s pml4 (PML4_INDEX v)"
  let ?e3 = "page s (entry_table ?e4) (PDPT_INDEX v)"
  let ?e2 = "page s (entry_table ?e3) (PD_INDEX v)"
  have h: "has ?e4 PTE_PRESENT" "has ?e3 PTE_PRESENT" "has ?e2 PTE_PRESENT" "\<not> has ?e2 PTE_HUGE"
    "pt = entry_table ?e2" "i = PT_INDEX v"
    using w by (auto simp: fault_walk_def Let_def split: if_splits)
  have t3: "tag (entry_table ?e4) = Some (3, PML4_INDEX v)"
    using wf_entry [OF wf p4 _ _ h(1)] by (simp split: if_splits)
  have t2: "tag (entry_table ?e3) = Some (2, PML4_INDEX v * 512 + PDPT_INDEX v)"
    using wf_entry [OF wf t3 _ _ h(2)] by (simp split: if_splits)
  have "tag (entry_table ?e2) = Some (1, vpath v)"
    using wf_entry [OF wf t2 _ _ h(3)] h(4) by (simp add: vpath_def)
  with h p4 t3 t2 show ?thesis unfolding walk_created_def by blast
qed

lemma physical_page_cong: "page s' = page s \<Longrightarrow> vmm_get_physical pml4 v s' = vmm_get_physical pml4 v s"
  by (simp add: vmm_get_physical_def Let_def)

lemma cow_entry:
  fixes pte :: u64
  assumes "f < MAX_FRAMES"
  defines "e \<equiv> (frame_addr f AND PTE_ADDR_MASK) OR (pte AND PTE_FLAGS_MASK AND NOT PTE_COW) OR PTE_WRITABLE"
  shows "e AND PTE_ADDR_MASK = frame_addr f" "has e PTE_WRITABLE" "\<not> has e PTE_COW"
    "has e PTE_PRESENT \<longleftrightarrow> has pte PTE_PRESENT"
proof -
  have fl: "((pte AND PTE_FLAGS_MASK AND NOT PTE_COW) OR PTE_WRITABLE) AND PTE_ADDR_MASK = 0"
    by (simp add: bit.conj_disj_distrib2 and.assoc)
  show "e AND PTE_ADDR_MASK = frame_addr f"
    unfolding e_def mask_or [OF fl] using assms(1) by simp
  show "has e PTE_WRITABLE" unfolding e_def has_or by (simp add: has_def)
  have c: "\<not> has (pte AND PTE_FLAGS_MASK AND NOT PTE_COW) PTE_COW" by (simp add: has_def and.assoc)
  have n: "\<not> has (frame_addr f AND PTE_ADDR_MASK) PTE_COW" "\<not> has (frame_addr f AND PTE_ADDR_MASK) PTE_PRESENT"
    using assms(1) by simp_all
  have k: "\<not> has PTE_WRITABLE PTE_COW" "\<not> has PTE_WRITABLE PTE_PRESENT" by (simp_all add: has_def)
  show "\<not> has e PTE_COW" unfolding e_def has_or using c n k by blast
  have "has (pte AND PTE_FLAGS_MASK AND NOT PTE_COW) PTE_PRESENT \<longleftrightarrow> has pte PTE_PRESENT"
    by (simp add: has_def and.assoc)
  then show "has e PTE_PRESENT \<longleftrightarrow> has pte PTE_PRESENT" unfolding e_def has_or using n k by blast
qed

text \<open>One user page at 0: the tables lie in frames 1 to 4, and frame 16 is mapped with the given flags.\<close>

definition cow_demo :: "u64 \<Rightarrow> vmm_st" where
  "cow_demo flags = vmm_demo\<lparr>pmm_refcounts := (\<lambda>_. 0)(16 := 2),
     page := (\<lambda>_ _. 0)(PHYS_TO_VIRT 0x1000 := (\<lambda>_. 0)(0 := 0x2007), PHYS_TO_VIRT 0x2000 := (\<lambda>_. 0)(0 := 0x3007),
       PHYS_TO_VIRT 0x3000 := (\<lambda>_. 0)(0 := 0x4007), PHYS_TO_VIRT 0x4000 := (\<lambda>_. 0)(0 := 0x10000 OR flags))\<rparr>"

definition cow_tag :: tagging where
  "cow_tag = [PHYS_TO_VIRT 0x1000 \<mapsto> (4, 0), PHYS_TO_VIRT 0x2000 \<mapsto> (3, 0), PHYS_TO_VIRT 0x3000 \<mapsto> (2, 0),
     PHYS_TO_VIRT 0x4000 \<mapsto> (1, 0)]"

lemma cow_demo_test [simp]: "pmm_test_bit f (cow_demo fl) \<longleftrightarrow> f < 256 \<or> 0x80000 \<le> f"
  unfolding vmm_demo_test [symmetric] by (simp add: cow_demo_def pmm_test_bit_def)

lemma cow_demo_wf: "vmm_wf cow_tag (cow_demo fl)"
  unfolding vmm_wf_def
proof (intro conjI allI impI)
  fix p assume "cow_tag p \<noteq> None"
  then have "p \<in> (\<lambda>f. PHYS_TO_VIRT (frame_addr f)) ` {1, 2, 3, 4}"
    by (simp add: cow_tag_def frame_addr_def split: if_splits)
  then obtain f where "f \<in> {1, 2, 3, 4}" "p = PHYS_TO_VIRT (frame_addr f)" by blast
  moreover from this(1) have "0 < f \<and> f < MAX_FRAMES \<and> pmm_test_bit f (cow_demo fl)" by (auto simp: MAX_FRAMES_def)
  ultimately show "\<exists>f. 0 < f \<and> f < MAX_FRAMES \<and> p = PHYS_TO_VIRT (frame_addr f) \<and> pmm_test_bit f (cow_demo fl)"
    by blast
next
  fix p n pre i assume "cow_tag p = Some (n, pre)" "1 < n" "has (page (cow_demo fl) p i) PTE_PRESENT"
  then show "if has (page (cow_demo fl) p i) PTE_HUGE then n = 2
    else cow_tag (entry_table (page (cow_demo fl) p i)) = Some (n - 1, pre * 512 + i)"
    by (auto simp: cow_tag_def cow_demo_def has_def entry_table_def split: if_splits)
qed simp

lemma cow_demo_walk: "fault_walk (PHYS_TO_VIRT 0x1000) 0 (cow_demo fl) = Some (PHYS_TO_VIRT 0x4000, 0)"
  by (simp add: fault_walk_def cow_demo_def has_def entry_table_def PML4_INDEX_def PDPT_INDEX_def PD_INDEX_def PT_INDEX_def)

text \<open>
  C25: a write fault on a shared copy-on-write page that the handler resolves by copying. The address
  then translates to a frame that was free, its entry is writable and no longer marked, the new frame
  holds what the shared frame held, the shared frame is not written, and no other page of
  the address space changes its translation.
\<close>

theorem vmm_cow_private_copy:
  assumes wf: "vmm_wf tag s" and p4: "tag pml4 = Some (4, 0)" and w: "fault_walk pml4 v s = Some (pt, i)"
    and pte: "has (page s pt i) PTE_COW" "has (page s pt i) PTE_PRESENT"
    and old: "page s pt i AND PTE_ADDR_MASK = old" "pmm_get_refcount old s \<noteq> 1"
      "old = frame_addr fo" "fo < MAX_FRAMES" "pmm_test_bit fo s" "tag (PHYS_TO_VIRT old) = None"
    and r: "cow_break pml4 v s = (Cow_resolved, s')"
  shows "\<exists>fn. \<not> pmm_test_bit fn s \<and> vmm_get_physical pml4 v s' = frame_addr fn OR (v AND 0xFFF)
    \<and> has (page s' pt i) PTE_WRITABLE \<and> \<not> has (page s' pt i) PTE_COW
    \<and> page s' (PHYS_TO_VIRT (frame_addr fn)) = page s (PHYS_TO_VIRT old)
    \<and> page s' (PHYS_TO_VIRT old) = page s (PHYS_TO_VIRT old)
    \<and> (\<forall>v'. \<not> same_page v v' \<longrightarrow> vmm_get_physical pml4 v' s' = vmm_get_physical pml4 v' s)"
proof -
  obtain fn where ff: "for_find (\<lambda>f. \<not> pmm_test_bit f s) 0 MAX_FRAMES = Some fn"
    using r w pte old by (cases "for_find (\<lambda>f. \<not> pmm_test_bit f s) 0 MAX_FRAMES")
      (auto simp: cow_break_def Let_def alloc_frame_cases)
  then have fn: "fn < MAX_FRAMES" "\<not> pmm_test_bit fn s" by (simp_all add: for_find_Some_iff)
  let ?N = "PHYS_TO_VIRT (frame_addr fn)" and ?O = "PHYS_TO_VIRT old"
  define s1 where "s1 = set_page ?N (page s ?O) (take_frame fn s)"
  define e where "e = (frame_addr fn AND PTE_ADDR_MASK) OR (page s pt i AND PTE_FLAGS_MASK AND NOT PTE_COW) OR PTE_WRITABLE"
  have s': "s' = pmm_unref_frame old (set_entry pt i e s1)"
    using r w pte old(1,2) ff by (auto simp: cow_break_def Let_def alloc_frame_cases s1_def e_def split: if_splits)
  have un: "tag ?N = None"
  proof (rule ccontr)
    assume "tag ?N \<noteq> None"
    with wf_frame [OF wf] obtain g where "g < MAX_FRAMES" "?N = PHYS_TO_VIRT (frame_addr g)" "pmm_test_bit g s" by blast
    with fn show False by (simp add: frame_addr_inj)
  qed
  have ad: "adds_tables tag s s1" using un by (auto simp: adds_tables_def s1_def)
  have "page s1 q = page s q" if "tag q = Some x" for q x using that un by (auto simp: s1_def)
  note tagged = this
  have wf1: "vmm_wf tag s1" by (rule wf_tagged [OF wf]) (rule tagged, assumption, simp add: s1_def)
  have w1: "walk_created tag pml4 v pt s1" and i: "i = PT_INDEX v"
    using fault_walk_created [OF wf p4 w] walk_created_tagged [of tag pml4 v pt s s1] tagged by blast+
  have "tag pt = Some (1, vpath v)" using w1 by (auto simp: walk_created_def)
  then have ne: "pt \<noteq> ?N" "pt \<noteq> ?O" "?O \<noteq> ?N"
    using un old(3-6) fn frame_addr_inj [OF old(4) fn(1)] by auto
  note wr = walk_created_write [OF wf1 w1, where e = e, folded i] and ce = cow_entry [OF fn(1), of "page s pt i", folded e_def]
  have g: "vmm_get_physical pml4 v' s' = vmm_get_physical pml4 v' (set_entry pt i e s1)" for v'
    unfolding s' by (rule physical_page_cong) simp
  have ph: "vmm_get_physical pml4 v' s1 = vmm_get_physical pml4 v' s" for v'
    by (rule adds_tables_physical [OF wf p4 ad])
  have "page s' ?N = page s ?O" "page s' ?O = page s ?O" "page s' pt i = e"
    using ne unfolding s' by (simp_all add: s1_def)
  then show ?thesis using fn(2) g wr(1,2) ph ce pte(2) by (intro exI [of _ fn]) simp
qed

theorem vmm_cow_private_copy_witness:
  "\<exists>s' fn. cow_break (PHYS_TO_VIRT 0x1000) 0 (cow_demo 0x205) = (Cow_resolved, s') \<and> \<not> pmm_test_bit fn (cow_demo 0x205)
    \<and> vmm_get_physical (PHYS_TO_VIRT 0x1000) 0 s' = frame_addr fn"
proof -
  let ?s = "cow_demo 0x205" and ?pt = "PHYS_TO_VIRT 0x4000"
  have e: "page ?s ?pt 0 = 0x10205" by (simp add: cow_demo_def)
  have ff: "for_find (\<lambda>f. \<not> pmm_test_bit f ?s) 0 MAX_FRAMES = Some 256"
    by (simp add: for_find_Some_iff MAX_FRAMES_def)
  have al: "pmm_alloc_frame ?s = (0x100000, take_frame 256 ?s)"
    by (simp add: alloc_frame_cases ff frame_addr_def del: cow_demo_test)
  have rc: "pmm_get_refcount 0x10000 ?s = 2"
    by (simp add: pmm_get_refcount_def cow_demo_def MAX_FRAMES_def unat_div)
  have "fst (cow_break (PHYS_TO_VIRT 0x1000) 0 ?s) = Cow_resolved"
    by (simp add: cow_break_def cow_demo_walk e has_def rc al Let_def)
  then obtain s' where s': "cow_break (PHYS_TO_VIRT 0x1000) 0 ?s = (Cow_resolved, s')" by (metis prod.collapse)
  have h: "cow_tag (PHYS_TO_VIRT 0x1000) = Some (4, 0)" "has (page ?s ?pt 0) PTE_COW" "has (page ?s ?pt 0) PTE_PRESENT"
    "page ?s ?pt 0 AND PTE_ADDR_MASK = 0x10000" "pmm_get_refcount 0x10000 ?s \<noteq> 1" "(0x10000 :: u64) = frame_addr 16"
    "16 < MAX_FRAMES" "pmm_test_bit 16 ?s" "cow_tag (PHYS_TO_VIRT 0x10000) = None"
    by (simp_all add: e rc has_def cow_tag_def frame_addr_def MAX_FRAMES_def)
  from vmm_cow_private_copy [OF cow_demo_wf h(1) cow_demo_walk h(2-9) s']
  obtain fn where fn: "\<not> pmm_test_bit fn ?s"
    "vmm_get_physical (PHYS_TO_VIRT 0x1000) 0 s' = frame_addr fn OR (0 AND 0xFFF)" by blast
  have "vmm_get_physical (PHYS_TO_VIRT 0x1000) 0 s' = frame_addr fn" unfolding fn(2) by simp
  with s' fn(1) show ?thesis by blast
qed

text \<open>
  Cloning forgets that a page was read-only. A present entry without write permission is marked
  copy-on-write in the parent when the address space is cloned; a later write fault on it is then
  resolved, unless memory runs out, and makes the page writable.
\<close>

theorem vmm_cow_grants_write:
  assumes "has (page s pt i) PTE_PRESENT" "\<not> has (page s pt i) PTE_WRITABLE"
    "clone_pte dst vaddr pt i s = (True, s1)" "fault_walk pml4 v s1 = Some (pt, i)"
    "cow_break pml4 v s1 = (r, s2)"
  shows "r = Cow_oom \<or> r = Cow_resolved \<and> has (page s2 pt i) PTE_WRITABLE"
proof -
  have p: "page s1 pt i = (page s pt i AND NOT PTE_WRITABLE) OR PTE_COW"
    using assms(1,3) by (auto simp: clone_pte_def Let_def split: if_splits prod.splits)
  have c: "has (page s1 pt i) PTE_COW" unfolding p has_or by (simp add: has_def)
  have "has (page s pt i AND NOT PTE_WRITABLE) PTE_PRESENT"
    using assms(1) by (simp add: has_def and.assoc)
  then have "has (page s1 pt i) PTE_PRESENT" unfolding p has_or by simp
  with c assms(4,5) show ?thesis
    by (auto simp: cow_break_def Let_def has_or has_def [of "2" 2] split: if_splits prod.splits)
qed

theorem vmm_cow_grants_write_witness:
  "\<exists>s1 r s2. clone_pte (PHYS_TO_VIRT 0x1000) 0x1000 (PHYS_TO_VIRT 0x4000) 0 (cow_demo 0x5) = (True, s1)
    \<and> \<not> has (page (cow_demo 0x5) (PHYS_TO_VIRT 0x4000) 0) PTE_WRITABLE
    \<and> cow_break (PHYS_TO_VIRT 0x1000) 0 s1 = (r, s2)
    \<and> (r = Cow_oom \<or> r = Cow_resolved \<and> has (page s2 (PHYS_TO_VIRT 0x4000) 0) PTE_WRITABLE)"
proof -
  let ?s = "cow_demo 0x5" and ?pt = "PHYS_TO_VIRT 0x4000"
  have e: "page ?s ?pt 0 = 0x10005" by (simp add: cow_demo_def)
  define s1 where "s1 = snd (clone_pte (PHYS_TO_VIRT 0x1000) 0x1000 ?pt 0 ?s)"
  have ix: "PML4_INDEX 0x1000 = 0" "PDPT_INDEX 0x1000 = 0" "PD_INDEX 0x1000 = 0" "PT_INDEX 0x1000 = 1"
    by (simp_all add: PML4_INDEX_def PDPT_INDEX_def PD_INDEX_def PT_INDEX_def)
  have c: "clone_pte (PHYS_TO_VIRT 0x1000) 0x1000 ?pt 0 ?s = (True, s1)"
    unfolding s1_def by (simp add: clone_pte_def vmm_map_page_def get_or_create_table_def ix cow_demo_def has_def
        entry_table_def Let_def PHYS_TO_VIRT_def)
  have w: "fault_walk (PHYS_TO_VIRT 0x1000) 0 s1 = Some (?pt, 0)"
    unfolding s1_def
    by (simp add: clone_pte_def vmm_map_page_def get_or_create_table_def ix cow_demo_def has_def entry_table_def
        Let_def PHYS_TO_VIRT_def fault_walk_def PML4_INDEX_def PDPT_INDEX_def PD_INDEX_def PT_INDEX_def)
  obtain r s2 where r: "cow_break (PHYS_TO_VIRT 0x1000) 0 s1 = (r, s2)" by fastforce
  have p: "has (page ?s ?pt 0) PTE_PRESENT" "\<not> has (page ?s ?pt 0) PTE_WRITABLE" by (simp_all add: e has_def)
  from vmm_cow_grants_write [OF p c w r] c r p show ?thesis by blast
qed

end
