(* ===== verification/Heap.thy ===== *)
theory Heap
  imports Vmm Libc_String
begin

unbundle bit_operations_syntax

text \<open>
  The kernel heap of \<open>memory/heap.c\<close>: first-fit allocation on a singly linked free list of blocks with
  headers. \<open>hdr\<close> is the header at each address of the heap region and \<open>data\<close> the bytes between the headers.
  Pointers are 64-bit values, 0 is NULL. Loops over the list are partial functions in the option monad: None means that the
  call never returns, \<open>Panic\<close> is a kernel panic. Log output is left out.
\<close>

section \<open>State\<close>

record heap_block =
  hb_magic :: u32
  hb_flags :: u32
  hb_size :: u64
  hb_next :: u64

record heap_st = vmm_st +
  heap_start_addr :: u64
  heap_end_addr :: u64
  heap_current :: u64
  free_list :: u64
  heap_used_bytes :: u64
  hdr :: "u64 \<Rightarrow> heap_block"
  data :: mem

abbreviation (input) HEAP_MIN_ALLOC :: u64 where "HEAP_MIN_ALLOC \<equiv> 16"
abbreviation (input) HEAP_MAGIC :: u32 where "HEAP_MAGIC \<equiv> 0xDEADBEEF"
abbreviation (input) BLOCK_FREE :: u32 where "BLOCK_FREE \<equiv> 1"
abbreviation (input) BLOCK_LAST :: u32 where "BLOCK_LAST \<equiv> 2"
abbreviation (input) HDR_SIZE :: u64 where "HDR_SIZE \<equiv> 32"

definition upd_hdr :: "u64 \<Rightarrow> (heap_block \<Rightarrow> heap_block) \<Rightarrow> 'a heap_st_scheme \<Rightarrow> 'a heap_st_scheme" where
  "upd_hdr b f s = s\<lparr>hdr := (hdr s)(b := f (hdr s b))\<rparr>"

definition is_free :: "heap_block \<Rightarrow> bool" where
  "is_free b \<longleftrightarrow> hb_flags b AND BLOCK_FREE \<noteq> 0"

definition is_last :: "heap_block \<Rightarrow> bool" where
  "is_last b \<longleftrightarrow> hb_flags b AND BLOCK_LAST \<noteq> 0"

section \<open>Helpers\<close>

definition block_to_ptr :: "u64 \<Rightarrow> u64" where
  "block_to_ptr block = block + HDR_SIZE"

definition ptr_to_block :: "u64 \<Rightarrow> u64" where
  "ptr_to_block ptr = ptr - HDR_SIZE"

definition next_block :: "u64 \<Rightarrow> 'a heap_st_scheme \<Rightarrow> u64" where
  "next_block block s = block + HDR_SIZE + hb_size (hdr s block)"

text \<open>The mapping loop of \<open>expand_heap\<close>, once per page.\<close>

primrec expand_pages :: "nat \<Rightarrow> u64 \<Rightarrow> 'a heap_st_scheme \<Rightarrow> int \<times> 'a heap_st_scheme" where
  "expand_pages 0 addr s = (0, s)"
| "expand_pages (Suc n) addr s =
     (let (phys, s1) = pmm_alloc_frame s in
      if phys = 0 then (-1, s1)
      else
        (let (r, s2) = vmm_map_page (kernel_pml4 s1) addr phys (PTE_PRESENT OR PTE_WRITABLE OR PTE_GLOBAL) s1 in
         if r \<noteq> 0 then (-1, pmm_free_frame phys s2) else expand_pages n (addr + 0x1000) s2))"

definition expand_heap :: "u64 \<Rightarrow> 'a heap_st_scheme \<Rightarrow> int \<times> 'a heap_st_scheme" where
  "expand_heap min_size s =
     (let needed = ALIGN_UP (min_size + HDR_SIZE) 0x1000; top = heap_current s + needed in
      if top > heap_end_addr s then (-1, s)
      else
        (let (r, s1) = expand_pages (if heap_current s < top then unat (needed div 0x1000) else 0) (heap_current s) s in
         if r < 0 then (-1, s1)
         else
           (let block = heap_current s1;
                s2 = upd_hdr block (\<lambda>_. \<lparr>hb_magic = HEAP_MAGIC, hb_flags = BLOCK_FREE OR BLOCK_LAST,
                       hb_size = needed - HDR_SIZE, hb_next = 0\<rparr>) s1;
                s3 = s2\<lparr>heap_current := heap_current s2 + needed\<rparr>;
                s4 = upd_hdr block (\<lambda>b. b\<lparr>hb_next := free_list s3\<rparr>) s3
            in (0, s4\<lparr>free_list := block\<rparr>))))"

section \<open>Allocation\<close>

definition heap_init :: "u64 \<Rightarrow> u64 \<Rightarrow> 'a heap_st_scheme \<Rightarrow> 'a heap_st_scheme" where
  "heap_init start sz s =
     snd (expand_heap (1024 * 1024)
       (s\<lparr>heap_start_addr := start, heap_end_addr := start + sz, heap_current := start, free_list := 0,
          heap_used_bytes := 0\<rparr>))"

text \<open>
  The search loop: \<open>prev\<close> is the cell that points to \<open>cur\<close>, None for the variable \<open>free_list\<close> and
  \<open>Some b\<close> for the link of block b. The result has \<open>cur = 0\<close> when no block fits.
\<close>

partial_function (option) find_fit ::
  "u64 \<Rightarrow> u64 option \<Rightarrow> u64 \<Rightarrow> 'a heap_st_scheme \<Rightarrow> (u64 option \<times> u64) outcome option" where
  "find_fit sz prev cur s =
     (if cur = 0 then Some (Done (prev, 0))
      else if hb_magic (hdr s cur) \<noteq> HEAP_MAGIC then Some Panic
      else if is_free (hdr s cur) \<and> sz \<le> hb_size (hdr s cur) then Some (Done (prev, cur))
      else find_fit sz (Some cur) (hb_next (hdr s cur)) s)"

definition set_prev :: "u64 option \<Rightarrow> u64 \<Rightarrow> 'a heap_st_scheme \<Rightarrow> 'a heap_st_scheme" where
  "set_prev prev v s =
     (case prev of None \<Rightarrow> s\<lparr>free_list := v\<rparr> | Some b \<Rightarrow> upd_hdr b (\<lambda>x. x\<lparr>hb_next := v\<rparr>) s)"

definition split_block :: "u64 \<Rightarrow> u64 option \<Rightarrow> u64 \<Rightarrow> 'a heap_st_scheme \<Rightarrow> 'a heap_st_scheme" where
  "split_block sz prev cur s =
     (let leftover = hb_size (hdr s cur) - sz in
      if leftover \<ge> HDR_SIZE + HEAP_MIN_ALLOC then
        (let new_block = cur + HDR_SIZE + sz;
             s1 = upd_hdr new_block (\<lambda>_. \<lparr>hb_magic = HEAP_MAGIC,
                    hb_flags = BLOCK_FREE OR (hb_flags (hdr s cur) AND BLOCK_LAST),
                    hb_size = leftover - HDR_SIZE, hb_next = hb_next (hdr s cur)\<rparr>) s;
             s2 = upd_hdr cur (\<lambda>b. b\<lparr>hb_size := sz, hb_flags := hb_flags b AND NOT BLOCK_LAST, hb_next := new_block\<rparr>) s1
         in set_prev prev new_block s2)
      else set_prev prev (hb_next (hdr s cur)) s)"

definition take_block :: "u64 \<Rightarrow> u64 option \<Rightarrow> u64 \<Rightarrow> 'a heap_st_scheme \<Rightarrow> 'a heap_st_scheme" where
  "take_block sz prev cur s =
     (let s1 = upd_hdr cur (\<lambda>b. b\<lparr>hb_flags := hb_flags b AND NOT BLOCK_FREE\<rparr>) (split_block sz prev cur s)
      in s1\<lparr>heap_used_bytes := heap_used_bytes s1 + hb_size (hdr s1 cur)\<rparr>)"

definition alloc_size :: "u64 \<Rightarrow> u64" where
  "alloc_size n = ALIGN_UP (max n HEAP_MIN_ALLOC) 16"

partial_function (option) kmalloc :: "u64 \<Rightarrow> 'a heap_st_scheme \<Rightarrow> (u64 \<times> 'a heap_st_scheme) outcome option" where
  "kmalloc n s =
     (if n = 0 then Some (Done (0, s))
      else
        (case find_fit (alloc_size n) None (free_list s) s of
           None \<Rightarrow> None
         | Some Panic \<Rightarrow> Some Panic
         | Some (Done (prev, cur)) \<Rightarrow>
             if cur \<noteq> 0 then Some (Done (block_to_ptr cur, take_block (alloc_size n) prev cur s))
             else if fst (expand_heap (alloc_size n) s) < 0 then Some (Done (0, snd (expand_heap (alloc_size n) s)))
             else kmalloc (alloc_size n) (snd (expand_heap (alloc_size n) s))))"

definition kmalloc_aligned :: "u64 \<Rightarrow> u64 \<Rightarrow> 'a heap_st_scheme \<Rightarrow> (u64 \<times> 'a heap_st_scheme) outcome option" where
  "kmalloc_aligned n align s =
     (if align \<le> 16 then kmalloc n s
      else
        (case kmalloc (n + align + 8) s of
           Some (Done (raw, s1)) \<Rightarrow>
             if raw = 0 then Some (Done (0, s1))
             else (let aligned = ALIGN_UP (raw + 8) align in
                   Some (Done (aligned, s1\<lparr>data := store64 (data s1) (aligned - 8) raw\<rparr>)))
         | r \<Rightarrow> r))"

definition kcalloc :: "u64 \<Rightarrow> u64 \<Rightarrow> 'a heap_st_scheme \<Rightarrow> (u64 \<times> 'a heap_st_scheme) outcome option" where
  "kcalloc count n s =
     (let total = count * n in
      case kmalloc total s of
        Some (Done (p, s1)) \<Rightarrow>
          Some (Done (p, if p \<noteq> 0 then s1\<lparr>data := memset (data s1) p 0 (unat total)\<rparr> else s1))
      | r \<Rightarrow> r)"

section \<open>Release\<close>

partial_function (option) coalesce_list :: "u64 \<Rightarrow> 'a heap_st_scheme \<Rightarrow> 'a heap_st_scheme option" where
  "coalesce_list cur s =
     (if cur = 0 \<or> is_last (hdr s cur) then Some s
      else
        (let nxt = next_block cur s in
         if hb_magic (hdr s nxt) = HEAP_MAGIC \<and> is_free (hdr s nxt) then
           (let s1 = upd_hdr cur (\<lambda>b. b\<lparr>hb_size := hb_size b + (HDR_SIZE + hb_size (hdr s nxt))\<rparr>) s;
                s2 = upd_hdr cur (\<lambda>b. b\<lparr>hb_flags := (hb_flags b AND NOT BLOCK_LAST) OR (hb_flags (hdr s1 nxt) AND BLOCK_LAST)\<rparr>) s1;
                s3 = upd_hdr cur (\<lambda>b. b\<lparr>hb_next := hb_next (hdr s2 nxt)\<rparr>) s2;
                s4 = upd_hdr nxt (\<lambda>b. b\<lparr>hb_magic := 0\<rparr>) s3
            in coalesce_list cur s4)
         else coalesce_list (hb_next (hdr s cur)) s))"

definition kfree :: "u64 \<Rightarrow> 'a heap_st_scheme \<Rightarrow> 'a heap_st_scheme outcome option" where
  "kfree ptr s =
     (if ptr = 0 then Some (Done s)
      else
        (let block = ptr_to_block ptr in
         if hb_magic (hdr s block) \<noteq> HEAP_MAGIC then Some Panic
         else if is_free (hdr s block) then Some Panic
         else
           (let s1 = s\<lparr>heap_used_bytes := heap_used_bytes s - hb_size (hdr s block)\<rparr>;
                s2 = upd_hdr block (\<lambda>b. b\<lparr>hb_flags := hb_flags b OR BLOCK_FREE, hb_next := free_list s1\<rparr>) s1;
                s3 = s2\<lparr>free_list := block\<rparr>
            in map_option Done (coalesce_list (free_list s3) s3))))"

definition krealloc :: "u64 \<Rightarrow> u64 \<Rightarrow> 'a heap_st_scheme \<Rightarrow> (u64 \<times> 'a heap_st_scheme) outcome option" where
  "krealloc ptr new_size s =
     (if ptr = 0 then kmalloc new_size s
      else if new_size = 0 then
        (case kfree ptr s of None \<Rightarrow> None | Some Panic \<Rightarrow> Some Panic | Some (Done s1) \<Rightarrow> Some (Done (0, s1)))
      else
        (let block = ptr_to_block ptr in
         if hb_magic (hdr s block) \<noteq> HEAP_MAGIC then Some Panic
         else if hb_size (hdr s block) \<ge> new_size then Some (Done (ptr, s))
         else
           (case kmalloc new_size s of
              Some (Done (new_ptr, s1)) \<Rightarrow>
                if new_ptr = 0 then Some (Done (0, s1))
                else
                  (let s2 = s1\<lparr>data := memcpy (data s1) new_ptr ptr (unat (hb_size (hdr s1 block)))\<rparr> in
                   case kfree ptr s2 of
                     None \<Rightarrow> None | Some Panic \<Rightarrow> Some Panic | Some (Done s3) \<Rightarrow> Some (Done (new_ptr, s3)))
            | r \<Rightarrow> r)))"

definition kheap_used :: "'a heap_st_scheme \<Rightarrow> u64" where
  "kheap_used s = heap_used_bytes s"

definition kheap_free :: "'a heap_st_scheme \<Rightarrow> u64" where
  "kheap_free s = heap_end_addr s - heap_current s + (heap_current s - heap_start_addr s) - heap_used_bytes s"

section \<open>Sizes\<close>

lemma unat_ALIGN_UP:
  assumes "unat x + 2 ^ k < 2 ^ 64" "k < 64"
  shows "unat (ALIGN_UP x (2 ^ k)) = (unat x + (2 ^ k - 1)) div 2 ^ k * 2 ^ k"
proof -
  define y where "y = x + mask k"
  have "(2 :: nat) ^ k < 2 ^ 64" using assms(2) by (rule power_strict_increasing) simp
  then have lt: "(2 :: nat) ^ k - 1 < 2 ^ 64" by simp
  have "(mask k :: u64) = of_nat (2 ^ k - 1)" by (simp add: mask_eq_exp_minus_1 of_nat_diff)
  then have m: "unat (mask k :: u64) = 2 ^ k - 1"
    using lt by (simp only: unsigned_of_nat) (simp add: take_bit_nat_eq_self)
  have yl: "unat y < 2 ^ 64" by (rule unat_u64_less)
  have y: "unat y = unat x + (2 ^ k - 1)"
    unfolding y_def using assms by (subst unat_add_lem [THEN iffD1]) (simp_all add: m)
  have "y AND NOT (mask k) = push_bit k (drop_bit k y)"
    by (rule bit_word_eqI) (auto simp: bit_simps)
  then have "unat (y AND NOT (mask k)) = take_bit 64 (unat y div 2 ^ k * 2 ^ k)"
    using yl by (simp only: unsigned_push_bit_eq unsigned_drop_bit_eq)
      (simp add: push_bit_eq_mult drop_bit_eq_div take_bit_nat_eq_self)
  moreover have "unat y div 2 ^ k * 2 ^ k < 2 ^ 64"
    using le_less_trans [OF div_times_less_eq_dividend yl] by simp
  ultimately show ?thesis
    by (simp add: ALIGN_UP_def y_def [symmetric] mask_eq_exp_minus_1 [symmetric] y take_bit_nat_eq_self)
qed

lemma alloc_size_nat:
  assumes "unat n < 2 ^ 63"
  shows "unat (alloc_size n) = (max (unat n) 16 + 15) div 16 * 16"
proof -
  have "unat (max n 16) = max (unat n) 16" by (simp add: max_def word_le_nat_alt)
  then show ?thesis
    using assms unat_ALIGN_UP [of "max n 16" 4] by (simp add: alloc_size_def)
qed

lemma alloc_size_bounds:
  assumes "unat n < 2 ^ 63"
  shows "unat n \<le> unat (alloc_size n)" "16 \<le> unat (alloc_size n)" "16 dvd unat (alloc_size n)"
    "unat (alloc_size n) < max (unat n) 16 + 16"
  using assms by (auto simp: alloc_size_nat)

lemma alloc_size_idem:
  assumes "unat n < 2 ^ 62"
  shows "alloc_size (alloc_size n) = alloc_size n"
proof -
  have "unat (alloc_size n) < 2 ^ 63" using alloc_size_bounds [of n] assms by (simp add: max_def split: if_splits)
  from alloc_size_nat [OF this] alloc_size_bounds(2,3) [of n] assms
  have "unat (alloc_size (alloc_size n)) = unat (alloc_size n)" by (auto simp: max_def)
  then show ?thesis by (simp add: word_unat_eq_iff)
qed

section \<open>Well-formed heaps\<close>

text \<open>
  The blocks \<open>bs\<close> tile the region from its start to the break, and the free list runs through the distinct
  blocks \<open>xs\<close>, which are free blocks of the tiling.
\<close>

primrec chain :: "u64 \<Rightarrow> u64 list \<Rightarrow> (u64 \<Rightarrow> heap_block) \<Rightarrow> bool" where
  "chain p [] h \<longleftrightarrow> p = 0"
| "chain p (x # xs) h \<longleftrightarrow> p = x \<and> x \<noteq> 0 \<and> chain (hb_next (h x)) xs h"

primrec tiles :: "nat \<Rightarrow> u64 list \<Rightarrow> nat \<Rightarrow> (u64 \<Rightarrow> heap_block) \<Rightarrow> bool" where
  "tiles a [] e h \<longleftrightarrow> a = e"
| "tiles a (b # bs) e h \<longleftrightarrow> unat b = a \<and> hb_magic (h b) = HEAP_MAGIC \<and> 16 dvd unat (hb_size (h b))
     \<and> tiles (a + 32 + unat (hb_size (h b))) bs e h"

definition heap_wf :: "u64 list \<Rightarrow> u64 list \<Rightarrow> 'a heap_st_scheme \<Rightarrow> bool" where
  "heap_wf bs xs s \<longleftrightarrow>
     tiles (unat (heap_start_addr s)) bs (unat (heap_current s)) (hdr s) \<and> chain (free_list s) xs (hdr s) \<and> distinct xs
     \<and> set xs \<subseteq> set bs \<and> (\<forall>x\<in>set xs. is_free (hdr s x)) \<and> heap_current s \<le> heap_end_addr s
     \<and> unat (heap_end_addr s) + 2 ^ 40 < 2 ^ 64 \<and> heap_start_addr s \<noteq> 0 \<and> 16 dvd unat (heap_start_addr s)"

definition extent :: "'a heap_st_scheme \<Rightarrow> u64 \<Rightarrow> nat set" where
  "extent s b = {unat b..<unat b + 32 + unat (hb_size (hdr s b))}"

definition live :: "u64 list \<Rightarrow> 'a heap_st_scheme \<Rightarrow> u64 set" where
  "live bs s = {b \<in> set bs. \<not> is_free (hdr s b)}"

lemma tiles_append: "tiles a (us @ vs) e h \<longleftrightarrow> (\<exists>m. tiles a us m h \<and> tiles m vs e h)"
  by (induction us arbitrary: a) auto

lemma tiles_le: "tiles a bs e h \<Longrightarrow> a \<le> e"
  by (induction bs arbitrary: a) (auto dest: add_leD1)

lemma tiles_mem:
  assumes "tiles a bs e h" "b \<in> set bs"
  shows "a \<le> unat b" "unat b + 32 + unat (hb_size (h b)) \<le> e" "hb_magic (h b) = HEAP_MAGIC"
    "16 dvd unat (hb_size (h b))" "16 dvd a \<Longrightarrow> 16 dvd unat b"
proof -
  obtain us vs where "bs = us @ b # vs" using assms(2) by (auto simp: in_set_conv_decomp)
  then obtain m where m: "tiles a us m h" "tiles m (b # vs) e h" using assms(1) by (auto simp: tiles_append)
  then show "a \<le> unat b" "unat b + 32 + unat (hb_size (h b)) \<le> e" "hb_magic (h b) = HEAP_MAGIC"
    "16 dvd unat (hb_size (h b))"
    using tiles_le [OF m(1)] tiles_le [of _ vs e h] by auto
  have "tiles a us m h \<Longrightarrow> 16 dvd a \<Longrightarrow> 16 dvd m" for a
  proof (induction us arbitrary: a)
    case (Cons u us)
    have "(16 :: nat) dvd 32" by simp
    with Cons show ?case by (metis tiles.simps(2) dvd_add)
  qed simp
  then show "16 dvd a \<Longrightarrow> 16 dvd unat b" using m by simp
qed

lemma tiles_disjoint:
  assumes "tiles a bs e h" "b \<in> set bs" "c \<in> set bs" "b \<noteq> c"
  shows "unat b + 32 + unat (hb_size (h b)) \<le> unat c \<or> unat c + 32 + unat (hb_size (h c)) \<le> unat b"
  using assms
proof (induction bs arbitrary: a)
  case (Cons d bs)
  have "unat d + 32 + unat (hb_size (h d)) \<le> unat x" if "x \<in> set bs" for x
    using Cons.prems(1) tiles_mem(1) [of _ bs e h x] that by simp
  with Cons show ?case by auto
qed simp

lemma tiles_cong:
  assumes "\<And>b. b \<in> set bs \<Longrightarrow> hb_size (g b) = hb_size (h b) \<and> hb_magic (g b) = hb_magic (h b)"
  shows "tiles a bs e g \<longleftrightarrow> tiles a bs e h"
  using assms by (induction bs arbitrary: a) auto

lemma chain_cong:
  assumes "\<And>b. b \<in> set xs \<Longrightarrow> hb_next (g b) = hb_next (h b)"
  shows "chain p xs g \<longleftrightarrow> chain p xs h"
  using assms by (induction xs arbitrary: p) auto

lemma chain_nonzero: "chain p xs h \<Longrightarrow> x \<in> set xs \<Longrightarrow> x \<noteq> 0"
  by (induction xs arbitrary: p) auto

lemma chain_relink:
  assumes "chain f (ys @ ws) h" "ys \<noteq> [] \<Longrightarrow> hb_next (g (last ys)) = v"
    "\<And>b. b \<in> set (butlast ys) \<Longrightarrow> hb_next (g b) = hb_next (h b)" "chain v ws' g"
  shows "chain (if ys = [] then v else f) (ys @ ws') g"
  using assms
proof (induction ys arbitrary: f)
  case (Cons y ys)
  then show ?case by (cases "ys = []") auto
qed simp

lemma chain_suffix: "chain f (ys @ x # zs) h \<Longrightarrow> chain (hb_next (h x)) zs h"
  by (induction ys arbitrary: f) auto

section \<open>The search\<close>

definition prev_of :: "u64 list \<Rightarrow> u64 option \<Rightarrow> u64 option" where
  "prev_of ys p = (if ys = [] then p else Some (last ys))"

lemma find_fit_chain:
  assumes "chain f (ys @ zs) (hdr s)" "\<And>y. y \<in> set ys \<Longrightarrow> hb_magic (hdr s y) = HEAP_MAGIC"
    "\<And>y. y \<in> set ys \<Longrightarrow> \<not> (is_free (hdr s y) \<and> sz \<le> hb_size (hdr s y))"
  shows "find_fit sz p f s = find_fit sz (prev_of ys p) (if zs = [] then 0 else hd zs) s"
  using assms
proof (induction ys arbitrary: f p)
  case Nil
  then show ?case by (cases zs) (auto simp: prev_of_def)
next
  case (Cons y ys)
  then have "find_fit sz p f s = find_fit sz (Some y) (hb_next (hdr s y)) s"
    by (subst find_fit.simps) auto
  also have "\<dots> = find_fit sz (prev_of ys (Some y)) (if zs = [] then 0 else hd zs) s"
    by (rule Cons.IH) (use Cons.prems in auto)
  finally show ?case by (simp add: prev_of_def)
qed

lemma find_fit_none:
  assumes "chain f xs (hdr s)" "\<And>y. y \<in> set xs \<Longrightarrow> hb_magic (hdr s y) = HEAP_MAGIC"
    "\<And>y. y \<in> set xs \<Longrightarrow> hb_size (hdr s y) < sz"
  shows "find_fit sz p f s = Some (Done (prev_of xs p, 0))"
proof -
  have "find_fit sz p f s = find_fit sz (prev_of xs p) 0 s"
    using assms by (intro find_fit_chain [of f xs "[]" s sz p, simplified]) (auto simp: not_le)
  then show ?thesis by (simp add: find_fit.simps [of _ _ 0])
qed

lemma find_fit_some:
  assumes "chain f (ys @ x # zs) (hdr s)" "\<And>y. y \<in> set (ys @ [x]) \<Longrightarrow> hb_magic (hdr s y) = HEAP_MAGIC"
    "\<And>y. y \<in> set ys \<Longrightarrow> hb_size (hdr s y) < sz" "is_free (hdr s x)" "sz \<le> hb_size (hdr s x)"
  shows "find_fit sz p f s = Some (Done (prev_of ys p, x))"
proof -
  have "x \<noteq> 0" using chain_nonzero [OF assms(1)] by simp
  moreover have "find_fit sz p f s = find_fit sz (prev_of ys p) x s"
    using find_fit_chain [of f ys "x # zs" s sz p] assms by fastforce
  ultimately show ?thesis using assms(2,4,5) by (subst (asm) (2) find_fit.simps) simp
qed

section \<open>Taking a block\<close>

lemma upd_hdr_sel [simp]: "hdr (upd_hdr b f s) = (hdr s)(b := f (hdr s b))" "free_list (upd_hdr b f s) = free_list s"
  "heap_start_addr (upd_hdr b f s) = heap_start_addr s" "heap_end_addr (upd_hdr b f s) = heap_end_addr s"
  "heap_current (upd_hdr b f s) = heap_current s" "heap_used_bytes (upd_hdr b f s) = heap_used_bytes s"
  by (simp_all add: upd_hdr_def)

lemma set_prev_sel:
  "free_list (set_prev (prev_of ys None) v s) = (if ys = [] then v else free_list s)"
  "hdr (set_prev (prev_of ys None) v s)
    = (if ys = [] then hdr s else (hdr s)(last ys := (hdr s (last ys))\<lparr>hb_next := v\<rparr>))"
  "heap_start_addr (set_prev p v s) = heap_start_addr s" "heap_end_addr (set_prev p v s) = heap_end_addr s"
  "heap_current (set_prev p v s) = heap_current s"
  by (auto simp: set_prev_def prev_of_def split: option.splits)

lemma distinct_butlast_last: "distinct ys \<Longrightarrow> ys \<noteq> [] \<Longrightarrow> last ys \<notin> set (butlast ys)"
  by (cases ys rule: rev_cases) auto

text \<open>What taking a block changes in the headers: \<open>g\<close> after, \<open>h\<close> before.\<close>

lemma take_whole:
  assumes wf: "heap_wf bs (ys @ x # zs) s" and sz: "hb_size (hdr s x) - sz < 48"
  defines "t \<equiv> take_block sz (prev_of ys None) x s"
  shows "heap_wf bs (ys @ zs) t \<and> live bs t = insert x (live bs s) \<and> hb_size (hdr t x) = hb_size (hdr s x)
    \<and> (\<forall>b\<in>set bs. hb_size (hdr t b) = hb_size (hdr s b))"
proof -
  have d: "distinct (ys @ x # zs)" "x \<in> set bs" using wf by (auto simp: heap_wf_def)
  have ne: "ys \<noteq> [] \<Longrightarrow> last ys \<noteq> x" "ys \<noteq> [] \<Longrightarrow> last ys \<notin> set zs" "ys \<noteq> [] \<Longrightarrow> last ys \<notin> set (butlast ys)"
    using d(1) last_in_set [of ys] distinct_butlast_last [of ys] by (auto simp: disjoint_iff)
  have g: "hdr t b = (if b = x then (hdr s x)\<lparr>hb_flags := hb_flags (hdr s x) AND NOT BLOCK_FREE\<rparr>
      else if ys \<noteq> [] \<and> b = last ys then (hdr s b)\<lparr>hb_next := hb_next (hdr s x)\<rparr> else hdr s b)" for b
    using sz ne by (simp add: t_def take_block_def split_block_def Let_def set_prev_sel not_le [symmetric])
  have same: "hb_size (hdr t b) = hb_size (hdr s b)" "hb_magic (hdr t b) = hb_magic (hdr s b)"
    "is_free (hdr t b) \<longleftrightarrow> b \<noteq> x \<and> is_free (hdr s b)" for b
    by (simp_all add: g is_free_def and.assoc)
  have sel: "free_list t = (if ys = [] then hb_next (hdr s x) else free_list s)" "heap_start_addr t = heap_start_addr s"
    "heap_end_addr t = heap_end_addr s" "heap_current t = heap_current s"
    using sz by (simp_all add: t_def take_block_def split_block_def Let_def set_prev_sel not_le [symmetric])
  have c: "chain (free_list s) (ys @ x # zs) (hdr s)" using wf by (simp add: heap_wf_def)
  have "chain (hb_next (hdr s x)) zs (hdr t)"
    using chain_suffix [OF c] d ne by (subst chain_cong [where h = "hdr s"]) (auto simp: g)
  then have "chain (free_list t) (ys @ zs) (hdr t)"
    unfolding sel using d ne by (intro chain_relink [OF c]) (auto simp: g dest: in_set_butlastD)
  moreover have "tiles (unat (heap_start_addr s)) bs (unat (heap_current s)) (hdr t)"
    using wf by (subst tiles_cong [where h = "hdr s"]) (auto simp: same heap_wf_def)
  ultimately show ?thesis
    using wf d by (auto simp: heap_wf_def sel same live_def)
qed

lemma new_block_nat:
  assumes wf: "heap_wf bs xs s" and x: "x \<in> set bs" and sz: "sz \<le> hb_size (hdr s x)" "48 \<le> hb_size (hdr s x) - sz"
  shows "unat (x + 32 + sz) = unat x + 32 + unat sz" "x + 32 + sz \<notin> set bs"
    "unat (hb_size (hdr s x) - sz - 32) + 32 + unat sz = unat (hb_size (hdr s x))"
proof -
  have T: "tiles (unat (heap_start_addr s)) bs (unat (heap_current s)) (hdr s)" using wf by (simp add: heap_wf_def)
  have top: "unat (heap_current s) < 2 ^ 64" by (rule unat_u64_less)
  have d: "unat (hb_size (hdr s x) - sz) = unat (hb_size (hdr s x)) - unat sz" "unat sz \<le> unat (hb_size (hdr s x))"
    using sz(1) by (simp_all add: unat_sub word_le_nat_alt)
  then have l: "48 \<le> unat (hb_size (hdr s x)) - unat sz" using sz(2) by (simp add: word_le_nat_alt)
  have "unat (hb_size (hdr s x) - sz - 32) = unat (hb_size (hdr s x) - sz) - 32"
    using l d by (subst unat_sub) (simp_all add: word_le_nat_alt)
  then show "unat (hb_size (hdr s x) - sz - 32) + 32 + unat sz = unat (hb_size (hdr s x))" using d l by simp
  have n: "unat x + 32 + unat sz + 16 \<le> unat (heap_current s)" using tiles_mem(2) [OF T x] l d by simp
  then have "unat (x + 32) = unat x + 32" using top by (subst unat_add_lem [THEN iffD1]) simp_all
  with n top show e: "unat (x + 32 + sz) = unat x + 32 + unat sz"
    by (subst unat_add_lem [THEN iffD1]) simp_all
  show "x + 32 + sz \<notin> set bs"
  proof
    assume c: "x + 32 + sz \<in> set bs"
    have "unat x \<noteq> unat (x + 32 + sz)" unfolding e by simp
    then have "x \<noteq> x + 32 + sz" by metis
    from tiles_disjoint [OF T x c this] show False using e l d by simp
  qed
qed

lemma tiles_split:
  assumes "tiles a (us @ x # vs) e h" "x \<notin> set us" "x \<notin> set vs"
    and "hb_magic (g x) = HEAP_MAGIC" "hb_magic (g nb) = HEAP_MAGIC" "unat nb = unat x + 32 + unat (hb_size (g x))"
    and "16 dvd unat (hb_size (g x))" "unat (hb_size (g nb)) + 32 + unat (hb_size (g x)) = unat (hb_size (h x))"
    and "\<And>b. b \<in> set us \<union> set vs \<Longrightarrow> hb_size (g b) = hb_size (h b) \<and> hb_magic (g b) = hb_magic (h b)"
  shows "tiles a (us @ x # nb # vs) e g"
proof -
  obtain m where m: "tiles a us m h" "tiles m (x # vs) e h" using assms(1) by (auto simp: tiles_append)
  have "16 dvd unat (hb_size (g nb)) + 32 + unat (hb_size (g x))" using m(2) assms(8) by simp
  then have "16 dvd unat (hb_size (g nb))" using assms(7) by (simp add: dvd_add_left_iff)
  moreover have "tiles a us m g" using m(1) assms(9) by (subst tiles_cong [where h = h]) auto
  moreover have n: "m + 32 + unat (hb_size (h x)) = m + 32 + unat (hb_size (g x)) + 32 + unat (hb_size (g nb))"
    using assms(8) by simp
  have "tiles (m + 32 + unat (hb_size (h x))) vs e g"
    using m(2) assms(9) by (subst tiles_cong [where h = h]) auto
  moreover note this [unfolded n]
  ultimately have "tiles m (x # nb # vs) e g" "tiles a us m g" using m(2) assms(4-7) by simp_all
  then show ?thesis unfolding tiles_append by blast
qed

lemma distinct_tiles: "tiles a bs e h \<Longrightarrow> distinct bs"
proof (induction bs arbitrary: a)
  case (Cons b bs)
  then show ?case using tiles_mem(1) [of _ bs e h b] by fastforce
qed simp

lemma take_split_hdr:
  assumes "48 \<le> hb_size (hdr s x) - sz" "x + 32 + sz \<noteq> x" "ys \<noteq> [] \<Longrightarrow> last ys \<noteq> x" "ys \<noteq> [] \<Longrightarrow> last ys \<noteq> x + 32 + sz"
  defines "t \<equiv> take_block sz (prev_of ys None) x s" and "nb \<equiv> x + 32 + sz"
  shows "hdr t b = (if b = x then (hdr s x)\<lparr>hb_size := sz,
        hb_flags := (hb_flags (hdr s x) AND NOT BLOCK_LAST) AND NOT BLOCK_FREE, hb_next := nb\<rparr>
      else if b = nb then \<lparr>hb_magic = HEAP_MAGIC, hb_flags = BLOCK_FREE OR (hb_flags (hdr s x) AND BLOCK_LAST),
        hb_size = hb_size (hdr s x) - sz - 32, hb_next = hb_next (hdr s x)\<rparr>
      else if ys \<noteq> [] \<and> b = last ys then (hdr s b)\<lparr>hb_next := nb\<rparr> else hdr s b)"
    and "free_list t = (if ys = [] then nb else free_list s)" "heap_start_addr t = heap_start_addr s"
    "heap_end_addr t = heap_end_addr s" "heap_current t = heap_current s"
proof -
  note d = take_block_def split_block_def Let_def set_prev_sel
  show "hdr t b = (if b = x then (hdr s x)\<lparr>hb_size := sz,
        hb_flags := (hb_flags (hdr s x) AND NOT BLOCK_LAST) AND NOT BLOCK_FREE, hb_next := nb\<rparr>
      else if b = nb then \<lparr>hb_magic = HEAP_MAGIC, hb_flags = BLOCK_FREE OR (hb_flags (hdr s x) AND BLOCK_LAST),
        hb_size = hb_size (hdr s x) - sz - 32, hb_next = hb_next (hdr s x)\<rparr>
      else if ys \<noteq> [] \<and> b = last ys then (hdr s b)\<lparr>hb_next := nb\<rparr> else hdr s b)"
    using assms(1-4) unfolding t_def nb_def by (cases "ys = []") (simp_all add: d)
qed (use assms(1) in \<open>simp_all add: t_def nb_def take_block_def split_block_def Let_def set_prev_sel\<close>)

lemma take_split:
  assumes wf: "heap_wf (us @ x # vs) (ys @ x # zs) s"
    and sz: "sz \<le> hb_size (hdr s x)" "48 \<le> hb_size (hdr s x) - sz" "16 dvd unat sz"
  defines "t \<equiv> take_block sz (prev_of ys None) x s" and "nb \<equiv> x + 32 + sz"
  shows "heap_wf (us @ x # nb # vs) (ys @ nb # zs) t \<and> live (us @ x # nb # vs) t = insert x (live (us @ x # vs) s)
    \<and> hb_size (hdr t x) = sz \<and> (\<forall>b\<in>set us \<union> set vs. hb_size (hdr t b) = hb_size (hdr s b))"
proof -
  have T: "tiles (unat (heap_start_addr s)) (us @ x # vs) (unat (heap_current s)) (hdr s)"
    and c: "chain (free_list s) (ys @ x # zs) (hdr s)" and sub: "set (ys @ x # zs) \<subseteq> set (us @ x # vs)"
    and fr: "\<forall>b\<in>set (ys @ x # zs). is_free (hdr s b)"
    using wf by (simp_all add: heap_wf_def)
  have d: "distinct (ys @ x # zs)" "distinct (us @ x # vs)" using wf distinct_tiles [OF T] by (auto simp: heap_wf_def)
  note nb = new_block_nat [OF wf _ sz(1,2), simplified, folded nb_def]
  have ne: "ys \<noteq> [] \<Longrightarrow> last ys \<noteq> x" "ys \<noteq> [] \<Longrightarrow> last ys \<notin> set zs" "ys \<noteq> [] \<Longrightarrow> last ys \<notin> set (butlast ys)"
    using d(1) last_in_set [of ys] distinct_butlast_last [of ys] by (auto simp: disjoint_iff)
  have "nb \<noteq> x" using nb(1) by auto
  then have nl1: "nb \<notin> set (ys @ x # zs)" using nb(2) sub by auto
  then have nl: "nb \<notin> set (ys @ x # zs)" "nb \<noteq> x" "ys \<noteq> [] \<Longrightarrow> last ys \<noteq> nb" "nb \<noteq> 0"
    using nb(1) last_in_set [of ys] by (auto simp: unat_eq_0)
  note g = take_split_hdr(1) [OF sz(2) nl(2) [unfolded nb_def] ne(1) nl(3) [unfolded nb_def], folded t_def nb_def]
  have sel: "free_list t = (if ys = [] then nb else free_list s)" "heap_start_addr t = heap_start_addr s"
    "heap_end_addr t = heap_end_addr s" "heap_current t = heap_current s"
    using take_split_hdr(2-5) [OF sz(2) nl(2) [unfolded nb_def] ne(1) nl(3) [unfolded nb_def]] by (simp_all add: t_def nb_def)
  have same: "hb_size (hdr t b) = hb_size (hdr s b)" "hb_magic (hdr t b) = hb_magic (hdr s b)"
    "is_free (hdr t b) \<longleftrightarrow> is_free (hdr s b)" if "b \<noteq> x" "b \<noteq> nb" for b
    using that by (simp_all add: g is_free_def)
  have fl: "\<not> is_free (hdr t x)" "is_free (hdr t nb)"
    using nl(2) by (simp_all add: g is_free_def and.assoc bit.conj_disj_distrib2)
  have "chain (hb_next (hdr s x)) zs (hdr t)"
    using chain_suffix [OF c] d ne nl(1) by (subst chain_cong [where h = "hdr s"]) (auto simp: g)
  then have "chain nb (nb # zs) (hdr t)" using nl by (simp add: g)
  then have C: "chain (free_list t) (ys @ nb # zs) (hdr t)"
    unfolding sel using d ne nl(1) by (intro chain_relink [OF c]) (auto simp: g dest: in_set_butlastD)
  have T': "tiles (unat (heap_start_addr t)) (us @ x # nb # vs) (unat (heap_current t)) (hdr t)"
    unfolding sel
  proof (rule tiles_split [OF T])
    show "hb_magic (hdr t x) = HEAP_MAGIC" using tiles_mem(3) [OF T, of x] by (simp add: g)
    show "hb_size (hdr t b) = hb_size (hdr s b) \<and> hb_magic (hdr t b) = hb_magic (hdr s b)" if "b \<in> set us \<union> set vs" for b
      using same(1,2) [of b] that nb(2) d(2) by auto
  qed (use d(2) sz(3) nb nl in \<open>simp_all add: g\<close>)
  have same': "is_free (hdr t b) \<longleftrightarrow> is_free (hdr s b)" "hb_size (hdr t b) = hb_size (hdr s b)"
    if "b \<in> set us \<union> set vs" for b
    using same(1,3) [of b] that nb(2) d(2) by auto
  have F: "is_free (hdr t b)" if "b \<in> set (ys @ nb # zs)" for b
  proof (cases "b = nb")
    case False
    then have "b \<in> set (ys @ x # zs)" "b \<noteq> x" using that d(1) by auto
    then show ?thesis using same(3) [OF _ False] fr by blast
  qed (simp add: fl)
  show ?thesis
  proof (intro conjI)
    show "heap_wf (us @ x # nb # vs) (ys @ nb # zs) t"
      using wf C T' d(1) nl(1) sub F by (auto simp: heap_wf_def sel)
    show "live (us @ x # nb # vs) t = insert x (live (us @ x # vs) s)"
      using same'(1) fl fr by (auto simp: live_def)
    show "hb_size (hdr t x) = sz" by (simp add: g)
    show "\<forall>b\<in>set us \<union> set vs. hb_size (hdr t b) = hb_size (hdr s b)" using same'(2) by blast
  qed
qed

section \<open>Growing the heap\<close>

text \<open>The fields that the frame allocator and the page tables leave alone.\<close>

definition heap_part :: "'a heap_st_scheme \<Rightarrow> (u64 \<Rightarrow> heap_block) \<times> u64 \<times> u64 \<times> u64 \<times> u64 \<times> u64 \<times> mem \<times> 'a" where
  "heap_part s = (hdr s, free_list s, heap_start_addr s, heap_end_addr s, heap_current s, heap_used_bytes s, data s, heap_st.more s)"

lemma alloc_frame_heap [frame]: "heap_part (snd (pmm_alloc_frame s)) = heap_part s"
  by (auto simp: pmm_alloc_frame_def take_frame_def pmm_set_ref_def pmm_used_inc_def pmm_set_bit_def heap_part_def
      split: option.splits)

lemma free_frame_heap [frame]: "heap_part (pmm_free_frame a s) = heap_part s"
  by (simp add: pmm_free_frame_def pmm_set_ref_def pmm_used_dec_def pmm_clear_bit_def heap_part_def Let_def)

lemma set_entry_heap [frame]: "heap_part (set_entry p i e s) = heap_part s" "heap_part (set_page p f s) = heap_part s"
  by (simp_all add: set_entry_def set_page_def heap_part_def)

lemma create_table_heap [frame]: "heap_part (snd (get_or_create_table p i fl s)) = heap_part s"
proof -
  obtain a t where t: "pmm_alloc_frame s = (a, t)" by fastforce
  then have "heap_part t = heap_part s" using alloc_frame_heap [of s] by simp
  then show ?thesis by (simp add: t get_or_create_table_def alloc_page_table_def Let_def frame)
qed

lemma map_page_heap [frame]: "heap_part (snd (vmm_map_page p v a fl s)) = heap_part s"
proof -
  have *: "get_or_create_table q i e t = (r, u) \<Longrightarrow> heap_part u = heap_part t" for q i e r and t u :: "'a heap_st_scheme"
    using create_table_heap [of q i e t] by simp
  show ?thesis
    by (auto simp: vmm_map_page_def Let_def frame split: prod.splits dest!: *)
qed

lemma expand_pages_heap: "heap_part (snd (expand_pages n a s)) = heap_part s"
proof (induction n arbitrary: a s)
  case (Suc n)
  obtain phys s1 where 1: "pmm_alloc_frame s = (phys, s1)" by fastforce
  obtain r s2 where 2: "vmm_map_page (kernel_pml4 s1) a phys (PTE_PRESENT OR PTE_WRITABLE OR PTE_GLOBAL) s1 = (r, s2)" by fastforce
  have "heap_part s1 = heap_part s" "heap_part s2 = heap_part s1"
    using alloc_frame_heap [of s] map_page_heap [of "kernel_pml4 s1" a phys "PTE_PRESENT OR PTE_WRITABLE OR PTE_GLOBAL" s1] 1 2 by simp_all
  then show ?case using Suc.IH 1 2 by (simp add: frame)
qed simp

lemma heap_wf_cong: "heap_part t = heap_part s \<Longrightarrow> heap_wf bs xs t \<longleftrightarrow> heap_wf bs xs s"
  by (simp add: heap_part_def heap_wf_def)

lemma expand_size:
  assumes "unat m < 2 ^ 39"
  defines "n \<equiv> ALIGN_UP (m + HDR_SIZE) 0x1000"
  shows "unat n < 2 ^ 40" "unat m + 32 \<le> unat n" "16 dvd unat n"
proof -
  have "unat (m + 32) = unat m + 32" using assms(1) by (subst unat_add_lem [THEN iffD1]) simp_all
  then have n: "unat n = (unat m + 32 + 4095) div 4096 * 4096"
    using unat_ALIGN_UP [of "m + 32" 12] assms(1) by (simp add: n_def)
  show "unat n < 2 ^ 40" "unat m + 32 \<le> unat n" using assms(1) by (simp_all add: n)
  show "16 dvd unat n" unfolding n by (rule dvd_mult) simp
qed

lemma expand_heap_wf:
  assumes wf: "heap_wf bs xs s" and m: "unat m < 2 ^ 39" and ex: "expand_heap m s = (r, t)" and c: "c = heap_current s"
  shows "r = -1 \<and> heap_part t = heap_part s \<or>
    r = 0 \<and> heap_wf (bs @ [c]) (c # xs) t \<and> c \<notin> set bs \<and> m \<le> hb_size (hdr t c) \<and> is_free (hdr t c) \<and> (\<forall>b\<in>set bs. hdr t b = hdr s b)"
proof -
  define n where "n = ALIGN_UP (m + HDR_SIZE) 0x1000"
  note n = expand_size [OF m, folded n_def]
  define k where "k = (if heap_current s < heap_current s + n then unat (n div 0x1000) else 0)"
  obtain q u where q: "expand_pages k (heap_current s) s = (q, u)" by fastforce
  have u: "heap_part u = heap_part s" using expand_pages_heap [of k "heap_current s" s] q by simp
  show ?thesis
  proof (cases "heap_current s + n > heap_end_addr s \<or> q < 0")
    case True
    then show ?thesis using ex q u by (auto simp: expand_heap_def Let_def n_def [symmetric] k_def [symmetric] split: if_splits)
  next
    case False
    have T: "tiles (unat (heap_start_addr s)) bs (unat (heap_current s)) (hdr s)" using wf by (simp add: heap_wf_def)
    have nb: "c \<notin> set bs" using tiles_mem(2) [OF T, of c] by (auto simp: c)
    have t: "hdr t b = (if b = c then \<lparr>hb_magic = HEAP_MAGIC, hb_flags = BLOCK_FREE OR BLOCK_LAST, hb_size = n - 32,
        hb_next = free_list s\<rparr> else hdr s b)" "r = 0" "free_list t = c" "heap_current t = heap_current s + n"
      "heap_start_addr t = heap_start_addr s" "heap_end_addr t = heap_end_addr s" for b
      using ex q u False by (auto simp: expand_heap_def Let_def n_def [symmetric] k_def [symmetric] heap_part_def c)
    have top: "unat (heap_current s + n) = unat (heap_current s) + unat n"
      using wf n(1) by (subst unat_add_lem [THEN iffD1]) (auto simp: heap_wf_def word_le_nat_alt)
    have sz: "unat (n - 32) = unat n - 32" using n(2) by (subst unat_sub) (auto simp: word_le_nat_alt)
    have "tiles (unat (heap_start_addr s)) bs (unat c) (hdr t)"
      using T nb by (subst tiles_cong [where h = "hdr s"]) (auto simp: t(1) c)
    moreover have "chain (free_list s) xs (hdr t)"
      using wf nb by (subst chain_cong [where h = "hdr s"]) (auto simp: t(1) heap_wf_def)
    moreover have "c \<noteq> 0" using wf tiles_le [OF T] by (auto simp: heap_wf_def c unat_eq_0 word_le_nat_alt)
    moreover have "m \<le> n - 32" using n(2) by (simp add: word_le_nat_alt sz)
    moreover have "16 dvd unat n - 32" using n(3) by (simp add: dvd_diff_nat)
    ultimately show ?thesis
      using wf nb False n(2) by (auto simp: heap_wf_def t sz top tiles_append is_free_def c)
  qed
qed

section \<open>Allocation is correct\<close>

lemma take_fit:
  assumes wf: "heap_wf bs (ys @ x # zs) s" and sz: "sz \<le> hb_size (hdr s x)" "16 dvd unat sz"
  shows "\<exists>bs' xs'. heap_wf bs' xs' (take_block sz (prev_of ys None) x s)
    \<and> live bs' (take_block sz (prev_of ys None) x s) = insert x (live bs s)
    \<and> sz \<le> hb_size (hdr (take_block sz (prev_of ys None) x s) x)
    \<and> (\<forall>b\<in>live bs s. hb_size (hdr (take_block sz (prev_of ys None) x s) b) = hb_size (hdr s b))"
proof (cases "48 \<le> hb_size (hdr s x) - sz")
  case True
  have "x \<in> set bs" "is_free (hdr s x)" using wf by (auto simp: heap_wf_def)
  then obtain us vs where bs: "bs = us @ x # vs" by (auto simp: in_set_conv_decomp)
  have "b \<in> set us \<union> set vs" if "b \<in> live bs s" for b using that \<open>is_free (hdr s x)\<close> by (auto simp: live_def bs)
  with take_split [OF wf [unfolded bs] sz(1) True sz(2)] show ?thesis unfolding bs by (metis order_refl)
next
  case False
  then have "hb_size (hdr s x) - sz < 48" by simp
  from take_whole [OF wf this] sz(1) show ?thesis by (intro exI) (auto simp: live_def)
qed

lemma kmalloc_fit:
  assumes wf: "heap_wf bs xs s" and n: "n \<noteq> 0" "unat n < 2 ^ 62" and fit: "\<exists>x\<in>set xs. alloc_size n \<le> hb_size (hdr s x)"
  shows "\<exists>x t bs' xs'. kmalloc n s = Some (Done (x + 32, t)) \<and> x \<in> set xs \<and> heap_wf bs' xs' t
    \<and> live bs' t = insert x (live bs s) \<and> alloc_size n \<le> hb_size (hdr t x)
    \<and> (\<forall>b\<in>live bs s. hb_size (hdr t b) = hb_size (hdr s b))"
proof -
  obtain ys x zs where xs: "xs = ys @ x # zs" and x: "alloc_size n \<le> hb_size (hdr s x)"
    and ys: "\<And>y. y \<in> set ys \<Longrightarrow> hb_size (hdr s y) < alloc_size n"
    using split_list_first_prop [OF fit] by (auto simp: not_le)
  have T: "tiles (unat (heap_start_addr s)) bs (unat (heap_current s)) (hdr s)" using wf by (simp add: heap_wf_def)
  have "find_fit (alloc_size n) None (free_list s) s = Some (Done (prev_of ys None, x))"
    using wf x ys tiles_mem(3) [OF T] unfolding xs by (intro find_fit_some [where zs = zs]) (auto simp: heap_wf_def)
  moreover have "x \<noteq> 0" using wf chain_nonzero [of "free_list s" xs "hdr s" x] by (simp add: heap_wf_def xs)
  ultimately have "kmalloc n s = Some (Done (x + 32, take_block (alloc_size n) (prev_of ys None) x s))"
    using n(1) by (subst kmalloc.simps) (simp add: block_to_ptr_def)
  then show ?thesis
    using take_fit [OF wf [unfolded xs] x] alloc_size_bounds(3) [of n] n(2) unfolding xs by fastforce
qed

lemma kmalloc_expand:
  assumes wf: "heap_wf bs xs s" and n: "n \<noteq> 0" and none: "\<forall>x\<in>set xs. hb_size (hdr s x) < alloc_size n"
  shows "kmalloc n s = (if fst (expand_heap (alloc_size n) s) < 0 then Some (Done (0, snd (expand_heap (alloc_size n) s)))
    else kmalloc (alloc_size n) (snd (expand_heap (alloc_size n) s)))"
proof -
  have T: "tiles (unat (heap_start_addr s)) bs (unat (heap_current s)) (hdr s)" using wf by (simp add: heap_wf_def)
  have "find_fit (alloc_size n) None (free_list s) s = Some (Done (prev_of xs None, 0))"
    using wf none tiles_mem(3) [OF T] by (intro find_fit_none) (auto simp: heap_wf_def)
  then show ?thesis using n by (subst kmalloc.simps) simp
qed

lemma kmalloc_cases:
  assumes wf: "heap_wf bs xs s" and n: "n \<noteq> 0" "unat n < 2 ^ 38"
  shows "(\<exists>t. kmalloc n s = Some (Done (0, t)) \<and> heap_part t = heap_part s \<and> (\<forall>x\<in>set xs. hb_size (hdr s x) < alloc_size n)) \<or>
    (\<exists>x t bs' xs'. kmalloc n s = Some (Done (x + 32, t)) \<and> x \<notin> live bs s \<and> heap_wf bs' xs' t
      \<and> live bs' t = insert x (live bs s) \<and> alloc_size n \<le> hb_size (hdr t x)
      \<and> (\<forall>b\<in>live bs s. hb_size (hdr t b) = hb_size (hdr s b)))"
proof (cases "\<exists>x\<in>set xs. alloc_size n \<le> hb_size (hdr s x)")
  case True
  have "x \<notin> live bs s" if "x \<in> set xs" for x using wf that by (auto simp: heap_wf_def live_def)
  moreover have "unat n < 2 ^ 62" using n(2) by simp
  ultimately show ?thesis using kmalloc_fit [OF wf n(1) _ True] by blast
next
  case False
  then have none: "\<forall>x\<in>set xs. hb_size (hdr s x) < alloc_size n" by (auto simp: not_le)
  define m where "m = alloc_size n"
  have m: "unat m < 2 ^ 39" "m \<noteq> 0" "alloc_size m = m"
    using n alloc_size_bounds(2,4) [of n] alloc_size_idem [of n] by (auto simp: m_def unat_eq_0)
  obtain r u where ex: "expand_heap m s = (r, u)" by fastforce
  note k = kmalloc_expand [OF wf n(1) none, folded m_def, unfolded ex, simplified]
  from expand_heap_wf [OF wf m(1) ex refl] show ?thesis
  proof
    assume "r = -1 \<and> heap_part u = heap_part s"
    then show ?thesis using k none by (auto simp: m_def)
  next
    let ?c = "heap_current s"
    assume r: "r = 0 \<and> heap_wf (bs @ [?c]) (?c # xs) u \<and> ?c \<notin> set bs \<and> m \<le> hb_size (hdr u ?c) \<and> is_free (hdr u ?c)
      \<and> (\<forall>b\<in>set bs. hdr u b = hdr s b)"
    then have l: "live (bs @ [?c]) u = live bs s" by (auto simp: live_def)
    have nf: "x \<notin> live bs s" if "x \<in> set (?c # xs)" for x using r that l by (auto simp: heap_wf_def live_def)
    have wf': "heap_wf (bs @ [?c]) (?c # xs) u" and lt: "unat m < 2 ^ 62" using r m(1) by auto
    have fit: "\<exists>x\<in>set (?c # xs). alloc_size m \<le> hb_size (hdr u x)" using r m(3) by simp
    obtain x t bs' xs' where t: "kmalloc m u = Some (Done (x + 32, t))" "x \<in> set (?c # xs)" "heap_wf bs' xs' t"
      "live bs' t = insert x (live bs s)" "m \<le> hb_size (hdr t x)" "\<forall>b\<in>live bs s. hb_size (hdr t b) = hb_size (hdr u b)"
      using kmalloc_fit [OF wf' m(2) lt fit] unfolding l m(3) by blast
    have "\<forall>b\<in>live bs s. hb_size (hdr t b) = hb_size (hdr s b)" using t(6) r by (auto simp: live_def)
    then show ?thesis using k r t nf by (auto simp: m_def)
  qed
qed


text \<open>The heap after start-up: one free block from the start of the region to the break.\<close>

definition heap_demo :: heap_st where
  "heap_demo = vmm_st.extend vmm_demo \<lparr>heap_start_addr = 0xFFFFFE0000000000, heap_end_addr = 0xFFFFFE0004000000,
     heap_current = 0xFFFFFE0000101000, free_list = 0xFFFFFE0000000000, heap_used_bytes = 0,
     hdr = (\<lambda>_. \<lparr>hb_magic = 0, hb_flags = 0, hb_size = 0, hb_next = 0\<rparr>)(0xFFFFFE0000000000 :=
       \<lparr>hb_magic = HEAP_MAGIC, hb_flags = 3, hb_size = 0x100FE0, hb_next = 0\<rparr>),
     data = \<lambda>_. 0\<rparr>"

lemma heap_demo_wf: "heap_wf [0xFFFFFE0000000000] [0xFFFFFE0000000000] heap_demo"
  by (simp add: heap_wf_def heap_demo_def vmm_st.defs vmm_demo_def is_free_def)


section \<open>What the heap operations leave alone\<close>

definition heap_rest :: "'a heap_st_scheme \<Rightarrow> mem \<times> u64 \<times> u64 \<times> 'a" where
  "heap_rest s = (data s, heap_start_addr s, heap_end_addr s, heap_st.more s)"

lemma upd_hdr_rest [frame]: "heap_rest (upd_hdr b f s) = heap_rest s" "heap_rest (set_prev p v s) = heap_rest s"
  "heap_rest (s\<lparr>free_list := v\<rparr>) = heap_rest s" "heap_rest (s\<lparr>heap_used_bytes := v\<rparr>) = heap_rest s"
  "heap_rest (s\<lparr>heap_current := v\<rparr>) = heap_rest s"
  by (simp_all add: heap_rest_def upd_hdr_def set_prev_def split: option.splits)

lemma take_block_rest [frame]: "heap_rest (take_block sz p b s) = heap_rest s"
  by (simp add: take_block_def split_block_def Let_def frame)

lemma expand_heap_rest [frame]: "heap_rest (snd (expand_heap m s)) = heap_rest s"
proof -
  have "heap_rest u = heap_rest s" if "expand_pages n (heap_current s) s = (q, u)" for n q u
    using expand_pages_heap [of n "heap_current s" s] that by (simp add: heap_part_def heap_rest_def)
  then show ?thesis by (auto simp: expand_heap_def Let_def frame split: prod.splits)
qed

lemma kmalloc_rest: "kmalloc n s = Some (Done (p, t)) \<Longrightarrow> heap_rest t = heap_rest s"
proof -
  assume "kmalloc n s = Some (Done (p, t))"
  then have "case Done (p, t) of Panic \<Rightarrow> True | Done (p, t) \<Rightarrow> heap_rest t = heap_rest s"
  proof (rule kmalloc.raw_induct [where P = "\<lambda>n s r. case r of Panic \<Rightarrow> True | Done (p, t) \<Rightarrow> heap_rest t = heap_rest s", rotated])
  qed (auto simp: frame split: if_splits option.splits outcome.splits prod.splits, fastforce simp: frame)
  then show ?thesis by simp
qed

lemma coalesce_rest: "coalesce_list b s = Some t \<Longrightarrow> heap_rest t = heap_rest s"
proof (rule coalesce_list.raw_induct [where P = "\<lambda>b s t. heap_rest t = heap_rest s", rotated])
qed (auto simp: Let_def frame split: if_splits)

lemma kfree_rest: "kfree p s = Some (Done t) \<Longrightarrow> heap_rest t = heap_rest s"
  by (auto simp: kfree_def Let_def frame dest!: coalesce_rest split: if_splits)

section \<open>Release can loop for ever\<close>

text \<open>The coalescing loop at a block that is its own successor on the list.\<close>

definition stuck :: "u64 \<Rightarrow> 'a heap_st_scheme \<Rightarrow> bool" where
  "stuck cur s \<longleftrightarrow> cur \<noteq> 0 \<and> \<not> is_last (hdr s cur) \<and> hb_next (hdr s cur) = cur
     \<and> \<not> (hb_magic (hdr s (next_block cur s)) = HEAP_MAGIC \<and> is_free (hdr s (next_block cur s)))"

lemma coalesce_stuck: "stuck cur s \<Longrightarrow> coalesce_list cur s = None"
proof (rule ccontr)
  assume st: "stuck cur s" and "coalesce_list cur s \<noteq> None"
  then obtain t where "coalesce_list cur s = Some t" by blast
  then have "\<not> stuck cur s"
  proof (rule coalesce_list.raw_induct [where P = "\<lambda>cur s _. \<not> stuck cur s", rotated], intro notI)
    fix f cur s t
    assume IH: "\<And>cur s t. f cur s = Some t \<Longrightarrow> \<not> stuck cur s" and st: "stuck cur s"
      and body: "(if cur = 0 \<or> is_last (hdr s cur) then Some s
      else
        (let nxt = next_block cur s in
         if hb_magic (hdr s nxt) = HEAP_MAGIC \<and> is_free (hdr s nxt) then
           (let s1 = upd_hdr cur (\<lambda>b. b\<lparr>hb_size := hb_size b + (HDR_SIZE + hb_size (hdr s nxt))\<rparr>) s;
                s2 = upd_hdr cur (\<lambda>b. b\<lparr>hb_flags := (hb_flags b AND NOT BLOCK_LAST) OR (hb_flags (hdr s1 nxt) AND BLOCK_LAST)\<rparr>) s1;
                s3 = upd_hdr cur (\<lambda>b. b\<lparr>hb_next := hb_next (hdr s2 nxt)\<rparr>) s2;
                s4 = upd_hdr nxt (\<lambda>b. b\<lparr>hb_magic := 0\<rparr>) s3
            in f cur s4)
         else f (hb_next (hdr s cur)) s)) = Some t"
    from st have "cur \<noteq> 0" "\<not> is_last (hdr s cur)" "hb_next (hdr s cur) = cur"
      "\<not> (hb_magic (hdr s (next_block cur s)) = HEAP_MAGIC \<and> is_free (hdr s (next_block cur s)))"
      unfolding stuck_def by blast+
    with body have "f cur s = Some t" by (simp only: Let_def if_False if_True simp_thms)
    with IH st show False by blast
  qed
  with st show False by blast
qed

text \<open>Allocation from a list whose only block is large and marked as the last one.\<close>

definition one_block :: "u64 \<Rightarrow> u64 \<Rightarrow> 'a heap_st_scheme \<Rightarrow> bool" where
  "one_block r sz s \<longleftrightarrow> free_list s = r \<and> r \<noteq> 0 \<and> hdr s r = \<lparr>hb_magic = HEAP_MAGIC, hb_flags = BLOCK_FREE OR BLOCK_LAST, hb_size = sz, hb_next = 0\<rparr>"

lemma kmalloc_one_block:
  assumes s: "one_block r sz s" and n: "n \<noteq> 0" "unat n \<le> 2 ^ 16" and sz: "2 ^ 17 \<le> unat sz" and nz: "r + 32 + alloc_size n \<noteq> 0"
  defines "m \<equiv> alloc_size n"
  shows "\<exists>t. kmalloc n s = Some (Done (r + 32, t)) \<and> one_block (r + 32 + m) (sz - m - 32) t
    \<and> hdr t r = \<lparr>hb_magic = HEAP_MAGIC, hb_flags = 0, hb_size = m, hb_next = r + 32 + m\<rparr>
    \<and> (\<forall>b. b \<noteq> r \<longrightarrow> b \<noteq> r + 32 + m \<longrightarrow> hdr t b = hdr s b)"
proof -
  have b: "16 \<le> unat m" "unat m \<le> 2 ^ 16" using alloc_size_nat [of n] n by (auto simp: m_def)
  then have le: "m \<le> sz" "unat (sz - m) = unat sz - unat m" using sz by (auto simp: word_le_nat_alt unat_sub)
  then have l: "48 \<le> sz - m" using sz b by (simp add: word_le_nat_alt)
  have "unat (32 + m) = 32 + unat m" using b by (subst unat_add_lem [THEN iffD1]) simp_all
  then have ne: "r + 32 + m \<noteq> r" by (auto simp: add.assoc unat_eq_0 [symmetric])
  have "find_fit m None r s = Some (Done (None, r))"
    using s le by (subst find_fit.simps) (auto simp: one_block_def is_free_def)
  then have "kmalloc n s = Some (Done (r + 32, take_block m None r s))"
    using n s by (subst kmalloc.simps) (simp add: one_block_def block_to_ptr_def m_def)
  moreover note take_split_hdr [where ys = "[]" and x = r and sz = m and s = s, simplified prev_of_def, simplified]
  ultimately show ?thesis
    using l ne s nz unfolding m_def [symmetric] by (intro exI conjI) (auto simp: one_block_def)
qed

text \<open>
  Three live blocks at r, q and u, in the order of their addresses, and a last free block. Freeing the first one
  returns; freeing the second one then merges it into the first and leaves the first as its own successor.
\<close>

lemma kfree_first:
  assumes r: "hdr s r = \<lparr>hb_magic = HEAP_MAGIC, hb_flags = 0, hb_size = m, hb_next = x\<rparr>" and q: "q = r + 32 + m"
    and "hb_flags (hdr s q) = 0" and e: "is_last (hdr s (free_list s))" and ne: "r \<noteq> q" "free_list s \<noteq> r" "r + 32 \<noteq> 0"
  shows "\<exists>t. kfree (r + 32) s = Some (Done t) \<and> free_list t = r
    \<and> hdr t = (hdr s)(r := \<lparr>hb_magic = HEAP_MAGIC, hb_flags = 1, hb_size = m, hb_next = free_list s\<rparr>)"
proof -
  define t where "t = upd_hdr r (\<lambda>b. b\<lparr>hb_flags := hb_flags b OR BLOCK_FREE, hb_next := free_list s\<rparr>)
    (s\<lparr>heap_used_bytes := heap_used_bytes s - m\<rparr>)\<lparr>free_list := r\<rparr>"
  have "coalesce_list (free_list s) t = Some t"
    using e ne by (subst coalesce_list.simps) (auto simp: t_def)
  then have "coalesce_list r t = Some t"
    using assms by (subst coalesce_list.simps) (auto simp: t_def Let_def next_block_def is_last_def is_free_def)
  then have "kfree (r + 32) s = Some (Done t)"
    using r ne by (simp add: kfree_def ptr_to_block_def Let_def is_free_def t_def)
  then show ?thesis using r by (intro exI [of _ t]) (simp add: t_def)
qed

lemma kfree_second:
  assumes r: "free_list s = r" "hdr s r = \<lparr>hb_magic = HEAP_MAGIC, hb_flags = 1, hb_size = m, hb_next = x\<rparr>" and q: "q = r + 32 + m"
    and hq: "hdr s q = \<lparr>hb_magic = HEAP_MAGIC, hb_flags = 0, hb_size = k, hb_next = y\<rparr>" and u: "u = q + 32 + k" "hb_flags (hdr s u) = 0"
    and ne: "r \<noteq> q" "u \<noteq> q" "u \<noteq> r" "r \<noteq> 0" "q \<noteq> 0" "q + 32 \<noteq> 0"
  shows "kfree (q + 32) s = None"
proof -
  define t where "t = upd_hdr q (\<lambda>b. b\<lparr>hb_flags := hb_flags b OR BLOCK_FREE, hb_next := r\<rparr>)
    (s\<lparr>heap_used_bytes := heap_used_bytes s - k\<rparr>)\<lparr>free_list := q\<rparr>"
  define v where "v = upd_hdr q (\<lambda>b. b\<lparr>hb_magic := 0\<rparr>) (upd_hdr r (\<lambda>b. b\<lparr>hb_next := r\<rparr>)
    (upd_hdr r (\<lambda>b. b\<lparr>hb_flags := 1\<rparr>) (upd_hdr r (\<lambda>b. b\<lparr>hb_size := m + (32 + k)\<rparr>) t)))"
  have n: "next_block r v = u" using r ne(1) q u by (simp add: next_block_def v_def t_def add.assoc)
  have "stuck r v"
    unfolding stuck_def n using u(2) ne by (simp add: v_def t_def is_last_def is_free_def)
  then have "coalesce_list r v = None" by (rule coalesce_stuck)
  moreover have "coalesce_list r t = coalesce_list r v"
    using r q hq ne by (subst coalesce_list.simps) (simp add: Let_def next_block_def is_last_def is_free_def t_def v_def upd_hdr_def)
  moreover have "coalesce_list q t = coalesce_list r t"
    using hq u ne by (subst coalesce_list.simps) (auto simp: Let_def next_block_def is_last_def is_free_def t_def)
  ultimately show ?thesis
    using hq r ne by (simp add: kfree_def ptr_to_block_def Let_def is_free_def t_def)
qed

lemma unat_next:
  fixes a m :: u64
  assumes "unat a + 32 + unat m < 2 ^ 64"
  shows "unat (a + 32) = unat a + 32" "unat (a + 32 + m) = unat a + 32 + unat m"
proof -
  show e: "unat (a + 32) = unat a + 32" using assms by (subst unat_add_lem [THEN iffD1]) simp_all
  show "unat (a + 32 + m) = unat a + 32 + unat m"
    using assms by (subst unat_add_lem [THEN iffD1]) (simp_all add: e)
qed

lemma unat_rest:
  fixes z m :: u64
  assumes "unat m + 32 \<le> unat z"
  shows "unat (z - m - 32) = unat z - unat m - 32"
proof -
  have "unat (z - m) = unat z - unat m" using assms by (intro unat_sub) (simp add: word_le_nat_alt)
  then show ?thesis using assms by (subst unat_sub) (simp_all add: word_le_nat_alt)
qed

text \<open>
  C33: freeing blocks in the order of their addresses hangs the kernel. After start-up, when the free list is one large block,
  every program that allocates three blocks, frees the first and then frees the second never
  returns from the second \<open>kfree\<close>.
\<close>

theorem kfree_ascending_hangs:
  assumes s: "one_block r sz s" and sz: "2 ^ 19 \<le> unat sz" "unat r + 2 ^ 23 < 2 ^ 64"
    and n: "n1 \<noteq> 0" "n2 \<noteq> 0" "n3 \<noteq> 0" "unat n1 \<le> 2 ^ 16" "unat n2 \<le> 2 ^ 16" "unat n3 \<le> 2 ^ 16"
  shows "\<exists>a b c s1 s2 s3 s4. kmalloc n1 s = Some (Done (a, s1)) \<and> kmalloc n2 s1 = Some (Done (b, s2))
    \<and> kmalloc n3 s2 = Some (Done (c, s3)) \<and> kfree a s3 = Some (Done s4) \<and> kfree b s4 = None"
proof -
  define m1 where "m1 = alloc_size n1"
  define m2 where "m2 = alloc_size n2"
  define m3 where "m3 = alloc_size n3"
  have m: "unat m1 \<le> 2 ^ 16" "unat m2 \<le> 2 ^ 16" "unat m3 \<le> 2 ^ 16"
    using alloc_size_nat [of n1] alloc_size_nat [of n2] alloc_size_nat [of n3] n by (auto simp: m1_def m2_def m3_def)
  define q where "q = r + 32 + m1"
  define u where "u = q + 32 + m2"
  define v where "v = u + 32 + m3"
  have uq: "unat (r + 32) = unat r + 32" "unat q = unat r + 32 + unat m1"
    using unat_next [of r m1] sz(2) m by (simp_all add: q_def)
  have uu: "unat (q + 32) = unat q + 32" "unat u = unat q + 32 + unat m2"
    using unat_next [of q m2] uq sz(2) m by (simp_all add: u_def)
  have uv: "unat (u + 32) = unat u + 32" "unat v = unat u + 32 + unat m3"
    using unat_next [of u m3] uu uq sz(2) m by (simp_all add: v_def)
  note nw = uq uu uv
  have z1: "unat (sz - m1 - 32) = unat sz - unat m1 - 32" using sz(1) m by (intro unat_rest) simp
  have z2: "unat (sz - m1 - 32 - m2 - 32) = unat (sz - m1 - 32) - unat m2 - 32"
    using sz(1) m z1 by (intro unat_rest) simp
  have b1: "2 ^ 17 \<le> unat (sz - m1 - 32)" and b2: "2 ^ 17 \<le> unat (sz - m1 - 32 - m2 - 32)"
    using z1 z2 sz(1) m by simp_all
  have ne: "r \<noteq> q" "u \<noteq> q" "u \<noteq> r" "v \<noteq> r" "v \<noteq> q" "v \<noteq> u" "q \<noteq> 0" "u \<noteq> 0" "v \<noteq> 0" "r + 32 \<noteq> 0" "q + 32 \<noteq> 0"
    using nw by auto
  obtain s1 where s1: "kmalloc n1 s = Some (Done (r + 32, s1))" "one_block q (sz - m1 - 32) s1"
    "hdr s1 r = \<lparr>hb_magic = HEAP_MAGIC, hb_flags = 0, hb_size = m1, hb_next = q\<rparr>"
    using kmalloc_one_block [OF s n(1,4)] sz(1) ne(7) by (auto simp: q_def m1_def)
  obtain s2 where s2: "kmalloc n2 s1 = Some (Done (q + 32, s2))" "one_block u (sz - m1 - 32 - m2 - 32) s2"
    "hdr s2 q = \<lparr>hb_magic = HEAP_MAGIC, hb_flags = 0, hb_size = m2, hb_next = u\<rparr>" "hdr s2 r = hdr s1 r"
    using kmalloc_one_block [OF s1(2) n(2,5) b1, folded m2_def, folded u_def] ne by auto
  obtain s3 where s3: "kmalloc n3 s2 = Some (Done (u + 32, s3))" "one_block v (sz - m1 - 32 - m2 - 32 - m3 - 32) s3"
    "hdr s3 u = \<lparr>hb_magic = HEAP_MAGIC, hb_flags = 0, hb_size = m3, hb_next = v\<rparr>" "hdr s3 r = hdr s2 r" "hdr s3 q = hdr s2 q"
    using kmalloc_one_block [OF s2(2) n(3,6) b2, folded m3_def, folded v_def] ne by auto
  obtain s4 where s4: "kfree (r + 32) s3 = Some (Done s4)" "free_list s4 = r"
    "hdr s4 = (hdr s3)(r := \<lparr>hb_magic = HEAP_MAGIC, hb_flags = 1, hb_size = m1, hb_next = v\<rparr>)"
    using kfree_first [of s3 r m1 q q] s1 s2 s3 ne by (auto simp: one_block_def is_last_def q_def)
  have "kfree (q + 32) s4 = None"
    using s s1(3) s2(3,4) s3(3-5) s4(2,3) ne by (intro kfree_second [OF _ _ q_def _ u_def]) (auto simp: one_block_def)
  with s1(1) s2(1) s3(1) s4(1) show ?thesis by blast
qed

theorem kfree_ascending_hangs_witness:
  "\<exists>a b c s1 s2 s3 s4. kmalloc 64 heap_demo = Some (Done (a, s1)) \<and> kmalloc 64 s1 = Some (Done (b, s2))
    \<and> kmalloc 64 s2 = Some (Done (c, s3)) \<and> kfree a s3 = Some (Done s4) \<and> kfree b s4 = None"
  by (rule kfree_ascending_hangs [where r = "0xFFFFFE0000000000" and sz = "0x100FE0"])
    (simp_all add: one_block_def heap_demo_def vmm_st.defs vmm_demo_def)

end
