(* ===== verification/Vfs.thy ===== *)
theory Vfs
  imports Heap
begin

unbundle bit_operations_syntax

text \<open>
  The virtual file system of \<open>fs/vfs.c\<close>: path resolution and the operations that dispatch to a file system.
  \<open>vnode\<close> is the node at each address, 0 is the NULL pointer. The operations of a file system are pointers to
  functions; a node names its table by a number, 0 for NULL, and the tables are the parameter \<open>T\<close> of the
  operations here. A call returns None if it never returns and \<open>Panic\<close> if it crashes; log output is left out.
\<close>

section \<open>State and operation tables\<close>

record vfs_node =
  n_name :: string
  n_flags :: u32
  n_mode :: u32
  n_uid :: u32
  n_gid :: u32
  n_size :: u64
  n_inode :: u64
  n_atime :: u64
  n_mtime :: u64
  n_ctime :: u64
  n_refcount :: int
  n_ops :: nat
  n_impl :: u64
  n_mountpoint :: u64
  n_mount :: u64

record vfs_dirent =
  d_name :: string
  d_inode :: u64
  d_type :: u32
  d_size :: u64

record vfs_stat =
  st_size :: u64
  st_type :: u32
  st_mode :: u32
  st_uid :: u32
  st_gid :: u32
  st_atime :: u64
  st_mtime :: u64
  st_ctime :: u64

record vfs_st = heap_st +
  vfs_root_node :: u64
  vnode :: "u64 \<Rightarrow> vfs_node"

type_synonym ('r, 's) act = "'s \<Rightarrow> ('r \<times> 's) outcome option"

record 's vfs_ops =
  op_read :: "(u64 \<Rightarrow> u64 \<Rightarrow> u64 \<Rightarrow> u64 \<Rightarrow> (int, 's) act) option"
  op_write :: "(u64 \<Rightarrow> u64 \<Rightarrow> u64 \<Rightarrow> u64 \<Rightarrow> (int, 's) act) option"
  op_finddir :: "(u64 \<Rightarrow> string \<Rightarrow> (u64, 's) act) option"
  op_readdir :: "(u64 \<Rightarrow> u32 \<Rightarrow> (vfs_dirent option, 's) act) option"
  op_mkdir :: "(u64 \<Rightarrow> string \<Rightarrow> u32 \<Rightarrow> (int, 's) act) option"
  op_create :: "(u64 \<Rightarrow> string \<Rightarrow> u32 \<Rightarrow> (int, 's) act) option"
  op_unlink :: "(u64 \<Rightarrow> string \<Rightarrow> (int, 's) act) option"
  op_open :: "(u64 \<Rightarrow> u32 \<Rightarrow> (unit, 's) act) option"
  op_close :: "(u64 \<Rightarrow> (unit, 's) act) option"

abbreviation (input) VFS_FILE :: u32 where "VFS_FILE \<equiv> 1"
abbreviation (input) VFS_DIRECTORY :: u32 where "VFS_DIRECTORY \<equiv> 2"
abbreviation (input) VFS_TYPE_FILE :: u32 where "VFS_TYPE_FILE \<equiv> 1"
abbreviation (input) VFS_TYPE_DIR :: u32 where "VFS_TYPE_DIR \<equiv> 2"
abbreviation (input) O_CREAT :: u32 where "O_CREAT \<equiv> 0x40"
abbreviation (input) O_TRUNC :: u32 where "O_TRUNC \<equiv> 0x200"
abbreviation (input) VFS_NAME_MAX :: nat where "VFS_NAME_MAX \<equiv> 255"
abbreviation (input) PATH_BUF :: nat where "PATH_BUF \<equiv> 4080"
abbreviation (input) ENOENT :: int where "ENOENT \<equiv> 2"
abbreviation (input) ENOMEM :: int where "ENOMEM \<equiv> 12"
abbreviation (input) ENOTDIR :: int where "ENOTDIR \<equiv> 20"
abbreviation (input) EINVAL :: int where "EINVAL \<equiv> 22"
abbreviation (input) ENOSPC :: int where "ENOSPC \<equiv> 28"
abbreviation (input) ENOSYS :: int where "ENOSYS \<equiv> 38"

definition ret :: "'r \<Rightarrow> ('r, 's) act" where
  "ret x = (\<lambda>s. Some (Done (x, s)))"

definition andthen :: "('r, 's) act \<Rightarrow> ('r \<Rightarrow> ('q, 's) act) \<Rightarrow> ('q, 's) act" where
  "andthen m f = (\<lambda>s. case m s of None \<Rightarrow> None | Some Panic \<Rightarrow> Some Panic | Some (Done (x, t)) \<Rightarrow> f x t)"

text \<open>A node as \<open>memset\<close> leaves it.\<close>

definition zero_node :: vfs_node where
  "zero_node = \<lparr>n_name = [], n_flags = 0, n_mode = 0, n_uid = 0, n_gid = 0, n_size = 0, n_inode = 0, n_atime = 0, n_mtime = 0,
     n_ctime = 0, n_refcount = 0, n_ops = 0, n_impl = 0, n_mountpoint = 0, n_mount = 0\<rparr>"

definition is_dir :: "vfs_node \<Rightarrow> bool" where
  "is_dir n \<longleftrightarrow> n_flags n AND VFS_DIRECTORY \<noteq> 0"

definition upd_node :: "u64 \<Rightarrow> (vfs_node \<Rightarrow> vfs_node) \<Rightarrow> 'a vfs_st_scheme \<Rightarrow> 'a vfs_st_scheme" where
  "upd_node n f s = s\<lparr>vnode := (vnode s)(n := f (vnode s n))\<rparr>"

text \<open>The entry of a node's table: None if the node has no table or the table has no such function.\<close>

definition node_op :: "(nat \<Rightarrow> 's vfs_ops) \<Rightarrow> ('s vfs_ops \<Rightarrow> 'f option) \<Rightarrow> vfs_node \<Rightarrow> 'f option" where
  "node_op T sel n = (if n_ops n = 0 then None else sel (T (n_ops n)))"

section \<open>Start and mounting the root\<close>

definition vfs_size :: "u64 \<Rightarrow> 'a vfs_st_scheme \<Rightarrow> u64" where
  "vfs_size node s = (if node \<noteq> 0 then n_size (vnode s node) else 0)"

definition vfs_init :: "'a vfs_st_scheme \<Rightarrow> 'a vfs_st_scheme" where
  "vfs_init s = s\<lparr>vfs_root_node := 0\<rparr>"

definition vfs_mount_root :: "u64 \<Rightarrow> 'a vfs_st_scheme \<Rightarrow> 'a vfs_st_scheme" where
  "vfs_mount_root root s = s\<lparr>vfs_root_node := root\<rparr>"

definition vfs_root :: "'a vfs_st_scheme \<Rightarrow> u64" where
  "vfs_root s = vfs_root_node s"

section \<open>Path resolution\<close>

definition canon_step :: "string \<Rightarrow> string list \<Rightarrow> string list" where
  "canon_step start parts =
     (if start = ''.'' then parts
      else if start = ''..'' then (if length parts > 0 then butlast parts else parts)
      else if length parts < 64 then parts @ [start] else parts)"

function canon_parts :: "string \<Rightarrow> string list \<Rightarrow> string list" where
  "canon_parts p parts =
     (if p = [] then parts
      else
        (let p1 = dropWhile (\<lambda>c. c = CHR ''/'') p in
         if p1 = [] then parts
         else
           (let start = takeWhile (\<lambda>c. c \<noteq> CHR ''/'') p1; p2 = dropWhile (\<lambda>c. c \<noteq> CHR ''/'') p1
            in canon_parts (if p2 \<noteq> [] then tl p2 else p2) (canon_step start parts))))"
  by pat_completeness auto

lemma canon_shorter:
  assumes "dropWhile (\<lambda>c. c = CHR ''/'') p \<noteq> []" "p2 = dropWhile (\<lambda>c. c \<noteq> CHR ''/'') (dropWhile (\<lambda>c. c = CHR ''/'') p)"
  shows "length (if p2 \<noteq> [] then tl p2 else p2) < length p"
proof -
  define q where "q = dropWhile (\<lambda>c. c = CHR ''/'') p"
  have "length q \<le> length p" unfolding q_def by (rule length_dropWhile_le)
  moreover have "length p2 \<le> length q" unfolding assms(2) q_def [symmetric] by (rule length_dropWhile_le)
  moreover have "0 < length q" using assms(1) unfolding q_def [symmetric] by simp
  ultimately show ?thesis by (cases p2) auto
qed

termination canon_parts
  by (relation "measure (\<lambda>(p, _). length p)") (simp, simp only: in_measure case_prod_conv, rule canon_shorter, simp_all)

declare canon_parts.simps [simp del]

text \<open>The loop that writes the parts; \<open>pos\<close> is the length of what has been written.\<close>

fun canon_out :: "nat \<Rightarrow> nat \<Rightarrow> string list \<Rightarrow> string \<Rightarrow> string" where
  "canon_out out_len i [] out = out"
| "canon_out out_len i (part # parts) out =
     (if length out < out_len - 1 then
        (let out1 = (if 0 < i \<and> length out < out_len - 1 then out @ ''/'' else out);
             out2 = (if length out1 + length part < out_len - 1 then out1 @ part else out1)
         in canon_out out_len (Suc i) parts out2)
      else out)"

definition vfs_canonicalize :: "string \<Rightarrow> nat \<Rightarrow> string" where
  "vfs_canonicalize path out_len =
     (let parts = canon_parts (take (PATH_BUF - 1) path) [] in
      if out_len < 2 then [] else canon_out out_len 0 parts ''/'')"

definition vfs_finddir :: "(nat \<Rightarrow> 'a vfs_st_scheme vfs_ops) \<Rightarrow> u64 \<Rightarrow> string \<Rightarrow> (u64, 'a vfs_st_scheme) act" where
  "vfs_finddir T node name s =
     (if node = 0 then ret 0 s
      else
        (let node' = (if n_mount (vnode s node) \<noteq> 0 then n_mount (vnode s node) else node) in
         if \<not> is_dir (vnode s node') then ret 0 s
         else (case node_op T op_finddir (vnode s node') of
                 None \<Rightarrow> ret 0 s
               | Some f \<Rightarrow> f node' name s)))"

text \<open>The loop over the tokens; no token or a NULL node ends it.\<close>

fun resolve_loop :: "(nat \<Rightarrow> 'a vfs_st_scheme vfs_ops) \<Rightarrow> string list \<Rightarrow> u64 \<Rightarrow> (u64, 'a vfs_st_scheme) act" where
  "resolve_loop T [] node s = ret node s"
| "resolve_loop T (token # tokens) node s =
     (if node = 0 then ret node s
      else if \<not> is_dir (vnode s node) then ret 0 s
      else andthen (vfs_finddir T node token) (resolve_loop T tokens) s)"

definition vfs_resolve_path :: "(nat \<Rightarrow> 'a vfs_st_scheme vfs_ops) \<Rightarrow> string option \<Rightarrow> (u64, 'a vfs_st_scheme) act" where
  "vfs_resolve_path T path s =
     (case path of
        None \<Rightarrow> ret 0 s
      | Some pth \<Rightarrow>
          if vfs_root_node s = 0 then ret 0 s
          else
            (let canon = (if pth \<noteq> [] \<and> hd pth = CHR ''/'' then vfs_canonicalize pth PATH_BUF
                          else vfs_canonicalize (CHR ''/'' # take (PATH_BUF - 2) pth) PATH_BUF);
                 p = tl canon
             in if p = [] then ret (vfs_root_node s) s
                else resolve_loop T (c_tokens ''/'' (Some (take (PATH_BUF - 1) p))) (vfs_root_node s) s))"

section \<open>Operations\<close>

text \<open>
  Splitting a path at its last slash. The name buffer is not cleared: a name of 255 or more characters is not
  terminated and continues with what the stack held, the parameter \<open>junk\<close>. Copying a directory part that
  does not fit into its buffer is a crash.
\<close>

definition split_path :: "string \<Rightarrow> string \<Rightarrow> (string \<times> string) outcome" where
  "split_path junk path =
     (let (dir, leaf) = (case c_strrchr path (CHR ''/'') of
                           Some k \<Rightarrow> (take k path, drop (k + 1) path)
                         | None \<Rightarrow> ([], path))
      in if PATH_BUF \<le> length dir then Panic
         else Done (dir, if length leaf < VFS_NAME_MAX then leaf else take VFS_NAME_MAX leaf @ junk))"

definition parent_of :: "(nat \<Rightarrow> 'a vfs_st_scheme vfs_ops) \<Rightarrow> string \<Rightarrow> (u64, 'a vfs_st_scheme) act" where
  "parent_of T dir s = (if dir \<noteq> [] then vfs_resolve_path T (Some dir) s else ret (vfs_root_node s) s)"

definition vfs_mkdir :: "(nat \<Rightarrow> 'a vfs_st_scheme vfs_ops) \<Rightarrow> string \<Rightarrow> string \<Rightarrow> (int, 'a vfs_st_scheme) act" where
  "vfs_mkdir T junk path s =
     (case split_path junk path of
        Panic \<Rightarrow> Some Panic
      | Done (dir, name) \<Rightarrow>
          andthen (parent_of T dir) (\<lambda>parent s1.
            if parent = 0 then ret (- ENOENT) s1
            else (case node_op T op_mkdir (vnode s1 parent) of
                    None \<Rightarrow> ret (- ENOSYS) s1
                  | Some f \<Rightarrow> f parent name 0x1ED s1)) s)"

definition vfs_create :: "(nat \<Rightarrow> 'a vfs_st_scheme vfs_ops) \<Rightarrow> string \<Rightarrow> string \<Rightarrow> u32 \<Rightarrow> (int, 'a vfs_st_scheme) act" where
  "vfs_create T junk path mode s =
     (case split_path junk path of
        Panic \<Rightarrow> Some Panic
      | Done (dir, name) \<Rightarrow>
          andthen (parent_of T dir) (\<lambda>parent s1.
            if parent = 0 then ret (- ENOENT) s1
            else (case node_op T op_create (vnode s1 parent) of
                    None \<Rightarrow> ret (- ENOSYS) s1
                  | Some f \<Rightarrow> f parent name mode s1)) s)"

definition vfs_unlink :: "(nat \<Rightarrow> 'a vfs_st_scheme vfs_ops) \<Rightarrow> string \<Rightarrow> string \<Rightarrow> (int, 'a vfs_st_scheme) act" where
  "vfs_unlink T junk path s =
     (case split_path junk path of
        Panic \<Rightarrow> Some Panic
      | Done (dir, name) \<Rightarrow>
          andthen (parent_of T dir) (\<lambda>parent s1.
            if parent = 0 then ret (- ENOENT) s1
            else (case node_op T op_unlink (vnode s1 parent) of
                    None \<Rightarrow> ret (- ENOSYS) s1
                  | Some f \<Rightarrow> f parent name s1)) s)"

definition vfs_rmdir :: "(nat \<Rightarrow> 'a vfs_st_scheme vfs_ops) \<Rightarrow> string \<Rightarrow> string option \<Rightarrow> (int, 'a vfs_st_scheme) act" where
  "vfs_rmdir T junk path s = (case path of None \<Rightarrow> ret (- EINVAL) s | Some p \<Rightarrow> vfs_unlink T junk p s)"

text \<open>Creating the missing file of \<open>vfs_open\<close>: 0 is the early return of NULL.\<close>

definition open_create :: "(nat \<Rightarrow> 'a vfs_st_scheme vfs_ops) \<Rightarrow> string \<Rightarrow> string \<Rightarrow> (u64, 'a vfs_st_scheme) act" where
  "open_create T junk path s =
     (case split_path junk path of
        Panic \<Rightarrow> Some Panic
      | Done (dir, name) \<Rightarrow>
          andthen (parent_of T dir) (\<lambda>parent s1.
            if parent = 0 \<or> \<not> is_dir (vnode s1 parent) then ret 0 s1
            else (case node_op T op_create (vnode s1 parent) of
                    None \<Rightarrow> ret 0 s1
                  | Some f \<Rightarrow> andthen (f parent name 0x1A4) (\<lambda>r s2.
                      if r \<noteq> 0 then ret 0 s2 else vfs_finddir T parent name s2) s1)) s)"

definition open_node :: "(nat \<Rightarrow> 'a vfs_st_scheme vfs_ops) \<Rightarrow> u32 \<Rightarrow> u64 \<Rightarrow> (u64, 'a vfs_st_scheme) act" where
  "open_node T flags node s =
     (if node = 0 then ret 0 s
      else
        (let s1 = (if flags AND O_TRUNC \<noteq> 0 \<and> \<not> is_dir (vnode s node) then upd_node node (\<lambda>n. n\<lparr>n_size := 0\<rparr>) s else s) in
         andthen (case node_op T op_open (vnode s1 node) of None \<Rightarrow> ret () | Some f \<Rightarrow> f node flags)
           (\<lambda>_ s2. ret node (upd_node node (\<lambda>n. n\<lparr>n_refcount := n_refcount n + 1\<rparr>) s2)) s1))"

definition vfs_open :: "(nat \<Rightarrow> 'a vfs_st_scheme vfs_ops) \<Rightarrow> string \<Rightarrow> string option \<Rightarrow> u32 \<Rightarrow> (u64, 'a vfs_st_scheme) act" where
  "vfs_open T junk path flags =
     andthen (vfs_resolve_path T path) (\<lambda>node s1.
       if node = 0 \<and> flags AND O_CREAT \<noteq> 0
       then (case path of None \<Rightarrow> Some Panic | Some p \<Rightarrow> andthen (open_create T junk p) (open_node T flags) s1)
       else open_node T flags node s1)"

definition vfs_close :: "(nat \<Rightarrow> 'a vfs_st_scheme vfs_ops) \<Rightarrow> u64 \<Rightarrow> (unit, 'a vfs_st_scheme) act" where
  "vfs_close T node s =
     (if node = 0 then ret () s
      else andthen (case node_op T op_close (vnode s node) of None \<Rightarrow> ret () | Some f \<Rightarrow> f node)
        (\<lambda>_ s1. ret () (if 0 < n_refcount (vnode s1 node)
                       then upd_node node (\<lambda>n. n\<lparr>n_refcount := n_refcount n - 1\<rparr>) s1 else s1)) s)"

definition vfs_read :: "(nat \<Rightarrow> 'a vfs_st_scheme vfs_ops) \<Rightarrow> u64 \<Rightarrow> u64 \<Rightarrow> u64 \<Rightarrow> u64 \<Rightarrow> (int, 'a vfs_st_scheme) act" where
  "vfs_read T node offset sz buf s =
     (if node = 0 \<or> buf = 0 then ret (-1) s
      else (case node_op T op_read (vnode s node) of None \<Rightarrow> ret (-1) s | Some f \<Rightarrow> f node offset sz buf s))"

definition vfs_write :: "(nat \<Rightarrow> 'a vfs_st_scheme vfs_ops) \<Rightarrow> u64 \<Rightarrow> u64 \<Rightarrow> u64 \<Rightarrow> u64 \<Rightarrow> (int, 'a vfs_st_scheme) act" where
  "vfs_write T node offset sz buf s =
     (if node = 0 \<or> buf = 0 then ret (-1) s
      else (case node_op T op_write (vnode s node) of None \<Rightarrow> ret (-1) s | Some f \<Rightarrow> f node offset sz buf s))"

definition vfs_readdir_raw :: "(nat \<Rightarrow> 'a vfs_st_scheme vfs_ops) \<Rightarrow> u64 \<Rightarrow> u32 \<Rightarrow> (vfs_dirent option, 'a vfs_st_scheme) act" where
  "vfs_readdir_raw T node index s =
     (if node = 0 then ret None s
      else
        (let node' = (if n_mount (vnode s node) \<noteq> 0 then n_mount (vnode s node) else node) in
         if \<not> is_dir (vnode s node') then ret None s
         else (case node_op T op_readdir (vnode s node') of None \<Rightarrow> ret None s | Some f \<Rightarrow> f node' index s)))"

text \<open>The result has the entry that is copied to the caller's buffer, if any; \<open>out\<close> says whether there is a buffer.\<close>

definition vfs_readdir :: "(nat \<Rightarrow> 'a vfs_st_scheme vfs_ops) \<Rightarrow> u64 \<Rightarrow> u32 \<Rightarrow> bool \<Rightarrow> (int \<times> vfs_dirent option, 'a vfs_st_scheme) act" where
  "vfs_readdir T node index out s =
     (if node = 0 \<or> \<not> out then ret (- EINVAL, None) s
      else if \<not> is_dir (vnode s node) then ret (- ENOTDIR, None) s
      else andthen (vfs_readdir_raw T node index)
        (\<lambda>de. ret (case de of None \<Rightarrow> (- ENOENT, None) | Some d \<Rightarrow> (0, Some d))) s)"

definition vfs_mount :: "(nat \<Rightarrow> 'a vfs_st_scheme vfs_ops) \<Rightarrow> string \<Rightarrow> string option \<Rightarrow> u64 \<Rightarrow> (int, 'a vfs_st_scheme) act" where
  "vfs_mount T junk path node s =
     (case path of
        None \<Rightarrow> ret (- EINVAL) s
      | Some p \<Rightarrow>
          if node = 0 then ret (- EINVAL) s
          else if p = ''/'' then ret 0 (upd_node node (\<lambda>n. n\<lparr>n_mountpoint := 0\<rparr>) (s\<lparr>vfs_root_node := node\<rparr>))
          else
            andthen (andthen (vfs_resolve_path T path) (\<lambda>mp.
                if mp = 0 then andthen (vfs_mkdir T junk p) (\<lambda>_. vfs_resolve_path T path) else ret mp))
              (\<lambda>mp s1.
                if mp = 0 then ret (- ENOENT) s1
                else if \<not> is_dir (vnode s1 mp) then ret (- ENOTDIR) s1
                else ret 0 (upd_node node (\<lambda>n. n\<lparr>n_mountpoint := mp\<rparr>) (upd_node mp (\<lambda>n. n\<lparr>n_mount := node\<rparr>) s1))) s)"

definition vfs_stat_node :: "u64 \<Rightarrow> bool \<Rightarrow> 'a vfs_st_scheme \<Rightarrow> int \<times> vfs_stat option" where
  "vfs_stat_node node st s =
     (if node = 0 \<or> \<not> st then (- EINVAL, None)
      else (let n = vnode s node in
            (0, Some \<lparr>st_size = n_size n, st_type = (if is_dir n then VFS_TYPE_DIR else VFS_TYPE_FILE), st_mode = n_mode n,
               st_uid = n_uid n, st_gid = n_gid n, st_atime = n_atime n, st_mtime = n_mtime n, st_ctime = n_ctime n\<rparr>)))"

section \<open>What a path means\<close>

text \<open>The reference: the non-empty components of a path, with \<open>.\<close> dropped and \<open>..\<close> removing the component before it.\<close>

definition comps :: "string \<Rightarrow> string list" where
  "comps path = filter (\<lambda>t. t \<noteq> []) (split_on ''/'' path)"

definition norm_step :: "string \<Rightarrow> string list \<Rightarrow> string list" where
  "norm_step c ps = (if c = ''.'' then ps else if c = ''..'' then butlast ps else ps @ [c])"

definition path_names :: "string \<Rightarrow> string list" where
  "path_names path = fold norm_step (comps path) []"

definition joined :: "string list \<Rightarrow> string" where
  "joined ps = concat (map (\<lambda>x. CHR ''/'' # x) ps)"

lemma comps_unfold:
  "comps p = (let p1 = dropWhile (\<lambda>c. c = CHR ''/'') p in
     if p1 = [] then []
     else (let p2 = dropWhile (\<lambda>c. c \<noteq> CHR ''/'') p1
           in takeWhile (\<lambda>c. c \<noteq> CHR ''/'') p1 # comps (if p2 \<noteq> [] then tl p2 else p2)))"
proof -
  define p1 where "p1 = dropWhile (\<lambda>c. c = CHR ''/'') p"
  define p2 where "p2 = dropWhile (\<lambda>c. c \<noteq> CHR ''/'') p1"
  have c: "comps p = comps p1" using split_on_skip [of "''/''" p] by (simp add: comps_def p1_def)
  show ?thesis
  proof (cases p1)
    case Nil
    then show ?thesis using c by (simp add: p1_def [symmetric]) (simp add: comps_def)
  next
    case (Cons x r)
    then have "takeWhile (\<lambda>c. c \<noteq> CHR ''/'') p1 \<noteq> []"
      using dropWhile_eq_Cons_conv [of "\<lambda>c. c = CHR ''/''" p x r] by (simp add: p1_def)
    moreover have "split_on ''/'' p1 = takeWhile (\<lambda>c. c \<noteq> CHR ''/'') p1 # (case p2 of [] \<Rightarrow> [] | _ # r \<Rightarrow> split_on ''/'' r)"
      using split_on_takeWhile [of "''/''" p1] by (simp add: p2_def)
    ultimately have "comps p1 = takeWhile (\<lambda>c. c \<noteq> CHR ''/'') p1 # comps (if p2 \<noteq> [] then tl p2 else p2)"
      by (cases p2) (simp_all add: comps_def)
    then show ?thesis using c Cons unfolding p1_def [symmetric] p2_def [symmetric] Let_def by simp
  qed
qed

lemma canon_parts_fold: "canon_parts p ps = fold canon_step (comps p) ps"
proof (induction p ps rule: canon_parts.induct)
  case (1 p ps)
  show ?case
  proof (cases "dropWhile (\<lambda>c. c = CHR ''/'') p = []")
    case True
    then show ?thesis by (subst canon_parts.simps, subst comps_unfold) (simp add: Let_def)
  next
    case False
    then have "p \<noteq> []" by auto
    then show ?thesis
      using 1 [OF \<open>p \<noteq> []\<close> refl False refl refl] False
      by (subst canon_parts.simps, subst comps_unfold) (simp only: Let_def if_False fold_Cons o_apply)
  qed
qed

lemma canon_fold_norm:
  "length ps + length cs \<le> 64 \<Longrightarrow> fold canon_step cs ps = fold norm_step cs ps"
proof (induction cs arbitrary: ps)
  case (Cons c cs)
  have "canon_step c ps = norm_step c ps" "length (norm_step c ps) \<le> Suc (length ps)"
    using Cons.prems by (auto simp: canon_step_def norm_step_def)
  then show ?case using Cons by simp
qed simp

definition weight :: "string list \<Rightarrow> nat" where
  "weight ps = sum_list (map (\<lambda>x. Suc (length x)) ps)"

lemma weight_simps [simp]: "weight [] = 0" "weight (x # ps) = Suc (length x) + weight ps" "weight (ps @ qs) = weight ps + weight qs"
  by (simp_all add: weight_def)

lemma split_on_props: "x \<in> set (split_on d p) \<Longrightarrow> set x \<inter> set d = {} \<and> set x \<subseteq> set p"
  by (induction p arbitrary: x) (fastforce split: if_splits list.splits)+

lemma split_on_weight: "weight (split_on d p) = Suc (length p)"
  by (induction p) (auto split: list.splits)

lemma weight_filter: "weight (filter P ps) \<le> weight ps"
  by (induction ps) auto

lemma comps_props: "x \<in> set (comps p) \<Longrightarrow> x \<noteq> [] \<and> CHR ''/'' \<notin> set x \<and> set x \<subseteq> set p"
  using split_on_props [of x "''/''" p] by (auto simp: comps_def)

lemma norm_step_props: "set (norm_step c ps) \<subseteq> insert c (set ps)" "weight (norm_step c ps) \<le> weight ps + Suc (length c)"
proof -
  have "weight (butlast ps) \<le> weight ps" by (cases ps rule: rev_cases) auto
  then show "weight (norm_step c ps) \<le> weight ps + Suc (length c)" by (simp add: norm_step_def)
qed (auto simp: norm_step_def dest: in_set_butlastD)

lemma norm_fold_set: "set (fold norm_step cs ps) \<subseteq> set ps \<union> set cs"
proof (induction cs arbitrary: ps)
  case (Cons c cs)
  show ?case using Cons [of "norm_step c ps"] norm_step_props(1) [of c ps] by (simp add: subset_iff) blast
qed simp

lemma norm_fold_weight: "weight (fold norm_step cs ps) \<le> weight ps + weight cs"
proof (induction cs arbitrary: ps)
  case (Cons c cs)
  show ?case using Cons [of "norm_step c ps"] norm_step_props(2) [of c ps] by simp
qed simp

lemma path_names_weight: "weight (path_names p) \<le> Suc (length p)"
  using norm_fold_weight [of "comps p" "[]"] weight_filter [of "\<lambda>t. t \<noteq> []" "split_on ''/'' p"]
  by (simp add: path_names_def split_on_weight comps_def)

lemma path_names_props: "x \<in> set (path_names p) \<Longrightarrow> x \<noteq> [] \<and> CHR ''/'' \<notin> set x \<and> set x \<subseteq> set p"
  using norm_fold_set [of "comps p" "[]"] comps_props [of x p] by (auto simp: path_names_def)

lemma joined_simps [simp]: "joined [] = []" "joined (x # ps) = CHR ''/'' # x @ joined ps"
  by (simp_all add: joined_def)

lemma length_joined: "length (joined ps) = weight ps"
  by (induction ps) auto

lemma canon_out_rest:
  "0 < i \<Longrightarrow> length out + weight ps < n - 1 \<Longrightarrow> canon_out n i ps out = out @ joined ps"
  by (induction ps arbitrary: i out) auto

lemma canon_out_joined:
  assumes "weight ps < n - 1" "2 < n"
  shows "canon_out n 0 ps ''/'' = (if ps = [] then ''/'' else joined ps)"
proof (cases ps)
  case (Cons x xs)
  then show ?thesis using assms canon_out_rest [of 1 "''/'' @ x" xs n] by simp
qed simp

lemma split_on_joined:
  assumes "\<And>x. x \<in> set ps \<Longrightarrow> CHR ''/'' \<notin> set x" "CHR ''/'' \<notin> set y"
  shows "split_on ''/'' (y @ joined ps) = y # ps"
  using assms
proof (induction ps arbitrary: y)
  case Nil
  then show ?case by (induction y) auto
next
  case (Cons x ps)
  have "split_on ''/'' (joined (x # ps)) = [] # x # ps" using Cons by simp
  then show ?case using Cons.prems(2) by (induction y) auto
qed

lemma comps_joined:
  assumes "\<And>x. x \<in> set ps \<Longrightarrow> x \<noteq> [] \<and> CHR ''/'' \<notin> set x"
  shows "comps (joined ps) = ps" "comps (tl (joined ps)) = ps"
proof -
  have f: "filter (\<lambda>t. t \<noteq> []) ps = ps" using assms by (induction ps) auto
  show "comps (joined ps) = ps" using split_on_joined [of ps "[]"] assms f by (simp add: comps_def)
  show "comps (tl (joined ps)) = ps"
  proof (cases ps)
    case (Cons x xs)
    then show ?thesis using split_on_joined [of xs x] assms f by (simp add: comps_def)
  qed (simp add: comps_def)
qed

lemma canonicalize_joined:
  assumes "length (comps path) \<le> 64" "length path < 4078"
  shows "vfs_canonicalize path PATH_BUF = (if path_names path = [] then ''/'' else joined (path_names path))"
proof -
  have "canon_parts (take 4079 path) [] = path_names path"
    using assms canon_fold_norm [of "[]" "comps path"] by (simp add: canon_parts_fold path_names_def)
  then show ?thesis
    using path_names_weight [of path] assms(2) by (simp add: vfs_canonicalize_def canon_out_joined)
qed

lemma resolve_names:
  assumes c: "cstring path" and l: "length (comps path) \<le> 64" "length path < 4078" and r: "vfs_root_node s \<noteq> 0"
  shows "vfs_resolve_path T (Some path) s = resolve_loop T (path_names path) (vfs_root_node s) s"
proof -
  define abs where "abs = (if path \<noteq> [] \<and> hd path = CHR ''/'' then path else CHR ''/'' # path)"
  have ca: "comps abs = comps path" by (simp add: abs_def comps_def)
  have pn: "path_names abs = path_names path" by (simp add: path_names_def ca)
  define canon where "canon = (if path \<noteq> [] \<and> hd path = CHR ''/'' then vfs_canonicalize path PATH_BUF
    else vfs_canonicalize (CHR ''/'' # take (PATH_BUF - 2) path) PATH_BUF)"
  have "weight (path_names path) < PATH_BUF - 1" using path_names_weight [of path] l(2) by simp
  moreover have "canon_parts (take (PATH_BUF - 1) abs) [] = path_names path"
    using l canon_fold_norm [of "[]" "comps path"] by (simp add: canon_parts_fold path_names_def ca [symmetric] abs_def)
  ultimately have cn: "canon = (if path_names path = [] then ''/'' else joined (path_names path))"
    using l(2) by (auto simp: canon_def vfs_canonicalize_def canon_out_joined abs_def)
  define q where "q = tl (joined (path_names path))"
  have "length q < PATH_BUF - 1" using path_names_weight [of path] l(2) by (simp add: q_def length_joined)
  moreover have "cstring (joined (path_names path))"
    using path_names_props [of _ path] c by (auto simp: cstring_def joined_def)
  then have "cstring q" by (cases "joined (path_names path)") (simp_all add: q_def)
  moreover have "comps q = path_names path"
    unfolding q_def by (rule comps_joined(2)) (use path_names_props in blast)
  ultimately have q: "length q < PATH_BUF - 1" "cstring q" "comps q = path_names path" .
  have "c_tokens ''/'' (Some q) = path_names path"
    using tokens_split [of "''/''" q] q(2,3) by (simp add: comps_def cstring_def)
  moreover have "q \<noteq> []" if "path_names path \<noteq> []" using q(3) that by (auto simp: comps_def)
  ultimately show ?thesis
    using r q(1) cn by (simp add: vfs_resolve_path_def Let_def canon_def [symmetric] q_def [symmetric])
qed

text \<open>
  C34: path resolution computes what a path means. For a path of at most 64 components and fewer than 4078
  characters, absolute or relative, with repeated slashes, \<open>.\<close> and \<open>..\<close> anywhere, \<open>vfs_resolve_path\<close> walks from the
  root exactly the names that remain when \<open>.\<close> is dropped and \<open>..\<close> removes the name before it, although it
  goes through two bounded buffers and an in-place tokeniser.
\<close>

theorem resolve_path_meaning:
  assumes "cstring path" "length (comps path) \<le> 64" "length path < 4078" "vfs_root_node s \<noteq> 0"
  shows "vfs_resolve_path T (Some path) s = resolve_loop T (path_names path) (vfs_root_node s) s
    \<and> vfs_canonicalize path PATH_BUF = (if path_names path = [] then ''/'' else joined (path_names path))
    \<and> path_names (joined (path_names path)) = path_names path"
proof -
  have n: "''.'' \<notin> set (fold norm_step cs ps) \<and> ''..'' \<notin> set (fold norm_step cs ps)"
    if "''.'' \<notin> set ps" "''..'' \<notin> set ps" for cs ps
    using that by (induction cs arbitrary: ps) (auto simp: norm_step_def dest: in_set_butlastD)
  have k: "fold norm_step cs ps = ps @ cs" if "''.'' \<notin> set cs" "''..'' \<notin> set cs" for cs ps
    using that by (induction cs arbitrary: ps) (auto simp: norm_step_def)
  have "comps (joined (path_names path)) = path_names path"
    by (rule comps_joined(1)) (use path_names_props in blast)
  then have "path_names (joined (path_names path)) = path_names path"
    using k [of "path_names path" "[]"] n [of "[]" "comps path"] by (simp add: path_names_def)
  then show ?thesis using resolve_names [OF assms] canonicalize_joined [OF assms(2,3)] by blast
qed

definition ops0 :: "'s vfs_ops" where
  "ops0 = \<lparr>op_read = None, op_write = None, op_finddir = None, op_readdir = None, op_mkdir = None, op_create = None,
     op_unlink = None, op_open = None, op_close = None\<rparr>"

definition vfs_demo :: vfs_st where
  "vfs_demo = heap_st.extend heap_demo \<lparr>vfs_root_node = 0x1000, vnode = \<lambda>_. zero_node\<rparr>"

theorem resolve_path_meaning_witness:
  "vfs_canonicalize ''/usr//lib/./../bin'' PATH_BUF = ''/usr/bin''"
proof -
  have "vfs_canonicalize ''/usr//lib/./../bin'' PATH_BUF
      = (if path_names ''/usr//lib/./../bin'' = [] then ''/'' else joined (path_names ''/usr//lib/./../bin''))"
    using resolve_path_meaning [of "''/usr//lib/./../bin''" vfs_demo "\<lambda>_. ops0"]
    by (simp add: cstring_def comps_def vfs_demo_def heap_st.defs heap_demo_def vmm_st.defs vmm_demo_def)
  then show ?thesis by (simp add: path_names_def comps_def norm_step_def)
qed

section \<open>Trees of names\<close>

text \<open>
  What the path operations rely on in a file system without mounts: \<open>wf N s\<close> says that the nodes N form its
  tree in state s, and \<open>look s d\<close> is the contents of directory d. The lemmas of the locale lift these laws through
  path resolution.
\<close>

fun tree_walk :: "('s \<Rightarrow> u64 \<Rightarrow> bool) \<Rightarrow> ('s \<Rightarrow> u64 \<Rightarrow> string \<Rightarrow> u64 option) \<Rightarrow> 's \<Rightarrow> string list \<Rightarrow> u64 \<Rightarrow> u64" where
  "tree_walk isd look s [] d = d"
| "tree_walk isd look s (n # ns) d =
     (if isd s d then (case look s d n of None \<Rightarrow> 0 | Some c \<Rightarrow> tree_walk isd look s ns c) else 0)"

definition dir_node :: "'a vfs_st_scheme \<Rightarrow> u64 \<Rightarrow> bool" where
  "dir_node s d \<longleftrightarrow> is_dir (vnode s d)"

locale name_tree =
  fixes T :: "nat \<Rightarrow> 'a vfs_st_scheme vfs_ops"
    and wf :: "u64 set \<Rightarrow> 'a vfs_st_scheme \<Rightarrow> bool"
    and look :: "'a vfs_st_scheme \<Rightarrow> u64 \<Rightarrow> string \<Rightarrow> u64 option"
  assumes find: "wf N s \<Longrightarrow> d \<in> N \<Longrightarrow> dir_node s d \<Longrightarrow> cstring name \<Longrightarrow>
      vfs_finddir T d name s = ret (case look s d name of None \<Rightarrow> 0 | Some c \<Rightarrow> c) s"
    and node: "wf N s \<Longrightarrow> d \<in> N \<Longrightarrow> d \<noteq> 0"
    and child: "wf N s \<Longrightarrow> d \<in> N \<Longrightarrow> dir_node s d \<Longrightarrow> look s d name = Some c \<Longrightarrow> c \<in> N"
begin

lemma loop_walk:
  assumes "wf N s" "d \<in> N" "\<And>n. n \<in> set ns \<Longrightarrow> cstring n"
  shows "resolve_loop T ns d s = ret (tree_walk dir_node look s ns d) s"
  using assms(2,3)
proof (induction ns arbitrary: d)
  case (Cons n ns)
  have nz: "d \<noteq> 0" using node [OF assms(1) Cons.prems(1)] .
  show ?case
  proof (cases "dir_node s d")
    case False
    then show ?thesis using nz by (simp add: dir_node_def)
  next
    case True
    have f: "vfs_finddir T d n s = ret (case look s d n of None \<Rightarrow> 0 | Some c \<Rightarrow> c) s"
      using find [OF assms(1) Cons.prems(1) True] Cons.prems(2) by simp
    show ?thesis
    proof (cases "look s d n")
      case None
      have "resolve_loop T ns 0 s = ret 0 s" by (cases ns) simp_all
      then show ?thesis using None f True nz by (simp add: andthen_def ret_def dir_node_def)
    next
      case (Some c)
      then have "resolve_loop T ns c s = ret (tree_walk dir_node look s ns c) s"
        using child [OF assms(1) Cons.prems(1) True] Cons by simp
      then show ?thesis using Some f True True [unfolded dir_node_def] nz by (simp add: andthen_def ret_def)
    qed
  qed
qed simp

lemma resolve_walk:
  assumes "wf N s" "vfs_root_node s \<in> N" "cstring path" "length (comps path) \<le> 64" "length path < 4078"
  shows "vfs_resolve_path T (Some path) s = ret (tree_walk dir_node look s (path_names path) (vfs_root_node s)) s"
proof -
  have "cstring n" if "n \<in> set (path_names path)" for n
    using path_names_props [OF that] assms(3) by (auto simp: cstring_def)
  then show ?thesis
    using resolve_names [OF assms(3-5) node [OF assms(1,2)]] loop_walk [OF assms(1,2)] by simp
qed

end

lemma split_on_append: "split_on ''/'' (p @ CHR ''/'' # q) = split_on ''/'' p @ split_on ''/'' q"
proof (induction p)
  case (Cons c p)
  have "split_on ''/'' p \<noteq> []" by (cases p) (auto split: list.splits)
  with Cons show ?case by (auto split: list.splits)
qed simp

lemma split_on_plain: "CHR ''/'' \<notin> set q \<Longrightarrow> split_on ''/'' q = [q]"
  by (induction q) auto

text \<open>A path is the directory before its last slash and a plain name.\<close>

lemma path_names_leaf:
  assumes "CHR ''/'' \<notin> set leaf" "leaf \<noteq> []" "leaf \<noteq> ''.''" "leaf \<noteq> ''..''"
  shows "path_names (dir @ CHR ''/'' # leaf) = path_names dir @ [leaf]" "path_names leaf = [leaf]"
    "comps (dir @ CHR ''/'' # leaf) = comps dir @ [leaf]"
  using assms by (simp_all add: path_names_def comps_def split_on_append split_on_plain norm_step_def)

lemma strrchr_from:
  "CHR ''/'' \<notin> set leaf \<Longrightarrow> c_strrchr_from leaf (CHR ''/'') i found = found"
  by (induction leaf arbitrary: i) auto

lemma strrchr_last:
  assumes "CHR ''/'' \<notin> set leaf"
  shows "c_strrchr (dir @ CHR ''/'' # leaf) (CHR ''/'') = Some (length dir)"
proof -
  have "c_strrchr_from (dir @ CHR ''/'' # leaf) (CHR ''/'') i found = Some (i + length dir)" for i found
    using strrchr_from [OF assms] by (induction dir arbitrary: i found) auto
  then show ?thesis by (simp add: c_strrchr_def)
qed

lemma split_path_leaf:
  assumes "CHR ''/'' \<notin> set leaf" "length leaf < 255" "length dir < 4080"
  shows "split_path junk (dir @ CHR ''/'' # leaf) = Done (dir, leaf)"
  using assms strrchr_last [OF assms(1), of dir] by (simp add: split_path_def)

end
