(* ===== verification/Ramfs.thy ===== *)
theory Ramfs
  imports Vfs
begin

unbundle bit_operations_syntax

text \<open>
  The RAM file system of \<open>fs/ramfs.c\<close> on the kernel heap. A \<open>ramfs_node_t\<close> embeds its VFS node, so both are
  found at the same address; \<open>rnode\<close> holds the other fields. A read before the start of an array is a crash. Nodes and file contents are allocated by
  \<open>kmalloc\<close> and \<open>krealloc\<close>; the bytes of files and of callers' buffers are in \<open>data\<close>.
\<close>

section \<open>State\<close>

record ramfs_node =
  r_data :: u64
  r_data_capacity :: u64
  r_children :: "nat \<Rightarrow> u64"
  r_child_count :: nat
  r_parent :: u64

record ramfs_st = vfs_st +
  rnode :: "u64 \<Rightarrow> ramfs_node"
  dirent_buf :: vfs_dirent

abbreviation (input) RAMFS_MAX_CHILDREN :: nat where "RAMFS_MAX_CHILDREN \<equiv> 64"
abbreviation (input) RAMFS_NODE_SIZE :: u64 where "RAMFS_NODE_SIZE \<equiv> 896"
abbreviation (input) RAMFS_OPS :: nat where "RAMFS_OPS \<equiv> 1"

definition upd_rnode :: "u64 \<Rightarrow> (ramfs_node \<Rightarrow> ramfs_node) \<Rightarrow> 'a ramfs_st_scheme \<Rightarrow> 'a ramfs_st_scheme" where
  "upd_rnode n f s = s\<lparr>rnode := (rnode s)(n := f (rnode s n))\<rparr>"

section \<open>File contents\<close>

definition ramfs_read :: "u64 \<Rightarrow> u64 \<Rightarrow> u64 \<Rightarrow> u64 \<Rightarrow> (int, 'a ramfs_st_scheme) act" where
  "ramfs_read node offset sz buf s =
     (if r_data (rnode s node) = 0 then ret 0 s
      else if offset \<ge> n_size (vnode s node) then ret 0 s
      else
        (let avail = n_size (vnode s node) - offset; to_read = min sz avail
         in ret (sint to_read) (s\<lparr>data := memcpy (data s) buf (r_data (rnode s node) + offset) (unat to_read)\<rparr>)))"

text \<open>Growing the buffer: the result is False when no memory is left.\<close>

definition ramfs_grow :: "u64 \<Rightarrow> u64 \<Rightarrow> (bool, 'a ramfs_st_scheme) act" where
  "ramfs_grow node new_end s =
     (let cap = r_data_capacity (rnode s node) in
      if new_end > cap then
        (let new_cap = max new_end (cap * 2); new_cap = (if new_cap < 64 then 64 else new_cap) in
         andthen (krealloc (r_data (rnode s node)) new_cap) (\<lambda>new_data s1.
           if new_data = 0 then ret False s1
           else
             (let s2 = (if new_cap > cap
                        then s1\<lparr>data := memset (data s1) (new_data + cap) 0 (unat (new_cap - cap))\<rparr> else s1)
              in ret True (upd_rnode node (\<lambda>r. r\<lparr>r_data := new_data, r_data_capacity := new_cap\<rparr>) s2))) s)
      else ret True s)"

definition ramfs_write :: "u64 \<Rightarrow> u64 \<Rightarrow> u64 \<Rightarrow> u64 \<Rightarrow> (int, 'a ramfs_st_scheme) act" where
  "ramfs_write node offset sz buf =
     andthen (ramfs_grow node (offset + sz)) (\<lambda>ok s1.
       if \<not> ok then ret (- ENOMEM) s1
       else
         (let s2 = s1\<lparr>data := memcpy (data s1) (r_data (rnode s1 node) + offset) buf (unat sz)\<rparr>;
              s3 = (if offset + sz > n_size (vnode s2 node) then upd_node node (\<lambda>n. n\<lparr>n_size := offset + sz\<rparr>) s2 else s2)
          in ret (sint sz) s3))"

section \<open>Directories\<close>

definition child_index :: "u64 \<Rightarrow> string \<Rightarrow> 'a ramfs_st_scheme \<Rightarrow> nat option" where
  "child_index node name s =
     for_find (\<lambda>i. c_strcmp (n_name (vnode s (r_children (rnode s node) i))) name = 0) 0 (r_child_count (rnode s node))"

definition ramfs_finddir :: "u64 \<Rightarrow> string \<Rightarrow> (u64, 'a ramfs_st_scheme) act" where
  "ramfs_finddir node name s =
     ret (case child_index node name s of None \<Rightarrow> 0 | Some i \<Rightarrow> r_children (rnode s node) i) s"

definition ramfs_readdir :: "u64 \<Rightarrow> u32 \<Rightarrow> (vfs_dirent option, 'a ramfs_st_scheme) act" where
  "ramfs_readdir node index s =
     (if index = 0 then
        (let s1 = s\<lparr>dirent_buf := (dirent_buf s)\<lparr>d_name := ''.'', d_inode := n_inode (vnode s node), d_type := VFS_DIRECTORY\<rparr>\<rparr>
         in ret (Some (dirent_buf s1)) s1)
      else if index = 1 then
        (let p = r_parent (rnode s node);
             s1 = s\<lparr>dirent_buf := (dirent_buf s)\<lparr>d_name := ''..'',
                    d_inode := (if p \<noteq> 0 then n_inode (vnode s p) else n_inode (vnode s node)), d_type := VFS_DIRECTORY\<rparr>\<rparr>
         in ret (Some (dirent_buf s1)) s1)
      else if sint (index - 2) < 0 then Some Panic
      else if sint (index - 2) \<ge> int (r_child_count (rnode s node)) then ret None s
      else
        (let child = vnode s (r_children (rnode s node) (nat (sint (index - 2))));
             s1 = s\<lparr>dirent_buf := (dirent_buf s)\<lparr>d_name := take VFS_NAME_MAX (n_name child), d_inode := n_inode child,
                    d_type := n_flags child\<rparr>\<rparr>
         in ret (Some (dirent_buf s1)) s1))"

text \<open>The other fields as \<open>memset\<close> leaves them, and what the two creating operations set.\<close>

definition zero_rnode :: ramfs_node where
  "zero_rnode = \<lparr>r_data = 0, r_data_capacity = 0, r_children = (\<lambda>_. 0), r_child_count = 0, r_parent = 0\<rparr>"

definition add_child :: "u64 \<Rightarrow> u32 \<Rightarrow> string \<Rightarrow> u32 \<Rightarrow> u64 \<Rightarrow> 'a ramfs_st_scheme \<Rightarrow> 'a ramfs_st_scheme" where
  "add_child parent kind name mode child s =
     (let s1 = upd_node child (\<lambda>_. zero_node\<lparr>n_name := take VFS_NAME_MAX name, n_flags := kind, n_mode := mode,
                 n_inode := child, n_size := 0, n_ops := n_ops (vnode s parent)\<rparr>) s;
          s2 = upd_rnode child (\<lambda>_. zero_rnode\<lparr>r_parent := parent\<rparr>) s1
      in upd_rnode parent (\<lambda>r. r\<lparr>r_children := (r_children r)(r_child_count r := child), r_child_count := r_child_count r + 1\<rparr>) s2)"

definition ramfs_mkdir :: "u64 \<Rightarrow> string \<Rightarrow> u32 \<Rightarrow> (int, 'a ramfs_st_scheme) act" where
  "ramfs_mkdir parent name mode =
     andthen (ramfs_finddir parent name) (\<lambda>found s.
       if found \<noteq> 0 then ret 0 s
       else if r_child_count (rnode s parent) \<ge> RAMFS_MAX_CHILDREN then ret (- ENOSPC) s
       else andthen (kmalloc RAMFS_NODE_SIZE) (\<lambda>child s1.
         if child = 0 then ret (- ENOMEM) s1
         else ret 0 (add_child parent VFS_DIRECTORY name mode child s1)) s)"

definition ramfs_create :: "u64 \<Rightarrow> string \<Rightarrow> u32 \<Rightarrow> (int, 'a ramfs_st_scheme) act" where
  "ramfs_create parent name mode =
     andthen (ramfs_finddir parent name) (\<lambda>found s.
       if found \<noteq> 0 then ret 0 s
       else if r_child_count (rnode s parent) \<ge> RAMFS_MAX_CHILDREN then ret (- ENOSPC) s
       else andthen (kmalloc RAMFS_NODE_SIZE) (\<lambda>child s1.
         if child = 0 then ret (- ENOMEM) s1
         else ret 0 (add_child parent VFS_FILE name mode child s1)) s)"

definition free_mem :: "u64 \<Rightarrow> (unit, 'a ramfs_st_scheme) act" where
  "free_mem p s = (case kfree p s of None \<Rightarrow> None | Some Panic \<Rightarrow> Some Panic | Some (Done t) \<Rightarrow> Some (Done ((), t)))"

definition remove_child :: "nat \<Rightarrow> ramfs_node \<Rightarrow> ramfs_node" where
  "remove_child i r = r\<lparr>r_children := fold (\<lambda>j ch. ch(j := ch (j + 1))) [i..<r_child_count r - 1] (r_children r),
     r_child_count := r_child_count r - 1\<rparr>"

definition ramfs_unlink :: "u64 \<Rightarrow> string \<Rightarrow> (int, 'a ramfs_st_scheme) act" where
  "ramfs_unlink parent name s =
     (case child_index parent name s of
        None \<Rightarrow> ret (- ENOENT) s
      | Some i \<Rightarrow>
          (let victim = r_children (rnode s parent) i in
           andthen (if r_data (rnode s victim) \<noteq> 0 then free_mem (r_data (rnode s victim)) else ret ()) (\<lambda>_.
             andthen (free_mem victim) (\<lambda>_ s2. ret 0 (upd_rnode parent (remove_child i) s2))) s))"

definition ramfs_ops :: "'a ramfs_st_scheme vfs_ops" where
  "ramfs_ops = \<lparr>op_read = Some ramfs_read, op_write = Some ramfs_write, op_finddir = Some ramfs_finddir,
     op_readdir = Some ramfs_readdir, op_mkdir = Some ramfs_mkdir, op_create = Some ramfs_create,
     op_unlink = Some ramfs_unlink, op_open = None, op_close = None\<rparr>"

section \<open>The initial tree\<close>

definition ramfs_add_file :: "u64 \<Rightarrow> string \<Rightarrow> u64 \<Rightarrow> u64 \<Rightarrow> u32 \<Rightarrow> (unit, 'a ramfs_st_scheme) act" where
  "ramfs_add_file parent name dat sz mode =
     andthen (ramfs_create parent name mode) (\<lambda>_. andthen (ramfs_finddir parent name) (\<lambda>file.
       if file \<noteq> 0 \<and> dat \<noteq> 0 \<and> sz > 0 then andthen (ramfs_write file 0 sz dat) (\<lambda>_. ret ()) else ret ()))"

primrec make_dirs :: "u64 \<Rightarrow> (string \<times> u32) list \<Rightarrow> (unit, 'a ramfs_st_scheme) act" where
  "make_dirs parent [] = ret ()"
| "make_dirs parent (d # ds) = andthen (ramfs_mkdir parent (fst d) (snd d)) (\<lambda>_. make_dirs parent ds)"

definition if_found :: "u64 \<Rightarrow> string \<Rightarrow> (u64 \<Rightarrow> (unit, 'a ramfs_st_scheme) act) \<Rightarrow> (unit, 'a ramfs_st_scheme) act" where
  "if_found parent name f = andthen (ramfs_finddir parent name) (\<lambda>n. if n \<noteq> 0 then f n else ret ())"

text \<open>\<open>motd\<close> and \<open>hostname\<close> are the addresses of the two constant texts, of 112 and 9 characters.\<close>

definition ramfs_create_root :: "u64 \<Rightarrow> u64 \<Rightarrow> (u64, 'a ramfs_st_scheme) act" where
  "ramfs_create_root motd hostname =
     andthen (kmalloc RAMFS_NODE_SIZE) (\<lambda>root s.
       if root = 0 then Some Panic
       else
         (let s1 = upd_node root (\<lambda>_. zero_node\<lparr>n_name := ''/'', n_flags := VFS_DIRECTORY, n_mode := 0x1ED, n_inode := 1,
                     n_ops := RAMFS_OPS\<rparr>) s;
              s2 = upd_rnode root (\<lambda>_. zero_rnode\<lparr>r_parent := root\<rparr>) s1
          in andthen (make_dirs root [(''bin'', 0x1ED), (''etc'', 0x1ED), (''dev'', 0x1ED), (''proc'', 0x16D),
                 (''tmp'', 0x1FF), (''home'', 0x1ED)]) (\<lambda>_.
             andthen (if_found root ''home'' (\<lambda>home. make_dirs home [(''user'', 0x1ED)])) (\<lambda>_.
             andthen (make_dirs root [(''var'', 0x1ED), (''usr'', 0x1ED), (''sys'', 0x1ED)]) (\<lambda>_.
             andthen (if_found root ''sys'' (\<lambda>sys.
                 andthen (make_dirs sys [(''pkg'', 0x1ED), (''users'', 0x1C0), (''packages'', 0x1ED)]) (\<lambda>_.
                 if_found sys ''packages'' (\<lambda>pkgs. make_dirs pkgs [(''cache'', 0x1ED)])))) (\<lambda>_.
             andthen (if_found root ''etc'' (\<lambda>etc.
                 andthen (ramfs_add_file etc ''motd'' motd 112 0x124) (\<lambda>_.
                 ramfs_add_file etc ''hostname'' hostname 9 0x124))) (\<lambda>_.
             andthen (if_found root ''dev'' (\<lambda>dev.
                 andthen (ramfs_create dev ''null'' 0x1B6) (\<lambda>_. andthen (ramfs_create dev ''zero'' 0x1B6) (\<lambda>_. ret ())))) (\<lambda>_.
             ret root)))))) s2))"

section \<open>Directories as maps\<close>

definition kids :: "'a ramfs_st_scheme \<Rightarrow> u64 \<Rightarrow> (string \<times> u64) list" where
  "kids s d = map (\<lambda>i. (n_name (vnode s (r_children (rnode s d) i)), r_children (rnode s d) i)) [0..<r_child_count (rnode s d)]"

definition ramfs_look :: "'a ramfs_st_scheme \<Rightarrow> u64 \<Rightarrow> string \<Rightarrow> u64 option" where
  "ramfs_look s d = map_of (kids s d)"

text \<open>
  The nodes N form a tree of directories on a well-formed heap: each is the data area of a live block, has a proper name,
  and has its children in N, under different names.
\<close>

definition rnode_ok :: "u64 set \<Rightarrow> u64 set \<Rightarrow> 'a ramfs_st_scheme \<Rightarrow> u64 \<Rightarrow> bool" where
  "rnode_ok N L s n \<longleftrightarrow> n \<noteq> 0 \<and> n - 32 \<in> L \<and> n_ops (vnode s n) = RAMFS_OPS \<and> n_mount (vnode s n) = 0
     \<and> cstring (n_name (vnode s n)) \<and> r_child_count (rnode s n) \<le> RAMFS_MAX_CHILDREN
     \<and> set (map snd (kids s n)) \<subseteq> N \<and> distinct (map fst (kids s n))"

definition ramfs_wf :: "u64 set \<Rightarrow> u64 list \<Rightarrow> u64 list \<Rightarrow> 'a ramfs_st_scheme \<Rightarrow> bool" where
  "ramfs_wf N bs xs s \<longleftrightarrow> heap_wf bs xs s \<and> (\<forall>n\<in>N. rnode_ok N (live bs s) s n)"

lemma wf_node:
  assumes "ramfs_wf N bs xs s" "n \<in> N"
  shows "n \<noteq> 0" "n - 32 \<in> live bs s" "n_ops (vnode s n) = RAMFS_OPS" "n_mount (vnode s n) = 0" "cstring (n_name (vnode s n))"
    "r_child_count (rnode s n) \<le> RAMFS_MAX_CHILDREN" "set (map snd (kids s n)) \<subseteq> N" "distinct (map fst (kids s n))"
  using assms by (simp_all add: ramfs_wf_def rnode_ok_def)

lemma map_of_for_find:
  "map_of (map (\<lambda>i. (f i, g i)) [0..<n]) k = map_option g (for_find (\<lambda>i. f i = k) 0 n)"
proof (cases "for_find (\<lambda>i. f i = k) 0 n")
  case None
  then have "k \<notin> f ` {0..<n}" by (auto simp: for_find_None_iff)
  then show ?thesis using None by (auto simp: map_of_eq_None_iff image_iff)
next
  case (Some i)
  then have i: "i < n" "f i = k" "\<forall>j<i. f j \<noteq> k" by (simp_all add: for_find_Some_iff)
  then have "[0..<n] = [0..<i] @ i # [Suc i..<n]"
    using upt_add_eq_append [of 0 i "n - i"] upt_conv_Cons [of i n] by simp
  moreover have "map_of (map (\<lambda>i. (f i, g i)) [0..<i]) k = None" using i(3) by (auto simp: map_of_eq_None_iff)
  ultimately show ?thesis using Some i(2) by (simp add: map_add_def)
qed

lemma child_index_look:
  assumes "\<And>c. c \<in> set (map snd (kids s d)) \<Longrightarrow> cstring (n_name (vnode s c))" "cstring name"
  shows "map_option (r_children (rnode s d)) (child_index d name s) = ramfs_look s d name"
proof -
  have "child_index d name s = for_find (\<lambda>i. n_name (vnode s (r_children (rnode s d) i)) = name) 0 (r_child_count (rnode s d))"
    unfolding child_index_def
    by (rule for_find_cong) (use assms in \<open>auto simp: kids_def strcmp_zero_iff\<close>)
  then show ?thesis by (simp add: ramfs_look_def kids_def map_of_for_find)
qed

lemma wf_child_index:
  assumes "ramfs_wf N bs xs s" "d \<in> N" "cstring name"
  shows "map_option (r_children (rnode s d)) (child_index d name s) = ramfs_look s d name"
  by (rule child_index_look) (use assms wf_node(5) [OF assms(1)] wf_node(7) [OF assms(1,2)] in \<open>auto\<close>)

lemma wf_look:
  assumes "ramfs_wf N bs xs s" "d \<in> N" "ramfs_look s d name = Some c"
  shows "c \<in> N" "c \<noteq> 0" "n_name (vnode s c) = name"
proof -
  have "(name, c) \<in> set (kids s d)" using assms(3) by (auto simp: ramfs_look_def dest: map_of_SomeD)
  then show c: "c \<in> N" and "n_name (vnode s c) = name"
    using wf_node(7) [OF assms(1,2)] by (auto simp: kids_def)
  show "c \<noteq> 0" by (rule wf_node(1) [OF assms(1) c])
qed

lemma finddir_look:
  assumes "ramfs_wf N bs xs s" "d \<in> N" "cstring name"
  shows "ramfs_finddir d name s = ret (case ramfs_look s d name of None \<Rightarrow> 0 | Some c \<Rightarrow> c) s"
  using wf_child_index [OF assms, symmetric] by (cases "child_index d name s") (auto simp: ramfs_finddir_def)

interpretation ramtree: name_tree "\<lambda>_. ramfs_ops" "\<lambda>N s. \<exists>bs xs. ramfs_wf N bs xs s" ramfs_look
proof
  fix N d name and s :: "'a ramfs_st_scheme"
  assume "\<exists>bs xs. ramfs_wf N bs xs s" and d: "d \<in> N"
  then obtain bs xs where wf: "ramfs_wf N bs xs s" by blast
  show "d \<noteq> 0" by (rule wf_node(1) [OF wf d])
  show "ramfs_look s d name = Some c \<Longrightarrow> c \<in> N" for c using wf_look(1) [OF wf d] .
  assume dir: "dir_node s d" and c: "cstring name"
  show "vfs_finddir (\<lambda>_. ramfs_ops) d name s = ret (case ramfs_look s d name of None \<Rightarrow> 0 | Some c \<Rightarrow> c) s"
    using wf_node(1,3,4) [OF wf d] dir finddir_look [OF wf d c]
    by (simp add: vfs_finddir_def dir_node_def node_op_def ramfs_ops_def)
qed

section \<open>Creating an entry\<close>

lemma rest_sel:
  assumes "heap_rest t = heap_rest s"
  shows "data t = data s" "vnode t = vnode s" "rnode t = rnode s" "vfs_root_node t = vfs_root_node s" "dirent_buf t = dirent_buf s"
    "heap_start_addr t = heap_start_addr s" "heap_end_addr t = heap_end_addr s"
  using assms by (cases t; cases s; simp add: heap_rest_def)+

lemma upd_heap_sel [simp]:
  "heap_wf bs xs (upd_node n f s) = heap_wf bs xs s" "heap_wf bs xs (upd_rnode n g s) = heap_wf bs xs s"
  "live bs (upd_node n f s) = live bs s" "live bs (upd_rnode n g s) = live bs s"
  "vnode (upd_node n f s) = (vnode s)(n := f (vnode s n))" "rnode (upd_node n f s) = rnode s"
  "vnode (upd_rnode n g s) = vnode s" "rnode (upd_rnode n g s) = (rnode s)(n := g (rnode s n))"
  "vfs_root_node (upd_node n f s) = vfs_root_node s" "vfs_root_node (upd_rnode n g s) = vfs_root_node s"
  by (simp_all add: upd_node_def upd_rnode_def heap_wf_def live_def)

lemma kids_cong:
  assumes "r_children (rnode t d) = r_children (rnode s d)" "r_child_count (rnode t d) = r_child_count (rnode s d)"
    "\<And>c. c \<in> set (map snd (kids s d)) \<Longrightarrow> n_name (vnode t c) = n_name (vnode s c)"
  shows "kids t d = kids s d"
  using assms by (auto simp: kids_def)

text \<open>What the creating operations do to a well-formed tree when the new block c is not yet a node.\<close>

lemma add_child_wf:
  fixes kind mode :: u32
  assumes wf: "ramfs_wf N bs xs s" and d: "d \<in> N" and new: "ramfs_look s d name = None" "cstring name" "length name \<le> 255"
    and room: "r_child_count (rnode s d) < 64" and hp: "heap_wf bs' xs' u" "live bs' u = insert (c - 32) (live bs s)"
    and c: "c - 32 \<notin> live bs s" "c \<noteq> 0" and rest: "heap_rest u = heap_rest s"
  defines "t \<equiv> add_child d kind name mode c u"
  shows "ramfs_wf (insert c N) bs' xs' t" "ramfs_look t d = (ramfs_look s d)(name \<mapsto> c)" "ramfs_look t c = Map.empty"
    "\<And>e. e \<in> N \<Longrightarrow> e \<noteq> d \<Longrightarrow> ramfs_look t e = ramfs_look s e"
    "\<And>e. e \<in> N \<Longrightarrow> vnode t e = vnode s e" "n_flags (vnode t c) = kind" "vfs_root_node t = vfs_root_node s" "c \<notin> N"
proof -
  show cN: "c \<notin> N" using wf_node(2) [OF wf] c(1) by auto
  then have cd: "c \<noteq> d" using d by auto
  note r = rest_sel [OF rest]
  have op: "n_ops (vnode s d) = RAMFS_OPS" by (rule wf_node(3) [OF wf d])
  have v: "vnode t = (vnode s)(c := zero_node\<lparr>n_name := name, n_flags := kind, n_mode := mode, n_inode := c, n_ops := RAMFS_OPS\<rparr>)"
    using new(3) op by (simp add: t_def add_child_def Let_def r zero_node_def)
  have rn: "rnode t = (rnode s)(c := zero_rnode\<lparr>r_parent := d\<rparr>, d := (rnode s d)\<lparr>r_children := (r_children (rnode s d))
      (r_child_count (rnode s d) := c), r_child_count := r_child_count (rnode s d) + 1\<rparr>)"
    using cd by (simp add: t_def add_child_def Let_def r)
  have sub: "set (map snd (kids s e)) \<subseteq> N" if "e \<in> N" for e by (rule wf_node(7) [OF wf that])
  have nm: "n_name (vnode t e) = n_name (vnode s e)" if "e \<in> N" for e using that cN by (auto simp: v)
  have kd: "kids t d = kids s d @ [(name, c)]"
  proof -
    have "n_name (vnode t (r_children (rnode s d) i)) = n_name (vnode s (r_children (rnode s d) i))" if "i < r_child_count (rnode s d)" for i
      using sub [OF d] that by (intro nm) (auto simp: kids_def)
    then show ?thesis using cd by (simp add: kids_def rn) (simp add: v)
  qed
  have kc: "kids t c = []" using cd by (simp add: kids_def rn zero_rnode_def)
  have ke: "kids t e = kids s e" if "e \<in> N" "e \<noteq> d" for e
    using that cN sub [OF that(1)] nm by (intro kids_cong) (auto simp: rn)
  show l: "ramfs_look t d = (ramfs_look s d)(name \<mapsto> c)"
    using new(1) by (auto simp: ramfs_look_def kd map_add_def fun_eq_iff split: option.splits)
  show "ramfs_look t c = Map.empty" by (simp add: ramfs_look_def kc)
  show "ramfs_look t e = ramfs_look s e" if "e \<in> N" "e \<noteq> d" for e by (simp add: ramfs_look_def ke [OF that])
  show "vnode t e = vnode s e" if "e \<in> N" for e using that cN by (auto simp: v)
  show "n_flags (vnode t c) = kind" by (simp add: v)
  show "vfs_root_node t = vfs_root_node s" by (simp add: t_def add_child_def Let_def r)
  have fresh: "name \<notin> set (map fst (kids s d))" using new(1) by (simp add: ramfs_look_def map_of_eq_None_iff)
  moreover have "heap_wf bs' xs' t" "live bs' t = insert (c - 32) (live bs s)"
    using hp by (simp_all add: t_def add_child_def Let_def)
  moreover have "rnode_ok (insert c N) (insert (c - 32) (live bs s)) t n" if n: "n \<in> insert c N" for n
  proof -
    consider "n = c" | "n = d" | "n \<in> N" "n \<noteq> d" "n \<noteq> c" using n by blast
    then show ?thesis
    proof cases
      case 1
      then show ?thesis using c(2) new(2) kc cd by (simp add: rnode_ok_def v rn zero_node_def zero_rnode_def)
    next
      case 2
      have "set (map snd (kids t d)) \<subseteq> insert c N" using sub [OF d] by (auto simp: kd)
      moreover have "distinct (map fst (kids t d))" using fresh wf_node(8) [OF wf d] by (simp add: kd)
      ultimately show ?thesis using 2 cd room wf_node(1-6) [OF wf d] by (simp add: rnode_ok_def v rn)
    next
      case 3
      then show ?thesis
        using wf_node [OF wf 3(1)] ke [OF 3(1,2)] by (auto simp: rnode_ok_def v rn)
    qed
  qed
  ultimately show "ramfs_wf (insert c N) bs' xs' t" by (simp add: ramfs_wf_def)
qed

definition ramfs_make :: "u32 \<Rightarrow> u64 \<Rightarrow> string \<Rightarrow> u32 \<Rightarrow> (int, 'a ramfs_st_scheme) act" where
  "ramfs_make kind parent name mode =
     andthen (ramfs_finddir parent name) (\<lambda>found s.
       if found \<noteq> 0 then ret 0 s
       else if r_child_count (rnode s parent) \<ge> RAMFS_MAX_CHILDREN then ret (- ENOSPC) s
       else andthen (kmalloc RAMFS_NODE_SIZE) (\<lambda>child s1.
         if child = 0 then ret (- ENOMEM) s1
         else ret 0 (add_child parent kind name mode child s1)) s)"

lemma make_eq: "ramfs_create = ramfs_make VFS_FILE" "ramfs_mkdir = ramfs_make VFS_DIRECTORY"
  by (simp_all add: fun_eq_iff ramfs_create_def ramfs_mkdir_def ramfs_make_def)

lemma make_found:
  assumes "ramfs_wf N bs xs s" "d \<in> N" "cstring name" "ramfs_look s d name = Some c"
  shows "ramfs_make kind d name mode s = Some (Done (0, s))"
  using finddir_look [OF assms(1-3)] wf_look(2) [OF assms(1,2,4)] assms(4)
  by (simp add: ramfs_make_def andthen_def ret_def)

lemma make_full:
  assumes "ramfs_wf N bs xs s" "d \<in> N" "cstring name" "ramfs_look s d name = None" "r_child_count (rnode s d) = 64"
  shows "ramfs_make kind d name mode s = Some (Done (- ENOSPC, s))"
  using finddir_look [OF assms(1-3)] assms(4,5) by (simp add: ramfs_make_def andthen_def ret_def)

lemma wf_heap_part:
  assumes "ramfs_wf N bs xs s" "heap_part t = heap_part s"
  shows "ramfs_wf N bs xs t" "ramfs_look t = ramfs_look s" "vnode t = vnode s" "vfs_root_node t = vfs_root_node s"
proof -
  have "heap_rest t = heap_rest s" "hdr t = hdr s" using assms(2) by (simp_all add: heap_part_def heap_rest_def)
  note r = rest_sel [OF this(1)] this(2)
  have k: "kids t = kids s" by (simp add: fun_eq_iff kids_def r)
  then show "ramfs_wf N bs xs t"
    using assms heap_wf_cong [OF assms(2)] by (simp add: ramfs_wf_def rnode_ok_def live_def r)
  show "ramfs_look t = ramfs_look s" "vnode t = vnode s" "vfs_root_node t = vfs_root_node s"
    by (simp_all add: fun_eq_iff ramfs_look_def k r)
qed

lemma make_new:
  assumes wf: "ramfs_wf N bs xs s" and d: "d \<in> N" and n: "cstring name" "length name \<le> 255"
    and new: "ramfs_look s d name = None" "r_child_count (rnode s d) < 64"
  shows "(\<exists>t. ramfs_make kind d name mode s = Some (Done (- ENOMEM, t)) \<and> heap_part t = heap_part s)
    \<or> (\<exists>c t bs' xs'. ramfs_make kind d name mode s = Some (Done (0, t)) \<and> ramfs_wf (insert c N) bs' xs' t \<and> c \<notin> N
      \<and> ramfs_look t d = (ramfs_look s d)(name \<mapsto> c) \<and> ramfs_look t c = Map.empty
      \<and> (\<forall>e\<in>N. e \<noteq> d \<longrightarrow> ramfs_look t e = ramfs_look s e) \<and> (\<forall>e\<in>N. vnode t e = vnode s e)
      \<and> n_flags (vnode t c) = kind \<and> vfs_root_node t = vfs_root_node s)"
proof -
  have hw: "heap_wf bs xs s" using wf by (simp add: ramfs_wf_def)
  have f: "ramfs_make kind d name mode s = andthen (kmalloc RAMFS_NODE_SIZE) (\<lambda>child s1.
      if child = 0 then ret (- ENOMEM) s1 else ret 0 (add_child d kind name mode child s1)) s"
    using finddir_look [OF wf d n(1)] new by (simp add: ramfs_make_def andthen_def ret_def)
  have sz: "RAMFS_NODE_SIZE \<noteq> 0" "unat RAMFS_NODE_SIZE < 2 ^ 38" by simp_all
  from kmalloc_cases [OF hw sz] show ?thesis
  proof (elim disjE exE conjE)
    fix t assume "kmalloc RAMFS_NODE_SIZE s = Some (Done (0, t))" "heap_part t = heap_part s"
    then show ?thesis using f by (simp add: andthen_def ret_def)
  next
    fix x u bs' xs' assume k: "kmalloc RAMFS_NODE_SIZE s = Some (Done (x + 32, u))" and x: "x \<notin> live bs s" and hu: "heap_wf bs' xs' u"
      and l: "live bs' u = insert x (live bs s)"
    define c where "c = x + 32"
    have "x \<in> set bs'" using l by (auto simp: live_def)
    then have c0: "c \<noteq> 0"
    proof -
      have T: "tiles (unat (heap_start_addr u)) bs' (unat (heap_current u)) (hdr u)" using hu by (simp add: heap_wf_def)
      have "unat x + 32 < 2 ^ 64" using tiles_mem(2) [OF T \<open>x \<in> set bs'\<close>] unat_u64_less [of "heap_current u"] by simp
      then have "unat c = unat x + 32" unfolding c_def by (subst unat_add_lem [THEN iffD1]) simp_all
      then show ?thesis by auto
    qed
    have l': "live bs' u = insert (c - 32) (live bs s)" "c - 32 \<notin> live bs s" using l x by (simp_all add: c_def)
    note a = add_child_wf(1-7) [OF wf d new(1) n new(2) hu l'(1) l'(2) c0 kmalloc_rest [OF k], where kind = kind and mode = mode]
    have "ramfs_make kind d name mode s = Some (Done (0, add_child d kind name mode c u))"
      using f k c0 by (simp add: andthen_def ret_def c_def)
    moreover have "c \<notin> N" using wf_node(2) [OF wf] l'(2) by auto
    ultimately show ?thesis using a by blast
  qed
qed

section \<open>Paths in the tree\<close>

abbreviation (input) ramfs_at :: "'a ramfs_st_scheme \<Rightarrow> string list \<Rightarrow> u64" where
  "ramfs_at s ns \<equiv> tree_walk dir_node ramfs_look s ns (vfs_root_node s)"

lemma walk_in:
  assumes "ramfs_wf N bs xs s" "d \<in> N" "tree_walk dir_node ramfs_look s ns d \<noteq> 0"
  shows "tree_walk dir_node ramfs_look s ns d \<in> N"
  using assms(2,3)
proof (induction ns arbitrary: d)
  case (Cons n ns)
  then show ?case using wf_look(1) [OF assms(1)] by (auto split: if_splits option.splits)
qed simp

lemma walk_append:
  "tree_walk isd look s ns d \<noteq> 0 \<Longrightarrow> tree_walk isd look s (ns @ [n]) d = tree_walk isd look s [n] (tree_walk isd look s ns d)"
  by (induction ns arbitrary: d) (auto split: option.splits if_splits)

lemma walk_keeps:
  assumes wf: "ramfs_wf N bs xs s" and v: "\<And>e. e \<in> N \<Longrightarrow> dir_node t e = dir_node s e"
    and l: "\<And>e n c. e \<in> N \<Longrightarrow> ramfs_look s e n = Some c \<Longrightarrow> ramfs_look t e n = Some c"
    and d: "d \<in> N" "tree_walk dir_node ramfs_look s ns d \<noteq> 0"
  shows "tree_walk dir_node ramfs_look t ns d = tree_walk dir_node ramfs_look s ns d"
  using d
proof (induction ns arbitrary: d)
  case (Cons n ns)
  then obtain c where c: "dir_node s d" "ramfs_look s d n = Some c" by (auto split: if_splits option.splits)
  then show ?case using Cons l [OF Cons.prems(1) c(2)] v [OF Cons.prems(1)] wf_look(1) [OF wf Cons.prems(1) c(2)] by simp
qed simp

lemma parent_walk:
  assumes wf: "ramfs_wf N bs xs s" and r: "vfs_root_node s \<in> N"
    and p: "cstring dir" "length (comps dir) \<le> 64" "length dir < 4078"
  shows "parent_of (\<lambda>_. ramfs_ops) dir s = ret (ramfs_at s (path_names dir)) s"
proof (cases "dir = []")
  case True
  then show ?thesis by (simp add: parent_of_def path_names_def comps_def)
next
  case False
  then show ?thesis using ramtree.resolve_walk [OF _ r p] wf by (auto simp: parent_of_def)
qed

lemma vfs_create_parent:
  fixes s :: "'a ramfs_st_scheme"
  assumes wf: "ramfs_wf N bs xs s" and r: "vfs_root_node s \<in> N"
    and p: "cstring dir" "length (comps dir) \<le> 64" "length dir < 4078" and leaf: "CHR ''/'' \<notin> set leaf" "length leaf < 255"
    and d: "ramfs_at s (path_names dir) = d"
  shows "vfs_create (\<lambda>_. ramfs_ops) junk (dir @ CHR ''/'' # leaf) mode s
      = (if d = 0 then ret (- ENOENT) s else ramfs_create d leaf mode s)"
proof -
  have "node_op (\<lambda>_. ramfs_ops :: 'a ramfs_st_scheme vfs_ops) op_create (vnode s d) = Some ramfs_create" if "d \<noteq> 0"
    using wf_node(3) [OF wf walk_in [OF wf r]] d that by (auto simp: node_op_def ramfs_ops_def)
  then show ?thesis
    using split_path_leaf [OF leaf, of dir junk] p(3) parent_walk [OF wf r p] d
    by (auto simp: vfs_create_def andthen_def ret_def)
qed

text \<open>Every outcome of the creating operations only adds to the tree.\<close>

definition grows :: "u64 set \<Rightarrow> 'a ramfs_st_scheme \<Rightarrow> 'a ramfs_st_scheme \<Rightarrow> bool" where
  "grows N s t \<longleftrightarrow> (\<forall>e\<in>N. vnode t e = vnode s e \<and> ramfs_look s e \<subseteq>\<^sub>m ramfs_look t e) \<and> vfs_root_node t = vfs_root_node s"

lemma make_grows:
  assumes wf: "ramfs_wf N bs xs s" and d: "d \<in> N" and n: "cstring name" "length name \<le> 255"
  shows "\<exists>e t N' bs' xs'. ramfs_make kind d name mode s = Some (Done (e, t)) \<and> ramfs_wf N' bs' xs' t \<and> N \<subseteq> N' \<and> grows N s t
    \<and> (e = 0 \<or> e = - ENOSPC \<or> e = - ENOMEM) \<and> (e = 0 \<longrightarrow> ramfs_look t d name \<noteq> None)"
proof (cases "ramfs_look s d name")
  case (Some c)
  show ?thesis using make_found [OF wf d n(1) Some] wf Some by (intro exI) (auto simp: grows_def)
next
  case None
  show ?thesis
  proof (cases "r_child_count (rnode s d) = 64")
    case True
    show ?thesis using make_full [OF wf d n(1) None True] wf by (intro exI) (auto simp: grows_def)
  next
    case False
    then have "r_child_count (rnode s d) < 64" using wf_node(6) [OF wf d] by simp
    from make_new [OF wf d n None this, where kind = kind and mode = mode] show ?thesis
    proof (elim disjE exE conjE)
      fix t assume m: "ramfs_make kind d name mode s = Some (Done (- ENOMEM, t))" and h: "heap_part t = heap_part s"
      have "grows N s t" using wf_heap_part(2-4) [OF wf h] by (simp add: grows_def)
      then show ?thesis using m wf_heap_part(1) [OF wf h] by (intro exI conjI) auto
    next
      fix c t bs' xs' assume m: "ramfs_make kind d name mode s = Some (Done (0, t))" and w: "ramfs_wf (insert c N) bs' xs' t"
        and l: "ramfs_look t d = (ramfs_look s d)(name \<mapsto> c)" "\<forall>e\<in>N. e \<noteq> d \<longrightarrow> ramfs_look t e = ramfs_look s e"
        and v: "\<forall>e\<in>N. vnode t e = vnode s e" "vfs_root_node t = vfs_root_node s"
      have "ramfs_look s e \<subseteq>\<^sub>m ramfs_look t e" if "e \<in> N" for e
        using l that None by (cases "e = d") (auto simp: map_le_def)
      then have "grows N s t" using v by (simp add: grows_def)
      then show ?thesis using m w l(1) by (intro exI conjI) auto
    qed
  qed
qed

lemma walk_grows:
  assumes wf: "ramfs_wf N bs xs s" and r: "vfs_root_node s \<in> N" and g: "grows N s t" and w: "ramfs_at s ns \<noteq> 0"
  shows "ramfs_at t ns = ramfs_at s ns" "dir_node t (ramfs_at s ns) = dir_node s (ramfs_at s ns)"
proof -
  have v: "dir_node t e = dir_node s e" if "e \<in> N" for e using g that by (simp add: grows_def dir_node_def)
  have l: "ramfs_look t e n = Some c" if "e \<in> N" "ramfs_look s e n = Some c" for e n c
  proof -
    have "ramfs_look s e \<subseteq>\<^sub>m ramfs_look t e" using g that(1) by (simp add: grows_def)
    with that(2) show ?thesis by (auto simp: map_le_def dom_def)
  qed
  show "dir_node t (ramfs_at s ns) = dir_node s (ramfs_at s ns)" by (rule v [OF walk_in [OF wf r w]])
  have "vfs_root_node t = vfs_root_node s" using g by (simp add: grows_def)
  moreover have "tree_walk dir_node ramfs_look t ns (vfs_root_node s) = ramfs_at s ns" by (rule walk_keeps [OF wf v l r w])
  ultimately show "ramfs_at t ns = ramfs_at s ns" by (simp only:)
qed

lemma resolve_leaf:
  assumes wf: "ramfs_wf N bs xs t" and r: "vfs_root_node t \<in> N"
    and p: "cstring (dir @ CHR ''/'' # leaf)" "length (comps dir) < 64" "length (dir @ CHR ''/'' # leaf) < 4078"
    and leaf: "CHR ''/'' \<notin> set leaf" "leaf \<noteq> []" "leaf \<noteq> ''.''" "leaf \<noteq> ''..''"
    and d: "ramfs_at t (path_names dir) = d" "d \<noteq> 0" "dir_node t d" "ramfs_look t d leaf = Some c"
  shows "vfs_resolve_path (\<lambda>_. ramfs_ops) (Some (dir @ CHR ''/'' # leaf)) t = ret c t" "c \<noteq> 0" "n_name (vnode t c) = leaf"
proof -
  note pn = path_names_leaf [OF leaf]
  have dN: "d \<in> N" using walk_in [OF wf r] d(1,2) by auto
  show "c \<noteq> 0" "n_name (vnode t c) = leaf" by (rule wf_look [OF wf dN d(4)])+
  have "ramfs_at t (path_names (dir @ CHR ''/'' # leaf)) = c"
    using walk_append [of dir_node ramfs_look t "path_names dir" "vfs_root_node t" leaf] d by (simp add: pn)
  moreover have "length (comps (dir @ CHR ''/'' # leaf)) \<le> 64" using p(2) by (simp add: pn)
  ultimately show "vfs_resolve_path (\<lambda>_. ramfs_ops) (Some (dir @ CHR ''/'' # leaf)) t = ret c t"
    using ramtree.resolve_walk [OF _ r p(1) _ p(3)] wf by auto
qed


text \<open>A file system that has only its root, in the first block of the heap.\<close>

definition ramfs_demo :: ramfs_st where
  "ramfs_demo = vfs_st.extend (vfs_demo\<lparr>vfs_root_node := 0xFFFFFE0000000020, free_list := 0xFFFFFE00000003A0,
     hdr := (hdr vfs_demo)(0xFFFFFE0000000000 := \<lparr>hb_magic = HEAP_MAGIC, hb_flags = 0, hb_size = 896, hb_next = 0\<rparr>,
       0xFFFFFE00000003A0 := \<lparr>hb_magic = HEAP_MAGIC, hb_flags = 3, hb_size = 0x100C40, hb_next = 0\<rparr>),
     vnode := (\<lambda>_. zero_node)(0xFFFFFE0000000020 := zero_node\<lparr>n_name := ''/'', n_flags := VFS_DIRECTORY, n_ops := RAMFS_OPS\<rparr>)\<rparr>)
     \<lparr>rnode = \<lambda>_. zero_rnode, dirent_buf = \<lparr>d_name = [], d_inode = 0, d_type = 0, d_size = 0\<rparr>\<rparr>"

lemmas demo_defs = ramfs_demo_def vfs_st.defs vfs_demo_def heap_st.defs heap_demo_def vmm_st.defs vmm_demo_def

lemma ramfs_demo_wf:
  "ramfs_wf {0xFFFFFE0000000020} [0xFFFFFE0000000000, 0xFFFFFE00000003A0] [0xFFFFFE00000003A0] ramfs_demo"
  "vfs_root_node ramfs_demo = 0xFFFFFE0000000020" "dir_node ramfs_demo 0xFFFFFE0000000020"
  by (simp_all add: ramfs_wf_def rnode_ok_def heap_wf_def live_def demo_defs is_free_def kids_def zero_rnode_def zero_node_def
      cstring_def dir_node_def is_dir_def)


end
