(* ===== verification/Ramfs_File.thy ===== *)
theory Ramfs_File
  imports Ramfs
begin

unbundle bit_operations_syntax

text \<open>
  What files of the RAM file system contain. A write is followed through the growth of the buffer, with
  \<open>krealloc\<close>, \<open>kmalloc\<close>, \<open>memcpy\<close> and \<open>memset\<close> of the other components.
\<close>

section \<open>Memory of a live block\<close>

definition in_heap :: "'a heap_st_scheme \<Rightarrow> u64 \<Rightarrow> bool" where
  "in_heap s a \<longleftrightarrow> heap_start_addr s \<le> a \<and> a < heap_end_addr s"

lemma live_range:
  assumes wf: "heap_wf bs xs s" and p: "p - 32 \<in> live bs s"
  shows "unat (heap_start_addr s) < unat p" "unat p + unat (hb_size (hdr s (p - 32))) \<le> unat (heap_end_addr s)"
    "unat p = unat (p - 32) + 32"
proof -
  have T: "tiles (unat (heap_start_addr s)) bs (unat (heap_current s)) (hdr s)" and c: "unat (heap_current s) \<le> unat (heap_end_addr s)"
    using wf by (simp_all add: heap_wf_def word_le_nat_alt)
  have m: "p - 32 \<in> set bs" using p by (simp add: live_def)
  have "unat (p - 32) + 32 < 2 ^ 64"
    using tiles_mem(2) [OF T m] unat_u64_less [of "heap_current s"] by simp
  then have "unat (p - 32 + 32) = unat (p - 32) + 32" by (subst unat_add_lem [THEN iffD1]) simp_all
  then show e: "unat p = unat (p - 32) + 32" by simp
  show "unat (heap_start_addr s) < unat p" "unat p + unat (hb_size (hdr s (p - 32))) \<le> unat (heap_end_addr s)"
    using tiles_mem(1,2) [OF T m] c e by simp_all
qed

lemma unat_offset_heap:
  fixes p e :: u64
  assumes "unat p + n \<le> unat e" "i < n"
  shows "unat (p + of_nat i) = unat p + i"
proof -
  have i: "i < 2 ^ 64" "unat p + i < 2 ^ 64" using assms unat_u64_less [of e] by simp_all
  have "unat (p + of_nat i) = (unat p + i) mod 2 ^ 64" by (simp only: unat_u64_add unat_of_nat_u64 [OF i(1)])
  then show ?thesis using i(2) by simp
qed

lemma unat_diff_offset:
  assumes "unat (q :: u64) \<le> unat a"
  shows "unat (a - q) = unat a - unat q"
  using assms by (simp add: unat_sub word_le_nat_alt)

text \<open>Reading and writing outside of a region that does not wrap.\<close>

lemma moved_outside:
  assumes "unat q + n \<le> unat (e :: u64)" "\<not> (unat q \<le> unat a \<and> unat a < unat q + n)"
  shows "moved m q p n a = m a" "filled m q v n a = m a"
proof -
  have "\<not> unat (a - q) < n"
  proof
    assume l: "unat (a - q) < n"
    have "a = q + of_nat (unat (a - q))" by simp
    then have "unat a = unat q + unat (a - q)" using unat_offset_heap [OF assms(1) l] by simp
    with l assms(2) show False by simp
  qed
  then show "moved m q p n a = m a" "filled m q v n a = m a" by (simp_all add: moved_def filled_def)
qed

lemma moved_inside: "i < n \<Longrightarrow> n < 2 ^ 64 \<Longrightarrow> moved m q p n (q + of_nat i) = m (p + of_nat i)"
  by (simp add: moved_def unat_of_nat_u64)

lemma filled_inside: "i < n \<Longrightarrow> n < 2 ^ 64 \<Longrightarrow> filled m q v n (q + of_nat i) = v"
  by (simp add: filled_def unat_of_nat_u64)

lemma memcpy_apart:
  assumes "unat q + n \<le> unat (e :: u64)" "unat p + n \<le> unat (f :: u64)" "unat p + n \<le> unat q \<or> unat q + n \<le> unat p"
  shows "memcpy m q p n = moved m q p n"
proof (rule memcpy_moved)
  show "n \<le> unat (q - p)"
  proof (cases "unat p \<le> unat q")
    case True
    then show ?thesis using assms(3) unat_diff_offset [of p q] by auto
  next
    case False
    then have "unat (q - p) = 2 ^ 64 + unat q - unat p"
      using unat_u64_less [of p] by (simp add: unat_sub_if')
    then show ?thesis using assms(2) unat_u64_less [of f] by simp
  qed
qed

section \<open>Growing the buffer\<close>

definition same_rest :: "'a heap_st_scheme \<Rightarrow> 'a heap_st_scheme \<Rightarrow> bool" where
  "same_rest s t \<longleftrightarrow> heap_st.more t = heap_st.more s \<and> heap_start_addr t = heap_start_addr s \<and> heap_end_addr t = heap_end_addr s"

definition ptr_ok :: "u64 list \<Rightarrow> 'a heap_st_scheme \<Rightarrow> u64 \<Rightarrow> u64 \<Rightarrow> bool" where
  "ptr_ok bs s p cap \<longleftrightarrow> (if p = 0 then cap = 0 else p - 32 \<in> live bs s \<and> cap \<le> hb_size (hdr s (p - 32)))"

text \<open>What a successful \<open>krealloc\<close> promises: the new region lies in the heap and starts with the old contents.\<close>

definition grown :: "'a heap_st_scheme \<Rightarrow> u64 \<Rightarrow> u64 \<Rightarrow> u64 \<Rightarrow> u64 \<Rightarrow> 'a heap_st_scheme \<Rightarrow> bool" where
  "grown s p cap n q t \<longleftrightarrow> same_rest s t \<and> unat (heap_start_addr s) < unat q \<and> unat q + unat n \<le> unat (heap_end_addr s)
     \<and> (\<forall>i<unat cap. data t (q + of_nat i) = data s (p + of_nat i)) \<and> (\<forall>a. \<not> in_heap s a \<longrightarrow> data t a = data s a)"

lemma rest_same: "heap_rest t = heap_rest s \<Longrightarrow> same_rest s t \<and> data t = data s"
  by (simp add: heap_rest_def same_rest_def)

lemma kmalloc_block:
  assumes wf: "heap_wf bs xs s" and n: "n \<noteq> 0" "unat n < 2 ^ 38" and k: "kmalloc n s = Some (Done (q, t))" "q \<noteq> 0"
  shows "\<exists>bs' xs'. heap_wf bs' xs' t \<and> q - 32 \<in> live bs' t \<and> q - 32 \<notin> live bs s \<and> n \<le> hb_size (hdr t (q - 32))
    \<and> live bs s \<subseteq> live bs' t \<and> (\<forall>b\<in>live bs s. hb_size (hdr t b) = hb_size (hdr s b)) \<and> same_rest s t \<and> data t = data s"
proof -
  have "n \<le> alloc_size n" using alloc_size_bounds(1) [of n] n(2) by (simp add: word_le_nat_alt)
  then show ?thesis
    using kmalloc_cases [OF wf n] k rest_same [OF kmalloc_rest [OF k(1)]] by (elim disjE exE conjE) force+
qed

lemma krealloc_grown:
  assumes wf: "heap_wf bs xs s" and p: "ptr_ok bs s p cap" and n: "n \<noteq> 0" "unat n < 2 ^ 38" "cap \<le> n"
    and k: "krealloc p n s = Some (Done (q, t))" "q \<noteq> 0"
  shows "grown s p cap n q t"
proof (cases "p = 0")
  case True
  then have km: "kmalloc n s = Some (Done (q, t))" using k by (simp add: krealloc_def)
  obtain bs' xs' where b: "heap_wf bs' xs' t" "q - 32 \<in> live bs' t" "n \<le> hb_size (hdr t (q - 32))" "same_rest s t" "data t = data s"
    using kmalloc_block [OF wf n(1,2) km k(2)] by blast
  then show ?thesis using live_range(1,2) [OF b(1,2)] p True by (simp add: grown_def same_rest_def ptr_ok_def word_le_nat_alt)
next
  case False
  define x where "x = p - 32"
  have x: "x \<in> live bs s" "cap \<le> hb_size (hdr s x)" using p False by (simp_all add: ptr_ok_def x_def)
  note lr = live_range [OF wf x(1) [unfolded x_def], folded x_def]
  have m: "hb_magic (hdr s x) = HEAP_MAGIC"
    using tiles_mem(3) [of _ bs _ "hdr s" x] wf x(1) by (auto simp: heap_wf_def live_def)
  show ?thesis
  proof (cases "n \<le> hb_size (hdr s x)")
    case True
    then have "q = p" "t = s" using k False n(1) m by (simp_all add: krealloc_def ptr_to_block_def x_def Let_def)
    then show ?thesis using lr(1,2) True by (simp add: grown_def same_rest_def word_le_nat_alt)
  next
    case big: False
    then obtain u where u: "kmalloc n s = Some (Done (q, u))"
      "kfree p (u\<lparr>data := memcpy (data u) q p (unat (hb_size (hdr u x)))\<rparr>) = Some (Done t)"
      using k False n(1) m
      by (auto simp: krealloc_def ptr_to_block_def x_def [symmetric] Let_def split: option.splits outcome.splits prod.splits if_splits)
    obtain bs' xs' where b: "heap_wf bs' xs' u" "q - 32 \<in> live bs' u" "q - 32 \<notin> live bs s" "n \<le> hb_size (hdr u (q - 32))"
      "live bs s \<subseteq> live bs' u" "\<forall>b\<in>live bs s. hb_size (hdr u b) = hb_size (hdr s b)" "same_rest s u" "data u = data s"
      using kmalloc_block [OF wf n(1,2) u(1) k(2)] by blast
    define sz where "sz = unat (hb_size (hdr s x))"
    have hx: "unat (hb_size (hdr u x)) = sz" using b(6) x(1) by (simp add: sz_def)
    note qr = live_range [OF b(1,2)]
    have se: "heap_start_addr u = heap_start_addr s" "heap_end_addr u = heap_end_addr s" using b(7) by (simp_all add: same_rest_def)
    have szn: "sz < unat n" using big by (simp add: sz_def word_le_nat_alt)
    have qn: "unat q + unat n \<le> unat (heap_end_addr s)" using qr(2) b(4) se by (simp add: word_le_nat_alt)
    have T: "tiles (unat (heap_start_addr u)) bs' (unat (heap_current u)) (hdr u)" using b(1) by (simp add: heap_wf_def)
    have "q - 32 \<in> set bs'" "x \<in> set bs'" "q - 32 \<noteq> x" using b(2,3,5) x(1) by (auto simp: live_def)
    from tiles_disjoint [OF T this] have apart: "unat p + sz \<le> unat q \<or> unat q + sz \<le> unat p"
      using b(4) lr(3) qr(3) szn hx by (auto simp: word_le_nat_alt)
    have mc: "memcpy (data u) q p sz = moved (data s) q p sz"
      using memcpy_apart [of q sz "heap_end_addr s" p "heap_end_addr s" "data u"] qn szn lr(2) apart b(8) by (simp add: sz_def)
    have t: "same_rest u t" "data t = moved (data s) q p sz"
      using rest_same [OF kfree_rest [OF u(2)]] mc hx by (simp_all add: same_rest_def)
    have "data t (q + of_nat i) = data s (p + of_nat i)" if "i < unat cap" for i
      using that x(2) moved_inside [of i sz] unat_u64_less [of "hb_size (hdr s x)"] by (simp add: t(2) sz_def word_le_nat_alt)
    moreover have "data t a = data s a" if "\<not> in_heap s a" for a
      using that moved_outside(1) [of q sz "heap_end_addr s" a] qn szn qr(1) se
      by (auto simp: t(2) in_heap_def word_le_nat_alt word_less_nat_alt)
    ultimately show ?thesis using t(1) b(7) qr(1) se qn by (simp add: grown_def same_rest_def)
  qed
qed

text \<open>The bytes of a file, and buffers that lie outside of the heap.\<close>

definition file_byte :: "'a ramfs_st_scheme \<Rightarrow> u64 \<Rightarrow> nat \<Rightarrow> u8" where
  "file_byte s f i = data s (r_data (rnode s f) + of_nat i)"

definition off_heap :: "'a heap_st_scheme \<Rightarrow> u64 \<Rightarrow> u64 \<Rightarrow> bool" where
  "off_heap s a n \<longleftrightarrow> unat a + unat n < 2 ^ 64 \<and> (unat a + unat n \<le> unat (heap_start_addr s) \<or> unat (heap_end_addr s) \<le> unat a)"

definition file_ok :: "u64 list \<Rightarrow> 'a ramfs_st_scheme \<Rightarrow> u64 \<Rightarrow> bool" where
  "file_ok bs s f \<longleftrightarrow> ptr_ok bs s (r_data (rnode s f)) (r_data_capacity (rnode s f))
     \<and> n_size (vnode s f) \<le> r_data_capacity (rnode s f) \<and> unat (r_data_capacity (rnode s f)) < 2 ^ 36"

lemma same_rest_sel:
  assumes "same_rest s t"
  shows "vnode t = vnode s" "rnode t = rnode s" "heap_start_addr t = heap_start_addr s" "heap_end_addr t = heap_end_addr s"
  using assms by (cases t; cases s; simp add: same_rest_def)+

lemma off_heap_bytes:
  assumes "off_heap s a n" "i < unat n"
  shows "\<not> in_heap s (a + of_nat i)"
proof -
  have "unat (a + of_nat i) = unat a + i"
    using assms by (subst unat_u64_add) (simp add: off_heap_def unat_of_nat_u64)
  then show ?thesis using assms by (auto simp: off_heap_def in_heap_def word_le_nat_alt word_less_nat_alt)
qed

lemma ramfs_grow_ok:
  assumes wf: "heap_wf bs xs s" and ok: "file_ok bs s f" and e: "e \<noteq> 0" "unat e < 2 ^ 37"
    and g: "ramfs_grow f e s = Some (Done (True, t))"
  shows "vnode t = vnode s \<and> heap_start_addr t = heap_start_addr s \<and> heap_end_addr t = heap_end_addr s
    \<and> unat (heap_start_addr s) < unat (r_data (rnode t f)) \<and> unat (r_data (rnode t f)) + unat e \<le> unat (heap_end_addr s)
    \<and> unat (r_data (rnode t f)) + unat (r_data_capacity (rnode s f)) \<le> unat (heap_end_addr s)
    \<and> (\<forall>i<unat (r_data_capacity (rnode s f)). file_byte t f i = file_byte s f i) \<and> (\<forall>a. \<not> in_heap s a \<longrightarrow> data t a = data s a)"
proof -
  define p where "p = r_data (rnode s f)"
  define cap where "cap = r_data_capacity (rnode s f)"
  have p: "ptr_ok bs s p cap" "unat cap < 2 ^ 36" using ok by (simp_all add: file_ok_def p_def cap_def)
  show ?thesis
  proof (cases "e > cap")
    case False
    then have "t = s" using g by (simp add: ramfs_grow_def cap_def [symmetric] Let_def ret_def)
    moreover have "p \<noteq> 0" using p(1) False e(1) by (metis ptr_ok_def word_neq_0_conv)
    ultimately show ?thesis
      using live_range(1,2) [OF wf, of p] p(1) False
      by (auto simp: ptr_ok_def p_def [symmetric] cap_def [symmetric] word_less_nat_alt word_le_nat_alt)
  next
    case True
    define nc where "nc = (if max e (cap * 2) < 64 then 64 else max e (cap * 2))"
    have c2: "unat (cap * 2) = unat cap * 2" using p(2) by (simp add: unat_word_ariths)
    have nc: "nc \<noteq> 0" "unat nc < 2 ^ 38" "e \<le> nc" "cap \<le> nc" "cap < nc"
      using True e c2 p(2) by (auto simp: nc_def max_def word_less_nat_alt word_le_nat_alt unat_eq_0)
    have "ramfs_grow f e s = andthen (krealloc p nc) (\<lambda>q u. if q = 0 then ret False u
        else ret True (upd_rnode f (\<lambda>r. r\<lparr>r_data := q, r_data_capacity := nc\<rparr>)
          (if nc > cap then u\<lparr>data := memset (data u) (q + cap) 0 (unat (nc - cap))\<rparr> else u))) s"
      using True by (simp only: ramfs_grow_def Let_def cap_def [symmetric] p_def [symmetric] nc_def [symmetric] if_True)
    then obtain q u where k: "krealloc p nc s = Some (Done (q, u))" "q \<noteq> 0"
      and t: "t = upd_rnode f (\<lambda>r. r\<lparr>r_data := q, r_data_capacity := nc\<rparr>) (u\<lparr>data := memset (data u) (q + cap) 0 (unat (nc - cap))\<rparr>)"
      using g nc(5) by (auto simp: andthen_def ret_def split: option.splits outcome.splits prod.splits if_splits)
    have gr: "grown s p cap nc q u" by (rule krealloc_grown [OF wf p(1) nc(1,2,4) k])
    have q: "unat (heap_start_addr s) < unat q" "unat q + unat nc \<le> unat (heap_end_addr s)" using gr by (simp_all add: grown_def)
    have qc: "unat (q + cap) = unat q + unat cap"
      using unat_offset_heap [OF q(2), of "unat cap"] nc(5) by (simp add: word_less_nat_alt)
    have d: "unat (nc - cap) = unat nc - unat cap" using nc(4) by (simp add: unat_sub)
    have zr: "unat (q + cap) + unat (nc - cap) \<le> unat (heap_end_addr s)" using q(2) qc d nc(4) by (simp add: word_le_nat_alt)
    have dt: "data t = filled (data u) (q + cap) 0 (unat (nc - cap))" by (simp add: t memset_filled upd_rnode_def)
    have "data t (q + of_nat i) = data s (p + of_nat i)" if "i < unat cap" for i
    proof -
      have "unat (q + of_nat i) = unat q + i" using that nc(5) unat_offset_heap [OF q(2), of i] by (simp add: word_less_nat_alt)
      then have "data t (q + of_nat i) = data u (q + of_nat i)" unfolding dt using that qc by (intro moved_outside(2) [OF zr]) simp
      then show ?thesis using gr that by (simp add: grown_def)
    qed
    moreover have "data t a = data s a" if "\<not> in_heap s a" for a
    proof -
      have "data t a = data u a" unfolding dt using that q(1) zr qc
        by (intro moved_outside(2) [OF zr]) (auto simp: in_heap_def word_le_nat_alt word_less_nat_alt)
      then show ?thesis using gr that by (simp add: grown_def)
    qed
    moreover have "same_rest s u" using gr by (simp add: grown_def)
    ultimately show ?thesis
      using same_rest_sel [of s u] q nc(3,4) by (simp add: t file_byte_def p_def cap_def upd_rnode_def word_le_nat_alt)
  qed
qed

section \<open>Writing and reading\<close>

lemma sint_small:
  assumes "unat (n :: u64) < 2 ^ 63"
  shows "sint n = int (unat n)"
proof -
  have u: "uint n = int (unat n)" by (rule uint_nat)
  have l: "int (unat n) < int (2 ^ 63)" using assms by (simp only: of_nat_less_iff)
  then have "uint n < 2 ^ 63" by (simp only: u of_nat_power of_nat_numeral)
  moreover have "- (2 ^ 63) \<le> uint n" by (rule order_trans [OF _ uint_ge_0]) simp
  ultimately have "signed_take_bit 63 (uint n) = uint n" by (intro signed_take_bit_int_eq_self)
  moreover have "LENGTH(64) - Suc 0 = 63" by simp
  ultimately show ?thesis by (simp only: sint_uint u)
qed

lemma memcpy_to_heap:
  assumes "unat q + unat n \<le> unat (heap_end_addr s)" "unat (heap_start_addr s) < unat q" "off_heap s a n"
  shows "memcpy m q a (unat n) = moved m q a (unat n)" "memcpy m a q (unat n) = moved m a q (unat n)"
proof -
  have a: "unat a + unat n \<le> unat q \<or> unat q + unat n \<le> unat a" using assms by (auto simp: off_heap_def)
  have l: "unat a + unat n \<le> unat (a + n)"
    using assms(3) by (subst unat_add_lem [THEN iffD1]) (simp_all add: off_heap_def)
  show "memcpy m q a (unat n) = moved m q a (unat n)" by (rule memcpy_apart [OF assms(1) l a])
  show "memcpy m a q (unat n) = moved m a q (unat n)" by (rule memcpy_apart [OF l assms(1)]) (use a in blast)
qed

text \<open>
  C36: a file holds what was written. Let a write of n bytes at an offset return without error, whether or not the
  file's buffer had to grow or move. Then it reports n bytes, the file's size is the larger of its old size and the end of the write,
  the bytes of the file in the written range are the bytes of the caller's buffer, all bytes of the
  old file outside this range are unchanged, and reading the range copies the same bytes into any buffer outside the heap.
\<close>

theorem ramfs_write_read:
  assumes wf: "heap_wf bs xs s" and ok: "file_ok bs s f" and n: "n \<noteq> 0" "unat off + unat n < 2 ^ 37"
    and buf: "off_heap s buf n" and dst: "off_heap s dst n"
    and w: "ramfs_write f off n buf s = Some (Done (r, t))" "r \<noteq> - ENOMEM"
  shows "r = int (unat n) \<and> n_size (vnode t f) = max (n_size (vnode s f)) (off + n)
    \<and> (\<forall>i<unat n. file_byte t f (unat off + i) = data s (buf + of_nat i))
    \<and> (\<forall>i<unat (n_size (vnode s f)). i < unat off \<or> unat off + unat n \<le> i \<longrightarrow> file_byte t f i = file_byte s f i)
    \<and> (\<exists>v. ramfs_read f off n dst t = Some (Done (int (unat n), v)) \<and> (\<forall>i<unat n. data v (dst + of_nat i) = data s (buf + of_nat i)))"
proof -
  have on: "unat (off + n) = unat off + unat n" using n(2) by (subst unat_add_lem [THEN iffD1]) simp_all
  obtain u where g: "ramfs_grow f (off + n) s = Some (Done (True, u))"
    and t: "t = (let s2 = u\<lparr>data := memcpy (data u) (r_data (rnode u f) + off) buf (unat n)\<rparr> in
      if off + n > n_size (vnode s2 f) then upd_node f (\<lambda>x. x\<lparr>n_size := off + n\<rparr>) s2 else s2)" and r: "r = sint n"
    using w by (auto simp: ramfs_write_def andthen_def ret_def Let_def split: option.splits outcome.splits prod.splits if_splits)
  define q where "q = r_data (rnode u f)"
  have e: "off + n \<noteq> 0" "unat (off + n) < 2 ^ 37" using n on by (auto simp: unat_eq_0 [symmetric])
  note gr = ramfs_grow_ok [OF wf ok e g, folded q_def]
  have qo: "unat (q + off) = unat q + unat off"
    using unat_offset_heap [of q "unat (off + n)" "heap_end_addr s" "unat off"] gr on n(1) by (auto simp: unat_eq_0 [symmetric])
  have rg: "unat (q + off) + unat n \<le> unat (heap_end_addr s)" "unat (heap_start_addr s) < unat (q + off)"
    using gr qo on by simp_all
  have dt: "data t = moved (data u) (q + off) buf (unat n)" and qt: "r_data (rnode t f) = q"
    and sz: "n_size (vnode t f) = max (n_size (vnode s f)) (off + n)" and he: "heap_start_addr t = heap_start_addr s" "heap_end_addr t = heap_end_addr s"
    using gr memcpy_to_heap(1) [OF rg buf] by (auto simp: t Let_def q_def upd_node_def max_def)
  have ub: "data u (buf + of_nat i) = data s (buf + of_nat i)" if "i < unat n" for i
    using gr off_heap_bytes [OF buf that] by blast
  have inside: "file_byte t f (unat off + i) = data s (buf + of_nat i)" if "i < unat n" for i
    using moved_inside [OF that unat_u64_less, of "data u" "q + off" buf] ub [OF that]
    by (simp add: file_byte_def qt dt add.assoc)
  have outside: "file_byte t f i = file_byte s f i" if "i < unat (n_size (vnode s f))" "i < unat off \<or> unat off + unat n \<le> i" for i
  proof -
    have "i < unat (r_data_capacity (rnode s f))" using that(1) ok by (simp add: file_ok_def word_le_nat_alt)
    moreover from this have "unat (q + of_nat i) = unat q + i" using gr by (intro unat_offset_heap) auto
    then have "data t (q + of_nat i) = data u (q + of_nat i)"
      unfolding dt using that(2) qo by (intro moved_outside(1) [OF rg(1)]) auto
    ultimately show ?thesis using gr by (simp add: file_byte_def qt q_def [symmetric])
  qed
  have "unat n < 2 ^ 37" by (rule le_less_trans [OF le_add2 n(2)])
  also have "(2 :: nat) ^ 37 < 2 ^ 63" by simp
  finally have sn: "sint n = int (unat n)" by (rule sint_small)
  have le: "off + n \<le> n_size (vnode t f)" by (simp add: sz)
  have "unat off < unat (off + n)" using on n(1) by (auto simp: unat_eq_0 [symmetric])
  then have lt: "off < n_size (vnode t f)" using le by (simp add: word_less_nat_alt word_le_nat_alt)
  have "unat n \<le> unat (n_size (vnode t f) - off)"
    using le lt on by (subst unat_sub) (simp_all add: word_le_nat_alt word_less_nat_alt)
  then have mn: "min n (n_size (vnode t f) - off) = n" by (simp add: min_def word_le_nat_alt)
  have q0: "q \<noteq> 0" using gr by auto
  have "memcpy (data t) dst (q + off) (unat n) = moved (data t) dst (q + off) (unat n)"
    using memcpy_to_heap(2) [of "q + off" n t dst] rg dst he by (simp add: off_heap_def)
  then have rd: "ramfs_read f off n dst t = Some (Done (int (unat n), t\<lparr>data := moved (data t) dst (q + off) (unat n)\<rparr>))"
    using lt [unfolded not_le [symmetric]] q0
    by (simp only: ramfs_read_def ret_def Let_def mn qt sn if_False if_True simp_thms)
  have "moved (data t) dst (q + off) (unat n) (dst + of_nat i) = data s (buf + of_nat i)" if "i < unat n" for i
    using moved_inside [OF that unat_u64_less, of "data t" dst "q + off"] inside [OF that] by (simp add: file_byte_def qt add.assoc)
  with rd have "\<exists>v. ramfs_read f off n dst t = Some (Done (int (unat n), v)) \<and> (\<forall>i<unat n. data v (dst + of_nat i) = data s (buf + of_nat i))"
    by (intro exI [of _ "t\<lparr>data := moved (data t) dst (q + off) (unat n)\<rparr>"] conjI) simp_all
  then show ?thesis using r sn sz inside outside by blast
qed

text \<open>An empty file with a buffer of 64 bytes, and a program's buffers in low memory.\<close>

definition file_demo :: ramfs_st where
  "file_demo = upd_rnode 1 (\<lambda>r. r\<lparr>r_data := 0xFFFFFE0000000020, r_data_capacity := 64\<rparr>)
     (ramfs_demo\<lparr>data := (\<lambda>_. 0)(0x1000 := 0x68, 0x1001 := 0x69)\<rparr>)"

lemma file_demo_ok:
  "heap_wf [0xFFFFFE0000000000, 0xFFFFFE00000003A0] [0xFFFFFE00000003A0] file_demo"
  "file_ok [0xFFFFFE0000000000, 0xFFFFFE00000003A0] file_demo 1"
  "off_heap file_demo 0x1000 2" "off_heap file_demo 0x2000 2"
  by (simp_all add: file_demo_def heap_wf_def live_def demo_defs is_free_def upd_rnode_def file_ok_def ptr_ok_def off_heap_def
      zero_rnode_def zero_node_def)

theorem ramfs_write_read_witness:
  "\<exists>t v. ramfs_write 1 0 2 0x1000 file_demo = Some (Done (2, t)) \<and> ramfs_read 1 0 2 0x2000 t = Some (Done (2, v))
    \<and> data v 0x2000 = 0x68 \<and> data v 0x2001 = 0x69"
proof -
  have d: "data file_demo 0x1000 = 0x68" "data file_demo 0x1001 = 0x69" by (simp_all add: file_demo_def upd_rnode_def)
  have "\<exists>t. ramfs_write 1 0 2 0x1000 file_demo = Some (Done (2, t))"
    by (simp add: ramfs_write_def ramfs_grow_def andthen_def ret_def file_demo_def upd_rnode_def Let_def)
  then obtain t where t: "ramfs_write 1 0 2 0x1000 file_demo = Some (Done (2, t))" ..
  obtain v where v: "ramfs_read 1 0 2 0x2000 t = Some (Done (2, v))"
    "\<forall>i<unat (2 :: u64). data v (0x2000 + of_nat i) = data file_demo (0x1000 + of_nat i)"
    using ramfs_write_read [OF file_demo_ok(1,2) _ _ file_demo_ok(3,4) t] by auto
  have "data v 0x2000 = data file_demo 0x1000" "data v 0x2001 = data file_demo 0x1001"
    using v(2) [rule_format, of 0] v(2) [rule_format, of 1] by simp_all
  then show ?thesis using t v(1) d by auto
qed

end
