(* ===== verification/Sched.thy ===== *)
theory Sched
  imports Vmm Fifo
begin

text \<open>
  Process control blocks (\<open>include/process.h\<close>, \<open>include/kernel/signal.h\<close>) and the round-robin
  scheduler, \<open>scheduler/scheduler.c\<close>. A \<open>process_t*\<close> points into the static process table and is
  modelled by the index of its slot; NULL is None. The state extends that of the memory
  managers, because a switch loads the address space of the next process. What
  \<open>context_switch\<close> does to the CPU registers is not modelled.

  The ready queue is shown to be a bounded queue, removal from the middle to keep the order of the
  rest, and yielding to rotate the processes fairly.
\<close>

section \<open>Process control blocks\<close>

datatype proc_state =
  PROC_STATE_UNUSED | PROC_STATE_CREATED | PROC_STATE_RUNNING | PROC_STATE_READY
  | PROC_STATE_SLEEPING | PROC_STATE_WAITING | PROC_STATE_ZOMBIE | PROC_STATE_DEAD

record cpu_context =
  ctx_r15 :: u64
  ctx_r14 :: u64
  ctx_r13 :: u64
  ctx_r12 :: u64
  ctx_rbx :: u64
  ctx_rbp :: u64
  ctx_rsp :: u64
  ctx_rip :: u64
  ctx_rflags :: u64
  ctx_cs :: u64
  ctx_ss :: u64

text \<open>A handler is an address; 0 is \<open>SIG_DFL\<close> and 1 is \<open>SIG_IGN\<close>.\<close>

record sigaction =
  sa_handler :: u64
  sa_mask :: u32
  sa_flags :: u32

record signal_state =
  actions :: "nat \<Rightarrow> sigaction"
  pending :: u32
  blocked :: u32
  alt_stack :: u64
  alt_stack_sz :: u64

text \<open>An open file is the number of its object; None is NULL.\<close>

record fd_entry =
  fd_file :: "nat option"
  fd_flags :: int
  fd_offset :: u64

record process =
  pid :: u32
  ppid :: u32
  pgid :: u32
  sid :: u32
  pname :: "char list"
  cwd :: "char list"
  state :: proc_state
  exit_code :: int
  address_space :: u64
  kernel_stack :: u64
  kernel_stack_size :: u64
  user_stack :: u64
  heap_start :: u64
  heap_end :: u64
  p_context :: cpu_context
  priority :: int
  time_slice :: u64
  total_ticks :: u64
  sleep_until :: u64
  sigstate :: signal_state
  uid :: u32
  gid :: u32
  euid :: u32
  egid :: u32
  fds :: "nat \<Rightarrow> fd_entry"
  cap_ids :: "nat \<Rightarrow> u32"
  cap_count :: int
  start_tick :: u64
  user_ticks :: u64
  sys_ticks :: u64
  p_next :: "nat option"
  p_prev :: "nat option"
  children :: "nat option"
  sibling :: "nat option"

abbreviation (input) MAX_PROCESSES :: nat where "MAX_PROCESSES \<equiv> 256"
abbreviation (input) MAX_FDS :: nat where "MAX_FDS \<equiv> 64"
abbreviation (input) MAX_READY :: nat where "MAX_READY \<equiv> 256"
abbreviation (input) SCHED_DEFAULT_QUANTUM :: u64 where "SCHED_DEFAULT_QUANTUM \<equiv> 5"

text \<open>An open file object, \<open>file_t\<close>; its node is a number.\<close>

record file_obj =
  f_node :: nat
  f_offset :: u64
  f_flags :: int
  f_refcount :: int

record proc_st = vmm_st +
  process_table :: "nat \<Rightarrow> process"
  process_list :: "nat option"
  current_process :: "nat option"
  next_pid :: u32
  ready_queue :: "nat \<Rightarrow> nat"
  ready_head :: nat
  ready_tail :: nat
  ready_count :: nat
  sched_ticks :: u64
  idle_proc :: "nat option"
  tss_rsp0 :: u64
  files :: "nat \<Rightarrow> file_obj"
  closed_nodes :: "nat list"

definition upd :: "nat \<Rightarrow> (process \<Rightarrow> process) \<Rightarrow> 'a proc_st_scheme \<Rightarrow> 'a proc_st_scheme" where
  "upd p f s = s\<lparr>process_table := (process_table s)(p := f (process_table s p))\<rparr>"

definition set_state :: "nat \<Rightarrow> proc_state \<Rightarrow> 'a proc_st_scheme \<Rightarrow> 'a proc_st_scheme" where
  "set_state p st = upd p (\<lambda>x. x\<lparr>state := st\<rparr>)"

section \<open>The ready queue\<close>

definition ready_queue_empty :: "'a proc_st_scheme \<Rightarrow> bool" where
  "ready_queue_empty s \<longleftrightarrow> ready_count s = 0"

definition ready_enqueue :: "nat \<Rightarrow> 'a proc_st_scheme \<Rightarrow> 'a proc_st_scheme" where
  "ready_enqueue proc s =
     (if ready_count s \<ge> MAX_READY then s
      else set_state proc PROC_STATE_READY
        (s\<lparr>ready_queue := (ready_queue s)(ready_tail s := proc),
           ready_tail := (ready_tail s + 1) mod MAX_READY,
           ready_count := ready_count s + 1\<rparr>))"

definition ready_dequeue :: "'a proc_st_scheme \<Rightarrow> nat option \<times> 'a proc_st_scheme" where
  "ready_dequeue s =
     (if ready_count s = 0 then (idle_proc s, s)
      else (Some (ready_queue s (ready_head s)),
            s\<lparr>ready_head := (ready_head s + 1) mod MAX_READY, ready_count := ready_count s - 1\<rparr>))"

section \<open>Operations\<close>

definition scheduler_add :: "nat option \<Rightarrow> 'a proc_st_scheme \<Rightarrow> 'a proc_st_scheme" where
  "scheduler_add proc s = (case proc of None \<Rightarrow> s | Some p \<Rightarrow> ready_enqueue p s)"

text \<open>The inner loop of \<open>scheduler_remove\<close> moves the entries after position \<open>i\<close> one cell down.\<close>

definition shift_step :: "nat \<Rightarrow> nat \<Rightarrow> (nat \<Rightarrow> nat) \<Rightarrow> (nat \<Rightarrow> nat)" where
  "shift_step h j q = q((h + j) mod MAX_READY := q ((h + j + 1) mod MAX_READY))"

definition shift_down :: "nat \<Rightarrow> nat \<Rightarrow> nat \<Rightarrow> (nat \<Rightarrow> nat) \<Rightarrow> (nat \<Rightarrow> nat)" where
  "shift_down h i c q = fold (shift_step h) [i..<c - 1] q"

definition scheduler_remove :: "nat \<Rightarrow> 'a proc_st_scheme \<Rightarrow> 'a proc_st_scheme" where
  "scheduler_remove proc s =
     (case for_find (\<lambda>i. ready_queue s ((ready_head s + i) mod MAX_READY) = proc) 0 (ready_count s) of
        None \<Rightarrow> s
      | Some i \<Rightarrow>
          s\<lparr>ready_queue := shift_down (ready_head s) i (ready_count s) (ready_queue s),
            ready_tail := (ready_tail s + (MAX_READY - 1)) mod MAX_READY,
            ready_count := ready_count s - 1\<rparr>)"

definition tss_set_kernel_stack :: "u64 \<Rightarrow> 'a proc_st_scheme \<Rightarrow> 'a proc_st_scheme" where
  "tss_set_kernel_stack rsp0 s = s\<lparr>tss_rsp0 := rsp0\<rparr>"

text \<open>Making \<open>next\<close> the running process: the common end of \<open>scheduler_tick\<close> and \<open>scheduler_yield\<close>.\<close>

definition run_next :: "nat \<Rightarrow> 'a proc_st_scheme \<Rightarrow> 'a proc_st_scheme" where
  "run_next nxt s =
     (let s1 = upd nxt (\<lambda>x. x\<lparr>state := PROC_STATE_RUNNING, time_slice := SCHED_DEFAULT_QUANTUM\<rparr>)
                 (s\<lparr>current_process := Some nxt\<rparr>);
          p = process_table s1 nxt
      in tss_set_kernel_stack (kernel_stack p + kernel_stack_size p) s1)"

text \<open>
  Switching away from \<open>old\<close>. A NULL idle process would be dereferenced; None is that fault.
\<close>

definition switch_from :: "nat \<Rightarrow> 'a proc_st_scheme \<Rightarrow> 'a proc_st_scheme option" where
  "switch_from old s =
     (let s1 = (if state (process_table s old) = PROC_STATE_RUNNING
                then ready_enqueue old (set_state old PROC_STATE_READY s) else s);
          (d, s2) = ready_dequeue s1;
          nxt = (case d of None \<Rightarrow> idle_proc s2 | Some p \<Rightarrow> Some p)
      in case nxt of
           None \<Rightarrow> None
         | Some p \<Rightarrow>
             (let s3 = run_next p s2 in
              Some (if address_space (process_table s3 old) \<noteq> address_space (process_table s3 p)
                    then vmm_switch_address_space (address_space (process_table s3 p)) s3 else s3)))"

definition scheduler_yield :: "'a proc_st_scheme \<Rightarrow> 'a proc_st_scheme option" where
  "scheduler_yield s = (case current_process s of None \<Rightarrow> Some s | Some old \<Rightarrow> switch_from old s)"

definition scheduler_tick :: "'a proc_st_scheme \<Rightarrow> 'a proc_st_scheme option" where
  "scheduler_tick s0 =
     (let s = s0\<lparr>sched_ticks := sched_ticks s0 + 1\<rparr> in
      case current_process s of
        None \<Rightarrow>
          (case ready_dequeue s of
             (None, s1) \<Rightarrow> Some s1
           | (Some p, s1) \<Rightarrow>
               (let s2 = run_next p s1
                in Some (vmm_switch_address_space (address_space (process_table s2 p)) s2)))
      | Some c \<Rightarrow>
          if time_slice (process_table s c) > 0
          then (let s1 = upd c (\<lambda>x. x\<lparr>time_slice := time_slice x - 1, total_ticks := total_ticks x + 1\<rparr>) s
                in if time_slice (process_table s1 c) > 0 then Some s1 else switch_from c s1)
          else switch_from c s)"

definition scheduler_block :: "nat option \<Rightarrow> proc_state \<Rightarrow> 'a proc_st_scheme \<Rightarrow> 'a proc_st_scheme" where
  "scheduler_block proc reason s =
     (case proc of None \<Rightarrow> s | Some p \<Rightarrow> scheduler_remove p (set_state p reason s))"

definition scheduler_unblock :: "nat option \<Rightarrow> 'a proc_st_scheme \<Rightarrow> 'a proc_st_scheme" where
  "scheduler_unblock proc s =
     (case proc of
        None \<Rightarrow> s
      | Some p \<Rightarrow>
          if state (process_table s p) = PROC_STATE_READY \<or> state (process_table s p) = PROC_STATE_RUNNING then s
          else ready_enqueue p s)"

definition scheduler_next :: "'a proc_st_scheme \<Rightarrow> nat option" where
  "scheduler_next s = (if ready_queue_empty s then idle_proc s else Some (ready_queue s (ready_head s)))"

definition scheduler_ticks :: "'a proc_st_scheme \<Rightarrow> u64" where
  "scheduler_ticks s = sched_ticks s"

section \<open>The ready queue is a bounded queue\<close>

definition ready_inv :: "'a proc_st_scheme \<Rightarrow> bool" where
  "ready_inv s \<longleftrightarrow> ready_head s < 256 \<and> ready_count s \<le> 256
     \<and> ready_tail s = (ready_head s + ready_count s) mod 256"

definition ready_list :: "'a proc_st_scheme \<Rightarrow> nat list" where
  "ready_list s = ring_list 256 (ready_queue s) (ready_head s) (ready_count s)"

definition ready_take :: "'a proc_st_scheme \<Rightarrow> nat option \<times> 'a proc_st_scheme" where
  "ready_take s = (if ready_count s = 0 then (None, s) else ready_dequeue s)"

lemma upd_sel [simp]:
  "ready_queue (upd p f s) = ready_queue s" "ready_head (upd p f s) = ready_head s"
  "ready_tail (upd p f s) = ready_tail s" "ready_count (upd p f s) = ready_count s"
  "current_process (upd p f s) = current_process s" "idle_proc (upd p f s) = idle_proc s"
  "process_table (upd p f s) = (process_table s)(p := f (process_table s p))"
  "process_list (upd p f s) = process_list s" "next_pid (upd p f s) = next_pid s"
  by (simp_all add: upd_def)

lemma set_state_sel [simp]:
  "ready_queue (set_state p st s) = ready_queue s" "ready_head (set_state p st s) = ready_head s"
  "ready_tail (set_state p st s) = ready_tail s" "ready_count (set_state p st s) = ready_count s"
  "current_process (set_state p st s) = current_process s" "idle_proc (set_state p st s) = idle_proc s"
  "process_table (set_state p st s) = (process_table s)(p := (process_table s p)\<lparr>state := st\<rparr>)"
  "process_list (set_state p st s) = process_list s" "next_pid (set_state p st s) = next_pid s"
  by (simp_all add: set_state_def)

lemma length_ready_list [simp]: "length (ready_list s) = ready_count s"
  by (simp add: ready_list_def)

lemma ready_enqueue_inv: "ready_inv s \<Longrightarrow> ready_inv (ready_enqueue p s)"
  by (auto simp: ready_inv_def ready_enqueue_def mod_Suc_eq)

lemma ready_enqueue_list:
  assumes "ready_inv s" "ready_count s < 256"
  shows "ready_list (ready_enqueue p s) = ready_list s @ [p]"
  using assms ring_list_push [of "ready_count s" 256 "ready_queue s" "ready_head s" p]
  by (simp add: ready_list_def ready_enqueue_def ready_inv_def)

lemma ready_take_cons:
  assumes "ready_inv s" "ready_list s = p # ps"
  shows "fst (ready_take s) = Some p \<and> ready_list (snd (ready_take s)) = ps \<and> ready_inv (snd (ready_take s))"
proof -
  have c: "0 < ready_count s" using assms(2) by (metis length_ready_list length_Cons zero_less_Suc)
  have h: "ready_head s < 256" using assms(1) by (simp add: ready_inv_def)
  have "p # ps = ready_queue s (ready_head s)
      # ring_list 256 (ready_queue s) (Suc (ready_head s) mod 256) (ready_count s - 1)"
    using assms(2) ring_list_pop [OF h c, of "ready_queue s"] by (simp add: ready_list_def)
  moreover obtain k where "ready_count s = Suc k" using c by (cases "ready_count s") auto
  then have "ready_inv (snd (ready_take s))"
    using assms(1) by (auto simp: ready_inv_def ready_take_def ready_dequeue_def mod_simps)
  ultimately show ?thesis using c by (simp add: ready_take_def ready_dequeue_def ready_list_def)
qed

interpretation readyq: bounded_fifo ready_list 256 ready_inv ready_enqueue ready_take
proof unfold_locales
  fix s :: "'a proc_st_scheme" and p :: nat and ps :: "nat list"
  assume inv: "ready_inv s"
  show "length (ready_list s) \<le> 256" using inv by (simp add: ready_inv_def)
  show "ready_inv (ready_enqueue p s)" by (rule ready_enqueue_inv [OF inv])
  show "length (ready_list s) < 256 \<Longrightarrow> ready_list (ready_enqueue p s) = ready_list s @ [p]"
    using ready_enqueue_list [OF inv] by simp
  show "length (ready_list s) = 256 \<Longrightarrow> ready_list (ready_enqueue p s) = ready_list s"
    by (simp add: ready_enqueue_def)
  show "ready_inv (snd (ready_take s))"
    using inv ready_take_cons [OF inv] by (cases "ready_list s") (auto simp: ready_take_def ready_list_def ring_list_def)
  show "ready_list s = [] \<Longrightarrow> fst (ready_take s) = None \<and> ready_list (snd (ready_take s)) = []"
    using length_ready_list [of s] by (simp add: ready_take_def)
  show "ready_list s = p # ps \<Longrightarrow> fst (ready_take s) = Some p \<and> ready_list (snd (ready_take s)) = ps"
    using ready_take_cons [OF inv] by simp
qed

section \<open>Removal\<close>

lemma shift_down_cell:
  assumes "i \<le> m" "m < 256" "k < 256"
  shows "fold (shift_step h) [i..<m] q ((h + k) mod 256)
    = (if i \<le> k \<and> k < m then q ((h + k + 1) mod 256) else q ((h + k) mod (256 :: nat)))"
  using assms
proof (induction m arbitrary: k)
  case (Suc m)
  show ?case
  proof (cases "i = Suc m")
    case False
    let ?q = "fold (shift_step h) [i..<m] q"
    have im: "i \<le> m" using Suc.prems False by simp
    have m: "m < 256" using Suc.prems(2) by simp
    have nxt: "?q ((h + Suc m) mod 256) = q ((h + Suc m) mod 256)"
      by (rule trans [OF Suc.IH [OF im m Suc.prems(2)]]) simp
    have ne: "(h + k) mod 256 \<noteq> (h + m) mod 256" if "k \<noteq> m"
      using that Suc.prems ring_index_inj [of k m 256 h] ring_index_inj [of m k 256 h] by (cases "k < m") auto
    have "?q ((h + k) mod 256) = (if i \<le> k \<and> k < m then q ((h + k + 1) mod 256) else q ((h + k) mod 256))"
      by (rule Suc.IH [OF im m Suc.prems(3)])
    moreover have "fold (shift_step h) [i..<Suc m] q = shift_step h m ?q" using im by simp
    moreover have "shift_step h m ?q ((h + k) mod 256)
        = (if k = m then ?q ((h + Suc m) mod 256) else ?q ((h + k) mod 256))"
      using ne by (simp add: shift_step_def)
    ultimately show ?thesis using im nxt by auto
  qed (use Suc.prems in simp)
qed simp

lemma remove1_first:
  "i < length xs \<Longrightarrow> xs ! i = p \<Longrightarrow> (\<And>j. j < i \<Longrightarrow> xs ! j \<noteq> p) \<Longrightarrow> remove1 p xs = take i xs @ drop (Suc i) xs"
proof (induction xs arbitrary: i)
  case (Cons x xs)
  show ?case
  proof (cases i)
    case 0
    then show ?thesis using Cons.prems by simp
  next
    case (Suc m)
    have "xs ! j \<noteq> p" if "j < m" for j using Cons.prems(3) [of "Suc j"] that Suc by simp
    moreover have "x \<noteq> p" using Cons.prems(3) [of 0] Suc by simp
    ultimately show ?thesis using Cons.IH [of m] Cons.prems(1,2) Suc by simp
  qed
qed simp

lemma scheduler_remove_list:
  assumes inv: "ready_inv s"
  shows "ready_list (scheduler_remove p s) = remove1 p (ready_list s) \<and> ready_inv (scheduler_remove p s)"
proof (cases "for_find (\<lambda>i. ready_queue s ((ready_head s + i) mod 256) = p) 0 (ready_count s)")
  case None
  then have "p \<notin> set (ready_list s)" by (auto simp: for_find_None_iff ready_list_def ring_list_def)
  with None inv show ?thesis by (simp add: scheduler_remove_def remove1_idem)
next
  case (Some i)
  let ?h = "ready_head s" and ?c = "ready_count s" and ?q = "ready_queue s"
  have i: "i < ?c" "?q ((?h + i) mod 256) = p" "\<And>j. j < i \<Longrightarrow> ?q ((?h + j) mod 256) \<noteq> p"
    using Some by (auto simp: for_find_Some_iff)
  have c: "?c \<le> 256" using inv by (simp add: ready_inv_def)
  have "remove1 p (ready_list s) = take i (ready_list s) @ drop (Suc i) (ready_list s)"
    using i by (intro remove1_first) (auto simp: ready_list_def ring_list_nth)
  moreover have "ring_list 256 (shift_down ?h i ?c ?q) ?h (?c - 1) = take i (ready_list s) @ drop (Suc i) (ready_list s)"
  proof (rule nth_equalityI)
    show "length (ring_list 256 (shift_down ?h i ?c ?q) ?h (?c - 1)) = length (take i (ready_list s) @ drop (Suc i) (ready_list s))"
      using i(1) by simp
    fix k assume "k < length (ring_list 256 (shift_down ?h i ?c ?q) ?h (?c - 1))"
    then have k: "k < ?c - 1" by simp
    then show "ring_list 256 (shift_down ?h i ?c ?q) ?h (?c - 1) ! k = (take i (ready_list s) @ drop (Suc i) (ready_list s)) ! k"
      using i(1) c shift_down_cell [of i "?c - 1" k ?h ?q]
      by (auto simp: ring_list_nth shift_down_def nth_append ready_list_def)
  qed
  moreover obtain k where k: "?c = Suc k" using i(1) by (cases ?c) auto
  have "ready_inv (scheduler_remove p s)"
    using inv Some k by (auto simp: ready_inv_def scheduler_remove_def mod_simps)
  ultimately show ?thesis using Some by (simp add: scheduler_remove_def ready_list_def)
qed

section \<open>Properties\<close>

lemma ready_cong:
  assumes "ready_queue s' = ready_queue s" "ready_head s' = ready_head s" "ready_tail s' = ready_tail s"
    "ready_count s' = ready_count s"
  shows "ready_list s' = ready_list s" "ready_inv s' = ready_inv s"
  using assms by (simp_all add: ready_list_def ready_inv_def)

lemma run_next_sel [simp]:
  "ready_queue (run_next p s) = ready_queue s" "ready_head (run_next p s) = ready_head s"
  "ready_tail (run_next p s) = ready_tail s" "ready_count (run_next p s) = ready_count s"
  "current_process (run_next p s) = Some p"
  "process_table (run_next p s) = (process_table s)(p := (process_table s p)\<lparr>state := PROC_STATE_RUNNING, time_slice := 5\<rparr>)"
  by (simp_all add: run_next_def tss_set_kernel_stack_def Let_def)

lemma switch_sel [simp]:
  "ready_queue (vmm_switch_address_space a s) = ready_queue s" "ready_head (vmm_switch_address_space a s) = ready_head s"
  "ready_tail (vmm_switch_address_space a s) = ready_tail s" "ready_count (vmm_switch_address_space a s) = ready_count s"
  "current_process (vmm_switch_address_space a s) = current_process s"
  "process_table (vmm_switch_address_space a s) = process_table s"
  by (simp_all add: vmm_switch_address_space_def)

text \<open>One yield of a running process rotates the running process and the queue behind it.\<close>

definition running :: "nat \<Rightarrow> 'a proc_st_scheme \<Rightarrow> bool" where
  "running c s \<longleftrightarrow> current_process s = Some c \<and> state (process_table s c) = PROC_STATE_RUNNING"

lemma yield_rotates:
  assumes inv: "ready_inv s" and run: "running c s" and room: "ready_count s < 256"
  shows "\<exists>s' c'. scheduler_yield s = Some s' \<and> ready_inv s' \<and> running c' s'
    \<and> c' # ready_list s' = rotate1 (c # ready_list s)"
proof -
  define s1 where "s1 = ready_enqueue c (set_state c PROC_STATE_READY s)"
  have i0: "ready_inv (set_state c PROC_STATE_READY s)" "ready_list (set_state c PROC_STATE_READY s) = ready_list s"
    using inv ready_cong [of "set_state c PROC_STATE_READY s" s] by simp_all
  have l1: "ready_list s1 = ready_list s @ [c]" and i1: "ready_inv s1"
    using ready_enqueue_list [OF i0(1)] ready_enqueue_inv [OF i0(1)] i0(2) room by (simp_all add: s1_def)
  obtain p ps where ps: "ready_list s @ [c] = p # ps" by (cases "ready_list s") auto
  have c1: "ready_count s1 \<noteq> 0" using l1 length_ready_list [of s1] by auto
  obtain s2 where d: "ready_dequeue s1 = (Some p, s2)" "ready_list s2 = ps" "ready_inv s2"
    using ready_take_cons [OF i1, of p ps] l1 ps c1 unfolding ready_take_def
    by (cases "ready_dequeue s1") auto
  let ?s3 = "run_next p s2"
  define s' where "s' = (if address_space (process_table ?s3 c) \<noteq> address_space (process_table ?s3 p)
      then vmm_switch_address_space (address_space (process_table ?s3 p)) ?s3 else ?s3)"
  have "scheduler_yield s = Some s'"
    using run d unfolding scheduler_yield_def switch_from_def running_def s1_def [symmetric]
    by (simp add: Let_def s'_def s1_def [symmetric])
  moreover have "ready_list s' = ps" "ready_inv s'" using d(2,3) ready_cong [of s' s2] by (simp_all add: s'_def)
  moreover have "running p s'" by (simp add: s'_def running_def)
  ultimately show ?thesis using ps by (intro exI [of _ s'] exI [of _ p]) simp
qed

primrec yields :: "nat \<Rightarrow> 'a proc_st_scheme \<Rightarrow> 'a proc_st_scheme option" where
  "yields 0 s = Some s"
| "yields (Suc n) s = Option.bind (scheduler_yield s) (yields n)"

text \<open>
  C26: round robin. While the running process yields and no other event changes the queue, the
  running process and the ready queue rotate: after \<open>n\<close> yields they are the original cycle rotated \<open>n\<close> times,
  so every ready process runs in turn, in the order of the queue, and none is lost.
\<close>

theorem sched_round_robin:
  assumes "ready_inv s" "running c s" "ready_count s < 256"
  shows "\<exists>s' c'. yields n s = Some s' \<and> ready_inv s' \<and> running c' s' \<and> c' # ready_list s' = rotate n (c # ready_list s)"
  using assms
proof (induction n arbitrary: s c)
  case 0
  then show ?case by auto
next
  case (Suc n)
  obtain t d where t: "scheduler_yield s = Some t" "ready_inv t" "running d t"
    "d # ready_list t = rotate1 (c # ready_list s)"
    using yield_rotates [OF Suc.prems] by blast
  have "length (d # ready_list t) = length (c # ready_list s)" using t(4) by (metis length_rotate1)
  then have "ready_count t < 256" using Suc.prems(3) by simp
  from Suc.IH [OF t(2,3) this] t(1,4) show ?case by (auto simp: rotate1_rotate_swap)
qed

definition proc0 :: process where
  "proc0 = \<lparr>pid = 0, ppid = 0, pgid = 0, sid = 0, pname = [], cwd = [], state = PROC_STATE_UNUSED, exit_code = 0,
     address_space = 0, kernel_stack = 0, kernel_stack_size = 0, user_stack = 0, heap_start = 0, heap_end = 0,
     p_context = \<lparr>ctx_r15 = 0, ctx_r14 = 0, ctx_r13 = 0, ctx_r12 = 0, ctx_rbx = 0, ctx_rbp = 0, ctx_rsp = 0,
       ctx_rip = 0, ctx_rflags = 0, ctx_cs = 0, ctx_ss = 0\<rparr>,
     priority = 0, time_slice = 0, total_ticks = 0, sleep_until = 0,
     sigstate = \<lparr>actions = \<lambda>_. \<lparr>sa_handler = 0, sa_mask = 0, sa_flags = 0\<rparr>, pending = 0, blocked = 0,
       alt_stack = 0, alt_stack_sz = 0\<rparr>,
     uid = 0, gid = 0, euid = 0, egid = 0, fds = \<lambda>_. \<lparr>fd_file = None, fd_flags = 0, fd_offset = 0\<rparr>,
     cap_ids = \<lambda>_. 0, cap_count = 0, start_tick = 0, user_ticks = 0, sys_ticks = 0,
     p_next = None, p_prev = None, children = None, sibling = None\<rparr>"

text \<open>Process 0 runs; processes 1 and 2 are ready.\<close>

definition sched_demo :: proc_st where
  "sched_demo = vmm_st.extend vmm_demo \<lparr>process_table = (\<lambda>_. proc0)(0 := proc0\<lparr>state := PROC_STATE_RUNNING\<rparr>),
     process_list = None, current_process = Some 0, next_pid = 1,
     ready_queue = (\<lambda>_. 0)(0 := 1, 1 := 2), ready_head = 0, ready_tail = 2, ready_count = 2, sched_ticks = 0,
     idle_proc = None, tss_rsp0 = 0, files = \<lambda>_. \<lparr>f_node = 0, f_offset = 0, f_flags = 0, f_refcount = 0\<rparr>,
     closed_nodes = []\<rparr>"

lemma sched_demo_sel:
  "ready_inv sched_demo" "running 0 sched_demo" "ready_count sched_demo = 2" "ready_list sched_demo = [1, 2]"
  by (simp_all add: sched_demo_def vmm_st.defs vmm_demo_def ready_inv_def running_def ready_list_def ring_list_def
      upt_rec)

theorem sched_round_robin_witness:
  "\<exists>s'. yields 4 sched_demo = Some s' \<and> running 1 s' \<and> ready_list s' = [2, 0]"
  using sched_round_robin [OF sched_demo_sel(1,2), of 4] sched_demo_sel(3,4) by (auto simp: numeral_eq_Suc)

text \<open>
  C27: blocking a process sets its state to the reason, takes its first entry out of the
  ready queue and keeps the order of the others; no other process and no other part of the queue changes.
\<close>

theorem sched_block_spec:
  assumes "ready_inv s"
  shows "ready_list (scheduler_block (Some p) reason s) = remove1 p (ready_list s)
    \<and> ready_inv (scheduler_block (Some p) reason s)
    \<and> process_table (scheduler_block (Some p) reason s) = (process_table s)(p := (process_table s p)\<lparr>state := reason\<rparr>)"
proof -
  have "ready_inv (set_state p reason s)" "ready_list (set_state p reason s) = ready_list s"
    using assms ready_cong [of "set_state p reason s" s] by simp_all
  moreover have "process_table (scheduler_remove q t) = process_table t" for q and t :: "'a proc_st_scheme"
    by (simp add: scheduler_remove_def split: option.splits)
  ultimately show ?thesis
    using scheduler_remove_list [of "set_state p reason s" p] by (simp add: scheduler_block_def)
qed

theorem sched_block_spec_witness:
  "ready_list (scheduler_block (Some 1) PROC_STATE_WAITING sched_demo) = [2]"
  using sched_block_spec [OF sched_demo_sel(1)] by (simp add: sched_demo_sel)

end
