(* ===== verification/Process.thy ===== *)
theory Process
  imports Sched
begin

text \<open>
  Processes, \<open>process/process.c\<close>, with the timer driver \<open>drivers/timer.c\<close> that drives the scheduler,
  \<open>scheduler_init\<close>, \<open>signal_init_process\<close> and the page fault handler of \<open>memory/vmm.c\<close>, which all
  work on process control blocks. Closing a file tells the file system layer to close its
  node; these calls are recorded in \<open>closed_nodes\<close>, and the file system's own state is not
  part of this component. \<open>process_exec\<close> is not modelled.

  The lemmas show how the process list is walked, that an exited process can never be collected by
  its parent, and that a process killed while it waits in the ready queue is run again.
\<close>

section \<open>The process table and list\<close>

abbreviation (input) KSTACK_SIZE :: u64 where "KSTACK_SIZE \<equiv> 0x4000"
abbreviation (input) GDT_KERNEL_CODE :: u64 where "GDT_KERNEL_CODE \<equiv> 0x08"
abbreviation (input) GDT_KERNEL_DATA :: u64 where "GDT_KERNEL_DATA \<equiv> 0x10"

definition alloc_process_slot :: "'a proc_st_scheme \<Rightarrow> nat option \<times> 'a proc_st_scheme" where
  "alloc_process_slot s =
     (case for_find (\<lambda>i. state (process_table s i) = PROC_STATE_UNUSED) 0 MAX_PROCESSES of
        None \<Rightarrow> (None, s)
      | Some i \<Rightarrow> (Some i, upd i (\<lambda>_. proc0) s))"

definition process_list_add :: "nat \<Rightarrow> 'a proc_st_scheme \<Rightarrow> 'a proc_st_scheme" where
  "process_list_add proc s =
     (let s1 = upd proc (\<lambda>x. x\<lparr>p_next := process_list s, p_prev := None\<rparr>) s;
          s2 = (case process_list s of None \<Rightarrow> s1 | Some h \<Rightarrow> upd h (\<lambda>x. x\<lparr>p_prev := Some proc\<rparr>) s1)
      in s2\<lparr>process_list := Some proc\<rparr>)"

definition process_list_remove :: "nat \<Rightarrow> 'a proc_st_scheme \<Rightarrow> 'a proc_st_scheme" where
  "process_list_remove proc s =
     (let s1 = (case p_prev (process_table s proc) of
                  Some pv \<Rightarrow> upd pv (\<lambda>x. x\<lparr>p_next := p_next (process_table s proc)\<rparr>) s
                | None \<Rightarrow> s\<lparr>process_list := p_next (process_table s proc)\<rparr>);
          s2 = (case p_next (process_table s1 proc) of
                  Some nx \<Rightarrow> upd nx (\<lambda>x. x\<lparr>p_prev := p_prev (process_table s1 proc)\<rparr>) s1
                | None \<Rightarrow> s1)
      in upd proc (\<lambda>x. x\<lparr>p_next := None, p_prev := None\<rparr>) s2)"

text \<open>
  A loop over the process list visits the slots that the \<open>next\<close> pointers lead to. A list without
  a cycle has at most as many entries as the table has slots, which is the bound of the walk.
\<close>

primrec list_walk :: "nat \<Rightarrow> nat option \<Rightarrow> 'a proc_st_scheme \<Rightarrow> nat list" where
  "list_walk 0 p s = []"
| "list_walk (Suc n) p s =
     (case p of None \<Rightarrow> [] | Some i \<Rightarrow> i # list_walk n (p_next (process_table s i)) s)"

definition proc_slots :: "'a proc_st_scheme \<Rightarrow> nat list" where
  "proc_slots s = list_walk MAX_PROCESSES (process_list s) s"

definition process_get_by_pid :: "u32 \<Rightarrow> 'a proc_st_scheme \<Rightarrow> nat option" where
  "process_get_by_pid p s = find (\<lambda>i. pid (process_table s i) = p) (proc_slots s)"

definition process_init :: "'a proc_st_scheme \<Rightarrow> 'a proc_st_scheme" where
  "process_init s = s\<lparr>process_table := \<lambda>_. proc0, process_list := None, current_process := None, next_pid := 1\<rparr>"

section \<open>Creation\<close>

text \<open>The stack top receives the entry function and \<open>kernel_thread_entry\<close>, an assembly routine.\<close>

definition setup_kernel_stack :: "u64 \<Rightarrow> nat \<Rightarrow> u64 \<Rightarrow> 'a proc_st_scheme \<Rightarrow> u64 \<times> 'a proc_st_scheme" where
  "setup_kernel_stack thread_entry proc entry s =
     (let (stack_phys, s1) = pmm_alloc_frames (unat (KSTACK_SIZE div 0x1000)) s in
      if stack_phys = 0 then (0, s1)
      else
        (let stack_virt = PHYS_TO_VIRT stack_phys;
             s2 = upd proc (\<lambda>x. x\<lparr>kernel_stack := stack_virt, kernel_stack_size := KSTACK_SIZE\<rparr>) s1;
             top = stack_virt + KSTACK_SIZE - 0x1000;
             s3 = set_entry top 511 entry s2
         in (stack_virt + KSTACK_SIZE - 16, set_entry top 510 thread_entry s3)))"

definition signal_init_process :: "nat \<Rightarrow> 'a proc_st_scheme \<Rightarrow> 'a proc_st_scheme" where
  "signal_init_process proc =
     upd proc (\<lambda>x. x\<lparr>sigstate := \<lparr>actions = (\<lambda>_. \<lparr>sa_handler = 0, sa_mask = 0, sa_flags = 0\<rparr>)
         (16 := \<lparr>sa_handler = 1, sa_mask = 0, sa_flags = 0\<rparr>,
          17 := \<lparr>sa_handler = 1, sa_mask = 0, sa_flags = 0\<rparr>,
          27 := \<lparr>sa_handler = 1, sa_mask = 0, sa_flags = 0\<rparr>),
         pending = 0, blocked = 0, alt_stack = 0, alt_stack_sz = 0\<rparr>\<rparr>)"

definition process_create ::
  "u64 \<Rightarrow> char list \<Rightarrow> u64 \<Rightarrow> bool \<Rightarrow> 'a proc_st_scheme \<Rightarrow> nat option \<times> 'a proc_st_scheme" where
  "process_create thread_entry nm entry kern s =
     (case alloc_process_slot s of
        (None, s0) \<Rightarrow> (None, s0)
      | (Some proc, s0) \<Rightarrow>
          (let np = next_pid s0;
               s1 = upd proc (\<lambda>x. x\<lparr>pid := np,
                      ppid := (case current_process s0 of None \<Rightarrow> 0 | Some c \<Rightarrow> pid (process_table s0 c)),
                      pgid := np, sid := np, state := PROC_STATE_CREATED, pname := take 63 nm, cwd := ''/'',
                      priority := 5, time_slice := SCHED_DEFAULT_QUANTUM, total_ticks := 0, sleep_until := 0,
                      exit_code := 0, uid := 0, euid := 0, gid := 0, egid := 0, start_tick := tick_count s0,
                      user_ticks := 0, sys_ticks := 0, children := None, sibling := None\<rparr>)
                    (s0\<lparr>next_pid := np + 1\<rparr>);
               s2 = signal_init_process proc s1;
               (asp, s3) = (if kern then (kernel_pml4 s2, s2) else vmm_create_address_space s2);
               s4 = upd proc (\<lambda>x. x\<lparr>address_space := asp\<rparr>) s3
           in if \<not> kern \<and> asp = 0 then (None, set_state proc PROC_STATE_UNUSED s4)
              else
                (let (rsp, s5) = setup_kernel_stack thread_entry proc entry s4 in
                 if rsp = 0 then
                   (let s6 = (if \<not> kern then vmm_destroy_address_space (address_space (process_table s5 proc)) s5 else s5)
                    in (None, set_state proc PROC_STATE_UNUSED s6))
                 else
                   (let s6 = upd proc (\<lambda>x. x\<lparr>p_context := \<lparr>ctx_r15 = 0, ctx_r14 = 0, ctx_r13 = 0, ctx_r12 = 0,
                               ctx_rbx = 0, ctx_rbp = 0, ctx_rsp = rsp, ctx_rip = thread_entry, ctx_rflags = 0x202,
                               ctx_cs = GDT_KERNEL_CODE, ctx_ss = GDT_KERNEL_DATA\<rparr>\<rparr>) s5
                    in (Some proc, process_list_add proc s6)))))"

definition process_fork :: "nat \<Rightarrow> 'a proc_st_scheme \<Rightarrow> nat option \<times> 'a proc_st_scheme" where
  "process_fork parent s =
     (case alloc_process_slot s of
        (None, s0) \<Rightarrow> (None, s0)
      | (Some child, s0) \<Rightarrow>
          (let s1 = upd child (\<lambda>_. (process_table s0 parent)\<lparr>pid := next_pid s0, ppid := pid (process_table s0 parent),
                      state := PROC_STATE_CREATED, p_next := None, p_prev := None, total_ticks := 0,
                      time_slice := SCHED_DEFAULT_QUANTUM\<rparr>) (s0\<lparr>next_pid := next_pid s0 + 1\<rparr>);
               (asp, s2) = vmm_clone_address_space (address_space (process_table s1 parent)) s1;
               s3 = upd child (\<lambda>x. x\<lparr>address_space := asp\<rparr>) s2
           in if asp = 0 then (None, set_state child PROC_STATE_UNUSED s3)
              else
                (let (kstack, s4) = pmm_alloc_frames (unat (KSTACK_SIZE div 0x1000)) s3 in
                 if kstack = 0 then (None, set_state child PROC_STATE_UNUSED (vmm_destroy_address_space asp s4))
                 else (Some child, process_list_add child
                        (upd child (\<lambda>x. x\<lparr>kernel_stack := PHYS_TO_VIRT kstack, kernel_stack_size := KSTACK_SIZE\<rparr>) s4)))))"

section \<open>File descriptors\<close>

definition fd_alloc :: "nat \<Rightarrow> 'a proc_st_scheme \<Rightarrow> int" where
  "fd_alloc proc s =
     (case for_find (\<lambda>i. fd_file (fds (process_table s proc) i) = None) 0 MAX_FDS of None \<Rightarrow> -1 | Some i \<Rightarrow> int i)"

definition fd_close :: "nat \<Rightarrow> int \<Rightarrow> 'a proc_st_scheme \<Rightarrow> 'a proc_st_scheme" where
  "fd_close proc fd s =
     (if fd < 0 \<or> fd \<ge> int MAX_FDS then s
      else
        (case fd_file (fds (process_table s proc) (nat fd)) of
           None \<Rightarrow> s
         | Some f \<Rightarrow>
             upd proc (\<lambda>x. x\<lparr>fds := (fds x)(nat fd := \<lparr>fd_file = None, fd_flags = 0, fd_offset = 0\<rparr>)\<rparr>)
               (s\<lparr>closed_nodes := closed_nodes s @ [f_node (files s f)]\<rparr>)))"

definition share_fd :: "nat \<Rightarrow> nat \<Rightarrow> nat \<Rightarrow> 'a proc_st_scheme \<Rightarrow> 'a proc_st_scheme" where
  "share_fd proc old new s =
     (let s1 = upd proc (\<lambda>x. x\<lparr>fds := (fds x)(new := fds x old)\<rparr>) s in
      case fd_file (fds (process_table s1 proc) new) of
        None \<Rightarrow> s1
      | Some f \<Rightarrow> s1\<lparr>files := (files s1)(f := (files s1 f)\<lparr>f_refcount := f_refcount (files s1 f) + 1\<rparr>)\<rparr>)"

definition fd_dup :: "nat option \<Rightarrow> int \<Rightarrow> 'a proc_st_scheme \<Rightarrow> int \<times> 'a proc_st_scheme" where
  "fd_dup proc fd s =
     (case proc of
        None \<Rightarrow> (-9, s)
      | Some p \<Rightarrow>
          if fd < 0 \<or> fd \<ge> int MAX_FDS then (-9, s)
          else if fd_file (fds (process_table s p) (nat fd)) = None then (-9, s)
          else (let new_fd = fd_alloc p s in
                if new_fd < 0 then (-24, s) else (new_fd, share_fd p (nat fd) (nat new_fd) s)))"

definition fd_dup2 :: "nat option \<Rightarrow> int \<Rightarrow> int \<Rightarrow> 'a proc_st_scheme \<Rightarrow> int \<times> 'a proc_st_scheme" where
  "fd_dup2 proc oldfd newfd s =
     (case proc of
        None \<Rightarrow> (-9, s)
      | Some p \<Rightarrow>
          if oldfd < 0 \<or> oldfd \<ge> int MAX_FDS \<or> newfd < 0 \<or> newfd \<ge> int MAX_FDS then (-9, s)
          else if fd_file (fds (process_table s p) (nat oldfd)) = None then (-9, s)
          else if oldfd = newfd then (newfd, s)
          else
            (let s1 = (if fd_file (fds (process_table s p) (nat newfd)) \<noteq> None then fd_close p newfd s else s)
             in (newfd, share_fd p (nat oldfd) (nat newfd) s1)))"

section \<open>Termination\<close>

definition close_fds :: "nat \<Rightarrow> 'a proc_st_scheme \<Rightarrow> 'a proc_st_scheme" where
  "close_fds proc s =
     fold (\<lambda>i t. if fd_file (fds (process_table t proc) i) \<noteq> None then fd_close proc (int i) t else t) [0..<MAX_FDS] s"

definition free_space :: "nat \<Rightarrow> 'a proc_st_scheme \<Rightarrow> 'a proc_st_scheme" where
  "free_space proc s =
     (if address_space (process_table s proc) \<noteq> kernel_pml4 s
      then upd proc (\<lambda>x. x\<lparr>address_space := 0\<rparr>) (vmm_destroy_address_space (address_space (process_table s proc)) s)
      else s)"

definition free_kstack :: "nat \<Rightarrow> 'a proc_st_scheme \<Rightarrow> 'a proc_st_scheme" where
  "free_kstack proc s =
     (let p = process_table s proc in
      if kernel_stack p \<noteq> 0
      then upd proc (\<lambda>x. x\<lparr>kernel_stack := 0\<rparr>)
        (pmm_free_frames (virt_to_phys_kernel (kernel_stack p)) (unat (kernel_stack_size p div 0x1000)) s)
      else s)"

definition process_exit :: "nat option \<Rightarrow> int \<Rightarrow> 'a proc_st_scheme \<Rightarrow> 'a proc_st_scheme option" where
  "process_exit proc code s =
     (case proc of
        None \<Rightarrow> Some s
      | Some p \<Rightarrow>
          if state (process_table s p) = PROC_STATE_DEAD then Some s
          else
            (let s1 = upd p (\<lambda>x. x\<lparr>exit_code := code, state := PROC_STATE_ZOMBIE\<rparr>) s;
                 s2 = close_fds p s1;
                 s3 = free_space p s2;
                 s4 = free_kstack p s3;
                 s5 = set_state p PROC_STATE_DEAD s4;
                 s6 = process_list_remove p s5;
                 s7 = set_state p PROC_STATE_UNUSED s6
             in if current_process s7 = Some p then scheduler_yield (s7\<lparr>current_process := None\<rparr>) else Some s7))"

text \<open>
  \<open>process_waitpid\<close>: at most 10000 passes over the list. Between two passes the caller yields and other
  processes run; \<open>env n\<close> is what has happened when the \<open>n\<close>-th yield returns. The result
  is the return value, the exit status if one was stored, and the state.
\<close>

definition zombie_child :: "u32 \<Rightarrow> u32 \<Rightarrow> 'a proc_st_scheme \<Rightarrow> nat option" where
  "zombie_child p me s =
     find (\<lambda>i. (p = -1 \<or> pid (process_table s i) = p) \<and> ppid (process_table s i) = me
        \<and> state (process_table s i) = PROC_STATE_ZOMBIE) (proc_slots s)"

primrec waitpid_loop ::
  "nat \<Rightarrow> (nat \<Rightarrow> 'a proc_st_scheme \<Rightarrow> 'a proc_st_scheme) \<Rightarrow> u32 \<Rightarrow> 'a proc_st_scheme \<Rightarrow> u32 \<times> int option \<times> 'a proc_st_scheme" where
  "waitpid_loop 0 env p s = (- 10, None, s)"
| "waitpid_loop (Suc n) env p s =
     (let me = (case current_process s of None \<Rightarrow> 0 | Some c \<Rightarrow> pid (process_table s c)) in
      case zombie_child p me s of
        Some i \<Rightarrow> (pid (process_table s i), Some (exit_code (process_table s i)), set_state i PROC_STATE_DEAD s)
      | None \<Rightarrow> waitpid_loop n env p (env n s))"

definition process_waitpid ::
  "(nat \<Rightarrow> 'a proc_st_scheme \<Rightarrow> 'a proc_st_scheme) \<Rightarrow> u32 \<Rightarrow> 'a proc_st_scheme \<Rightarrow> u32 \<times> int option \<times> 'a proc_st_scheme" where
  "process_waitpid env p s =
     (if current_process s = None then (- 3, None, s) else waitpid_loop 10000 env p s)"

section \<open>Credentials\<close>

definition process_is_root :: "nat option \<Rightarrow> 'a proc_st_scheme \<Rightarrow> bool" where
  "process_is_root proc s = (case proc of None \<Rightarrow> False | Some p \<Rightarrow> euid (process_table s p) = 0)"

definition process_setuid :: "nat option \<Rightarrow> u32 \<Rightarrow> 'a proc_st_scheme \<Rightarrow> int \<times> 'a proc_st_scheme" where
  "process_setuid proc u s =
     (case proc of
        None \<Rightarrow> (-3, s)
      | Some p \<Rightarrow>
          if euid (process_table s p) \<noteq> 0 \<and> u \<noteq> uid (process_table s p) then (-1, s)
          else (0, upd p (\<lambda>x. x\<lparr>uid := u, euid := u\<rparr>) s))"

definition process_setgid :: "nat option \<Rightarrow> u32 \<Rightarrow> 'a proc_st_scheme \<Rightarrow> int \<times> 'a proc_st_scheme" where
  "process_setgid proc g s =
     (case proc of
        None \<Rightarrow> (-3, s)
      | Some p \<Rightarrow>
          if egid (process_table s p) \<noteq> 0 \<and> g \<noteq> gid (process_table s p) then (-1, s)
          else (0, upd p (\<lambda>x. x\<lparr>gid := g, egid := g\<rparr>) s))"

section \<open>Timer and scheduler start\<close>

text \<open>The registered callback, if any, is a parameter. The list is walked with the pointers it has then.\<close>

definition wake_sleeper :: "nat \<Rightarrow> 'a proc_st_scheme \<Rightarrow> 'a proc_st_scheme" where
  "wake_sleeper i s =
     (if state (process_table s i) = PROC_STATE_SLEEPING \<and> sleep_until (process_table s i) \<le> tick_count s
      then scheduler_unblock (Some i) s else s)"

definition timer_irq_handler ::
  "(u64 \<Rightarrow> 'a proc_st_scheme \<Rightarrow> 'a proc_st_scheme) option \<Rightarrow> 'a proc_st_scheme \<Rightarrow> 'a proc_st_scheme option" where
  "timer_irq_handler callback s =
     (let s1 = s\<lparr>tick_count := tick_count s + 1\<rparr>;
          s2 = (case callback of None \<Rightarrow> s1 | Some cb \<Rightarrow> cb (tick_count s1) s1);
          s3 = fold wake_sleeper (proc_slots s2) s2
      in scheduler_tick s3)"

definition timer_divisor :: "u32 \<Rightarrow> u32" where
  "timer_divisor freq =
     (let d = 1193182 div freq; d1 = (if d > 0xFFFF then 0xFFFF else d) in if d1 < 1 then 1 else d1)"

text \<open>The bytes \<open>timer_init\<close> writes, with the ports they go to.\<close>

definition timer_init :: "u32 \<Rightarrow> (nat \<times> u8) list" where
  "timer_init freq =
     (let d = timer_divisor freq in
      [(0x43, 0x36), (0x40, ucast (d AND 0xFF)), (0x40, ucast (drop_bit 8 d AND 0xFF))])"

definition timer_ticks :: "'a kbase_scheme \<Rightarrow> u64" where
  "timer_ticks s = tick_count s"

definition timer_ms :: "'a kbase_scheme \<Rightarrow> u64" where
  "timer_ms s = tick_count s * 1000 div 100"

text \<open>Without a current process the source waits in a loop that changes nothing itself.\<close>

definition timer_sleep_ticks :: "u64 \<Rightarrow> 'a proc_st_scheme \<Rightarrow> 'a proc_st_scheme option" where
  "timer_sleep_ticks ticks s =
     (case current_process s of
        None \<Rightarrow> Some s
      | Some c \<Rightarrow>
          (let s1 = upd c (\<lambda>x. x\<lparr>sleep_until := tick_count s + ticks\<rparr>) s
           in scheduler_yield (scheduler_block (current_process s1) PROC_STATE_SLEEPING s1)))"

definition timer_sleep_ms :: "u64 \<Rightarrow> 'a proc_st_scheme \<Rightarrow> 'a proc_st_scheme option" where
  "timer_sleep_ms ms s =
     (let ticks = (ms * 100) div 1000 in timer_sleep_ticks (if ticks = 0 then 1 else ticks) s)"

definition process_sleep :: "u64 \<Rightarrow> 'a proc_st_scheme \<Rightarrow> 'a proc_st_scheme option" where
  "process_sleep ticks = timer_sleep_ticks ticks"

definition process_wake :: "nat option \<Rightarrow> 'a proc_st_scheme \<Rightarrow> 'a proc_st_scheme" where
  "process_wake proc = scheduler_unblock proc"

text \<open>None is the kernel panic.\<close>

definition scheduler_init :: "u64 \<Rightarrow> u64 \<Rightarrow> 'a proc_st_scheme \<Rightarrow> 'a proc_st_scheme option" where
  "scheduler_init thread_entry idle_entry s =
     (let s1 = s\<lparr>ready_head := 0, ready_tail := 0, ready_count := 0, sched_ticks := 0\<rparr>;
          (p, s2) = process_create thread_entry ''idle'' idle_entry True s1
      in case p of None \<Rightarrow> None | Some i \<Rightarrow> Some (s2\<lparr>idle_proc := Some i\<rparr>))"

text \<open>\<open>vmm_handle_page_fault\<close>; None is the kernel panic on a fault in kernel mode. A hit on a
  guard page changes only the message before the process is killed.\<close>

definition vmm_handle_page_fault :: "u64 \<Rightarrow> u64 \<Rightarrow> 'a proc_st_scheme \<Rightarrow> 'a proc_st_scheme option" where
  "vmm_handle_page_fault fault_addr error_code s =
     (let present = has error_code 1; write_fault = has error_code 2; user_fault = has error_code 4 in
      if user_fault then
        (let pml4 = vmm_current_address_space s;
             (r, s1) = (if write_fault \<and> present \<and> pml4 \<noteq> 0 then cow_break pml4 fault_addr s else (Cow_none, s))
         in if r = Cow_resolved then Some s1
            else (case current_process s1 of None \<Rightarrow> Some s1 | Some c \<Rightarrow> process_exit (Some c) (-1) s1))
      else None)"

section \<open>What termination leaves alone\<close>

definition queue_of :: "'a proc_st_scheme \<Rightarrow> (nat \<Rightarrow> nat) \<times> nat \<times> nat \<times> nat \<times> nat option \<times> nat option" where
  "queue_of s = (ready_queue s, ready_head s, ready_tail s, ready_count s, current_process s, idle_proc s)"

definition states :: "'a proc_st_scheme \<Rightarrow> nat \<Rightarrow> proc_state" where
  "states s = (\<lambda>i. state (process_table s i))"

lemma fold_keeps: "(\<And>x t. g (f x t) = g t) \<Longrightarrow> g (fold f xs s) = g s"
  by (induction xs arbitrary: s) simp_all

lemma pmm_free_keeps [frame]:
  "process_table (pmm_free_frame a s) = process_table s" "queue_of (pmm_free_frame a s) = queue_of s"
  "kernel_pml4 (pmm_free_frame a s) = kernel_pml4 s" "process_list (pmm_free_frame a s) = process_list s"
  by (simp_all add: pmm_free_frame_def pmm_set_ref_def pmm_used_dec_def pmm_clear_bit_def queue_of_def Let_def)

lemma pmm_frees_keeps [frame]:
  "process_table (pmm_free_frames a n s) = process_table s" "queue_of (pmm_free_frames a n s) = queue_of s"
  unfolding pmm_free_frames_def by (rule fold_keeps, simp add: frame)+

lemma destroy_pt_keeps [frame]:
  "process_table (destroy_pt e s) = process_table s" "queue_of (destroy_pt e s) = queue_of s"
  unfolding destroy_pt_def Let_def frame by (rule fold_keeps, simp add: frame)+

lemma destroy_pd_keeps [frame]:
  "process_table (destroy_pd e s) = process_table s" "queue_of (destroy_pd e s) = queue_of s"
  unfolding destroy_pd_def by (rule fold_keeps, simp add: frame Let_def)+

lemma destroy_pdpt_keeps [frame]:
  "process_table (destroy_pdpt e s) = process_table s" "queue_of (destroy_pdpt e s) = queue_of s"
  unfolding destroy_pdpt_def by (rule fold_keeps, simp add: frame Let_def)+

lemma vmm_destroy_keeps [frame]:
  "process_table (vmm_destroy_address_space e s) = process_table s"
  "queue_of (vmm_destroy_address_space e s) = queue_of s"
  unfolding vmm_destroy_address_space_def Let_def frame by (rule fold_keeps, simp add: frame Let_def)+

lemma upd_keeps [frame]:
  "queue_of (upd p f s) = queue_of s" "queue_of (set_state p st s) = queue_of s"
  "states (set_state p st s) = (states s)(p := st)"
  by (auto simp: queue_of_def states_def)

lemma states_upd [frame]: "(\<And>x. state (f x) = state x) \<Longrightarrow> states (upd p f s) = states s"
  by (auto simp: states_def)

lemma fd_close_keeps [frame]: "states (fd_close p fd s) = states s" "queue_of (fd_close p fd s) = queue_of s"
  by (auto simp: fd_close_def states_def queue_of_def split: option.splits)

lemma close_fds_keeps [frame]: "states (close_fds p s) = states s" "queue_of (close_fds p s) = queue_of s"
  unfolding close_fds_def by (rule fold_keeps, simp add: frame)+

lemma free_space_keeps [frame]: "states (free_space p s) = states s" "queue_of (free_space p s) = queue_of s"
proof -
  have "states (vmm_destroy_address_space a t) = states t" for a and t :: "'a proc_st_scheme"
    by (simp add: states_def frame)
  then show "states (free_space p s) = states s" by (simp add: free_space_def frame)
qed (simp add: free_space_def frame)

lemma free_kstack_keeps [frame]:
  "states (free_kstack p s) = states s" "queue_of (free_kstack p s) = queue_of s"
  "kernel_stack (process_table (free_kstack p s) p) = 0"
proof -
  have "states (pmm_free_frames a n t) = states t" for a n and t :: "'a proc_st_scheme" by (simp add: states_def frame)
  then show "states (free_kstack p s) = states s" by (simp add: free_kstack_def frame Let_def)
qed (simp_all add: free_kstack_def frame Let_def)

lemma list_remove_keeps [frame]:
  "states (process_list_remove p s) = states s" "queue_of (process_list_remove p s) = queue_of s"
  "kernel_stack (process_table (process_list_remove p s) i) = kernel_stack (process_table s i)"
  by (auto simp: process_list_remove_def states_def queue_of_def Let_def split: option.splits)

text \<open>The whole of \<open>process_exit\<close>, seen from the queue and from the states.\<close>

lemma process_exit_effect:
  assumes "states s p \<noteq> PROC_STATE_DEAD"
  shows "\<exists>s'. process_exit (Some p) code s = Some s' \<and> states s' = (states s)(p := PROC_STATE_UNUSED)
    \<and> queue_of s' = queue_of (s\<lparr>current_process := (if current_process s = Some p then None else current_process s)\<rparr>)
    \<and> kernel_stack (process_table s' p) = 0"
proof -
  define s4 where "s4 = free_kstack p (free_space p (close_fds p (upd p (\<lambda>x. x\<lparr>exit_code := code, state := PROC_STATE_ZOMBIE\<rparr>) s)))"
  define s7 where "s7 = set_state p PROC_STATE_UNUSED (process_list_remove p (set_state p PROC_STATE_DEAD s4))"
  have "states (upd p (\<lambda>x. x\<lparr>exit_code := code, state := PROC_STATE_ZOMBIE\<rparr>) s) = (states s)(p := PROC_STATE_ZOMBIE)"
    by (auto simp: states_def)
  then have st: "states s7 = (states s)(p := PROC_STATE_UNUSED)" by (simp add: s7_def s4_def frame)
  have q: "queue_of s7 = queue_of s" by (simp add: s7_def s4_def frame)
  have k: "kernel_stack (process_table s7 p) = 0"
    by (simp add: s7_def s4_def free_kstack_keeps list_remove_keeps)
  have "process_exit (Some p) code s
      = (if current_process s7 = Some p then scheduler_yield (s7\<lparr>current_process := None\<rparr>) else Some s7)"
    using assms by (simp add: process_exit_def Let_def s7_def s4_def states_def)
  then show ?thesis using st q k by (auto simp: scheduler_yield_def states_def queue_of_def)
qed

section \<open>Properties\<close>

definition no_zombie :: "'a proc_st_scheme \<Rightarrow> bool" where
  "no_zombie s \<longleftrightarrow> (\<forall>i. states s i \<noteq> PROC_STATE_ZOMBIE)"

lemma no_zombie_exit:
  assumes "no_zombie s" "process_exit q code s = Some s'"
  shows "no_zombie s'"
proof (cases "q = None \<or> states s (the q) = PROC_STATE_DEAD")
  case True
  then show ?thesis using assms by (cases q) (auto simp: process_exit_def states_def)
next
  case False
  then obtain p where "q = Some p" "states s p \<noteq> PROC_STATE_DEAD" by auto
  then show ?thesis using process_exit_effect [of s p code] assms by (auto simp: no_zombie_def)
qed

lemma waitpid_loop_none:
  assumes "no_zombie s" "\<And>n t. no_zombie t \<Longrightarrow> no_zombie (env n t)"
  shows "fst (waitpid_loop n env p s) = - 10"
  using assms(1)
proof (induction n arbitrary: s)
  case (Suc n)
  then have "zombie_child p me s = None" for me
    by (auto simp: zombie_child_def find_None_iff no_zombie_def states_def)
  with Suc assms(2) show ?case by (simp add: Let_def del: waitpid_loop.simps(1)) 
qed simp



text \<open>
  A process that is killed while it is first in the ready queue stays there. After
  \<open>process_exit\<close> its kernel stack is gone, yet the next yield makes it the running process again.
\<close>

theorem process_exit_stays_ready:
  assumes "ready_inv s" "running c s" "ready_list s = q # qs" "ready_count s < 256" "q \<noteq> c"
    "states s q \<noteq> PROC_STATE_DEAD"
  shows "\<exists>s' s''. process_exit (Some q) code s = Some s' \<and> states s' q = PROC_STATE_UNUSED
    \<and> kernel_stack (process_table s' q) = 0 \<and> scheduler_yield s' = Some s'' \<and> running q s''"
proof -
  obtain s' where s': "process_exit (Some q) code s = Some s'" "states s' = (states s)(q := PROC_STATE_UNUSED)"
    "queue_of s' = queue_of s" "kernel_stack (process_table s' q) = 0"
    using process_exit_effect [OF assms(6), of code] assms(2,5) by (auto simp: running_def queue_of_def)
  have "ready_list s' = ready_list s" "ready_inv s'" "ready_count s' = ready_count s" "current_process s' = Some c"
    using ready_cong [of s' s] s'(3) assms(1,2) by (simp_all add: queue_of_def running_def)
  moreover have "state (process_table s' c) = PROC_STATE_RUNNING"
    using fun_cong [OF s'(2), of c] assms(2,5) by (simp add: states_def running_def)
  ultimately obtain s'' c' where "scheduler_yield s' = Some s''" "running c' s''"
    "c' # ready_list s'' = rotate1 (c # ready_list s)"
    using yield_rotates [of s' c] assms(4) by (auto simp: running_def)
  then show ?thesis using s' assms(3) by auto
qed

theorem process_exit_stays_ready_witness:
  "\<exists>s' s''. process_exit (Some 1) 0 sched_demo = Some s' \<and> scheduler_yield s' = Some s'' \<and> running 1 s''"
proof -
  have "states sched_demo 1 \<noteq> PROC_STATE_DEAD"
    by (simp add: states_def sched_demo_def vmm_st.defs vmm_demo_def proc0_def)
  then show ?thesis
    using process_exit_stays_ready [OF sched_demo_sel(1,2,4), of 0] sched_demo_sel(3) by auto
qed

end
