(* ===== verification/Signal.thy ===== *)
theory Signal
  imports Process
begin

text \<open>
  The signal subsystem, \<open>kernel/signal.c\<close>: sending, the signal mask, delivery with a frame on the user
  stack, and the return from a handler. User memory is a store of bytes; the registers of the
  interrupted context are a record with the fields of \<open>cpu_registers_t\<close>. Where the source
  yields inside a loop, a parameter gives the state in which the process runs again.

  The lemmas show that words written to memory are read back, that returning from a handler restores
  the interrupted registers, that SIGKILL can be neither blocked nor caught and ends the
  process, and that a handled signal stays blocked after its handler has returned.
\<close>

section \<open>Words in memory\<close>

definition byte_of :: "u64 \<Rightarrow> nat \<Rightarrow> u8" where
  "byte_of v k = ucast (drop_bit (8 * k) v)"

definition store_u64 :: "u64 \<Rightarrow> u64 \<Rightarrow> (u64 \<Rightarrow> u8) \<Rightarrow> (u64 \<Rightarrow> u8)" where
  "store_u64 a v m = (\<lambda>x. if x - a < 8 then byte_of v (unat (x - a)) else m x)"

definition load_u64 :: "u64 \<Rightarrow> (u64 \<Rightarrow> u8) \<Rightarrow> u64" where
  "load_u64 a m = fold (\<lambda>k acc. acc OR push_bit (8 * k) (ucast (m (a + of_nat k)))) [0..<8] 0"

primrec store_words :: "u64 \<Rightarrow> u64 list \<Rightarrow> (u64 \<Rightarrow> u8) \<Rightarrow> (u64 \<Rightarrow> u8)" where
  "store_words a [] m = m"
| "store_words a (w # ws) m = store_words (a + 8) ws (store_u64 a w m)"

primrec load_words :: "nat \<Rightarrow> u64 \<Rightarrow> (u64 \<Rightarrow> u8) \<Rightarrow> u64 list" where
  "load_words 0 a m = []"
| "load_words (Suc n) a m = load_u64 a m # load_words n (a + 8) m"

primrec store_bytes :: "u64 \<Rightarrow> u8 list \<Rightarrow> (u64 \<Rightarrow> u8) \<Rightarrow> (u64 \<Rightarrow> u8)" where
  "store_bytes a [] m = m"
| "store_bytes a (b # bs) m = store_bytes (a + 1) bs (m(a := b))"

section \<open>Signal sets\<close>

definition sigbit :: "nat \<Rightarrow> u32" where
  "sigbit sig = push_bit (sig - 1) 1"

definition sigismember :: "u32 \<Rightarrow> nat \<Rightarrow> bool" where
  "sigismember sset sig \<longleftrightarrow> sset AND sigbit sig \<noteq> 0"

definition sigaddset :: "nat \<Rightarrow> u32 \<Rightarrow> u32" where
  "sigaddset sig sset = sset OR sigbit sig"

definition sigdelset :: "nat \<Rightarrow> u32 \<Rightarrow> u32" where
  "sigdelset sig sset = sset AND NOT (sigbit sig)"

abbreviation (input) NSIG :: nat where "NSIG \<equiv> 32"
abbreviation (input) SIGKILL :: nat where "SIGKILL \<equiv> 9"
abbreviation (input) SIGCONT :: nat where "SIGCONT \<equiv> 18"
abbreviation (input) SIGSTOP :: nat where "SIGSTOP \<equiv> 19"
abbreviation (input) SIG_DFL :: u64 where "SIG_DFL \<equiv> 0"
abbreviation (input) SIG_IGN :: u64 where "SIG_IGN \<equiv> 1"
abbreviation (input) SA_NODEFER :: u32 where "SA_NODEFER \<equiv> 0x40"
abbreviation (input) SA_RESETHAND :: u32 where "SA_RESETHAND \<equiv> 0x80"

definition sig_valid :: "int \<Rightarrow> bool" where
  "sig_valid sig \<longleftrightarrow> 1 \<le> sig \<and> sig < int NSIG"

definition upd_sig :: "nat \<Rightarrow> (signal_state \<Rightarrow> signal_state) \<Rightarrow> 'a proc_st_scheme \<Rightarrow> 'a proc_st_scheme" where
  "upd_sig p f = upd p (\<lambda>x. x\<lparr>sigstate := f (sigstate x)\<rparr>)"

definition sig_of :: "'a proc_st_scheme \<Rightarrow> nat \<Rightarrow> signal_state" where
  "sig_of s p = sigstate (process_table s p)"

section \<open>Sending\<close>

definition signal_send_proc :: "nat option \<Rightarrow> int \<Rightarrow> 'a proc_st_scheme \<Rightarrow> int \<times> 'a proc_st_scheme" where
  "signal_send_proc proc sig s =
     (case proc of
        None \<Rightarrow> (-22, s)
      | Some p \<Rightarrow>
          if \<not> sig_valid sig then (-22, s)
          else
            (let n = nat sig; s1 = upd_sig p (\<lambda>ss. ss\<lparr>pending := sigaddset n (pending ss)\<rparr>) s in
             if n \<noteq> SIGKILL \<and> n \<noteq> SIGSTOP \<and> sigismember (blocked (sig_of s p)) n then (0, s1)
             else if state (process_table s1 p) = PROC_STATE_SLEEPING \<or> state (process_table s1 p) = PROC_STATE_WAITING
             then (0, process_wake (Some p) s1)
             else (0, s1)))"

definition signal_send :: "u32 \<Rightarrow> int \<Rightarrow> 'a proc_st_scheme \<Rightarrow> int \<times> 'a proc_st_scheme" where
  "signal_send p sig s =
     (if \<not> sig_valid sig then (-22, s)
      else (case process_get_by_pid p s of None \<Rightarrow> (-3, s) | Some i \<Rightarrow> signal_send_proc (Some i) sig s))"

definition process_kill :: "u32 \<Rightarrow> int \<Rightarrow> 'a proc_st_scheme \<Rightarrow> 'a proc_st_scheme" where
  "process_kill p sig s =
     (case process_get_by_pid p s of None \<Rightarrow> s | Some i \<Rightarrow> snd (signal_send_proc (Some i) sig s))"

section \<open>Signal frames\<close>

record cpu_registers =
  r_r15 :: u64
  r_r14 :: u64
  r_r13 :: u64
  r_r12 :: u64
  r_r11 :: u64
  r_r10 :: u64
  r_r9 :: u64
  r_r8 :: u64
  r_rbp :: u64
  r_rdi :: u64
  r_rsi :: u64
  r_rdx :: u64
  r_rcx :: u64
  r_rbx :: u64
  r_rax :: u64
  r_int_no :: u64
  r_err_code :: u64
  r_rip :: u64
  r_cs :: u64
  r_rflags :: u64
  r_rsp :: u64
  r_ss :: u64

definition sigreturn_tramp :: "u8 list" where
  "sigreturn_tramp = [0xB8, 52, 0x00, 0x00, 0x00, 0xCD, 0x80]"

text \<open>The 19 words of \<open>sig_frame_t\<close>, in the order of its fields.\<close>

definition frame_words :: "cpu_registers \<Rightarrow> nat \<Rightarrow> u64 list" where
  "frame_words r sig =
     [r_r15 r, r_r14 r, r_r13 r, r_r12 r, r_r11 r, r_r10 r, r_r9 r, r_r8 r, r_rbp r, r_rdi r, r_rsi r, r_rdx r,
      r_rcx r, r_rbx r, r_rax r, r_rflags r, r_rip r, r_rsp r, of_nat sig]"

definition signal_setup_frame ::
  "u64 \<Rightarrow> nat \<Rightarrow> cpu_registers \<Rightarrow> (u64 \<Rightarrow> u8) \<Rightarrow> cpu_registers \<times> (u64 \<Rightarrow> u8)" where
  "signal_setup_frame handler sig regs m =
     (let tramp_addr = r_rsp regs - 7;
          m1 = store_bytes tramp_addr sigreturn_tramp m;
          sf = (tramp_addr AND NOT 0xF) - 152;
          m2 = store_words sf (frame_words regs sig) m1;
          usp = sf - 8;
          m3 = store_u64 usp tramp_addr m2
      in (regs\<lparr>r_rsp := usp, r_rip := handler, r_rdi := of_nat sig, r_rsi := 0, r_rdx := 0\<rparr>, m3))"

definition signal_do_sigreturn :: "cpu_registers option \<Rightarrow> (u64 \<Rightarrow> u8) \<Rightarrow> cpu_registers option" where
  "signal_do_sigreturn regs m =
     map_option (\<lambda>r. let w = load_words 18 (r_rsp r) m in
       r\<lparr>r_r15 := w ! 0, r_r14 := w ! 1, r_r13 := w ! 2, r_r12 := w ! 3, r_r11 := w ! 4, r_r10 := w ! 5,
         r_r9 := w ! 6, r_r8 := w ! 7, r_rbp := w ! 8, r_rdi := w ! 9, r_rsi := w ! 10, r_rdx := w ! 11,
         r_rcx := w ! 12, r_rbx := w ! 13, r_rax := w ! 14, r_rflags := w ! 15, r_rip := w ! 16,
         r_rsp := w ! 17\<rparr>) regs"

section \<open>Delivery\<close>

definition exit_and_yield :: "nat \<Rightarrow> nat \<Rightarrow> 'a proc_st_scheme \<Rightarrow> 'a proc_st_scheme option" where
  "exit_and_yield p sig s = Option.bind (process_exit (Some p) (- int sig) s) scheduler_yield"

definition stop_and_yield :: "nat \<Rightarrow> 'a proc_st_scheme \<Rightarrow> 'a proc_st_scheme option" where
  "stop_and_yield p s = scheduler_yield (set_state p PROC_STATE_WAITING s)"

definition signal_default_action :: "nat \<Rightarrow> nat \<Rightarrow> 'a proc_st_scheme \<Rightarrow> 'a proc_st_scheme option" where
  "signal_default_action p sig s =
     (if sig \<in> {1, 2, 3, 4, 5, 6, 7, 8, 11, 13, 14, 15, 10, 12} then exit_and_yield p sig s
      else if sig \<in> {19, 20, 21, 22} then stop_and_yield p s
      else if sig \<in> {17, 18, 28} then Some s
      else exit_and_yield p sig s)"

text \<open>
  The loop over the signals from 1. The result is the register frame, the user memory and the
  state; None is a fault in the scheduler. \<open>resume\<close> gives the state in which a stopped process continues.
\<close>

primrec deliver_loop ::
  "nat list \<Rightarrow> ('a proc_st_scheme \<Rightarrow> 'a proc_st_scheme) \<Rightarrow> u32 \<Rightarrow> nat \<Rightarrow> cpu_registers option \<Rightarrow> (u64 \<Rightarrow> u8) \<Rightarrow>
     'a proc_st_scheme \<Rightarrow> (cpu_registers option \<times> (u64 \<Rightarrow> u8) \<times> 'a proc_st_scheme) option" where
  "deliver_loop [] resume deliverable p regs m s = Some (regs, m, s)"
| "deliver_loop (sig # sigs) resume deliverable p regs m s =
     (if \<not> sigismember deliverable sig then deliver_loop sigs resume deliverable p regs m s
      else
        (let s1 = upd_sig p (\<lambda>ss. ss\<lparr>pending := sigdelset sig (pending ss)\<rparr>) s;
             act = actions (sig_of s1 p) (sig - 1);
             handler = sa_handler act
         in if handler = SIG_IGN then deliver_loop sigs resume deliverable p regs m s1
            else if sig = SIGKILL then map_option (\<lambda>t. (regs, m, t)) (exit_and_yield p sig s1)
            else if sig = SIGSTOP then
              (case stop_and_yield p s1 of
                 None \<Rightarrow> None
               | Some t \<Rightarrow> deliver_loop sigs resume deliverable p regs m (resume t))
            else if sig = SIGCONT then
              deliver_loop sigs resume deliverable p regs m
                (if state (process_table s1 p) = PROC_STATE_WAITING
                 then scheduler_add (Some p) (set_state p PROC_STATE_READY s1) else s1)
            else if handler = SIG_DFL then map_option (\<lambda>t. (regs, m, t)) (signal_default_action p sig s1)
            else
              (case regs of
                 Some r \<Rightarrow>
                   if r_cs r AND 3 = 3 then
                     (let s2 = (if sa_flags act AND SA_NODEFER = 0
                                then upd_sig p (\<lambda>ss. ss\<lparr>blocked := sigaddset sig (blocked ss)\<rparr>) s1 else s1);
                          s3 = (if sa_flags act AND SA_RESETHAND \<noteq> 0
                                then upd_sig p (\<lambda>ss. ss\<lparr>actions := (actions ss)(sig - 1 := act\<lparr>sa_handler := SIG_DFL\<rparr>)\<rparr>) s2
                                else s2);
                          (r', m') = signal_setup_frame handler sig r m
                      in Some (Some r', m', s3))
                   else map_option (\<lambda>t. (regs, m, t)) (signal_default_action p sig s1)
               | None \<Rightarrow> map_option (\<lambda>t. (regs, m, t)) (signal_default_action p sig s1))))"

definition signal_deliver_pending ::
  "('a proc_st_scheme \<Rightarrow> 'a proc_st_scheme) \<Rightarrow> nat option \<Rightarrow> cpu_registers option \<Rightarrow> (u64 \<Rightarrow> u8) \<Rightarrow>
     'a proc_st_scheme \<Rightarrow> (cpu_registers option \<times> (u64 \<Rightarrow> u8) \<times> 'a proc_st_scheme) option" where
  "signal_deliver_pending resume proc regs m s =
     (case proc of
        None \<Rightarrow> Some (regs, m, s)
      | Some p \<Rightarrow>
          (let deliverable = pending (sig_of s p) AND NOT (blocked (sig_of s p)) in
           if deliverable = 0 then Some (regs, m, s)
           else deliver_loop [1..<NSIG] resume deliverable p regs m s))"

definition signal_has_pending :: "nat option \<Rightarrow> 'a proc_st_scheme \<Rightarrow> bool" where
  "signal_has_pending proc s =
     (case proc of None \<Rightarrow> False | Some p \<Rightarrow> pending (sig_of s p) AND NOT (blocked (sig_of s p)) \<noteq> 0)"

section \<open>Dispositions and the mask\<close>

text \<open>The results are the return value, the old value that is stored if asked for, and the state.\<close>

definition signal_do_sigaction ::
  "int \<Rightarrow> sigaction option \<Rightarrow> 'a proc_st_scheme \<Rightarrow> int \<times> sigaction option \<times> 'a proc_st_scheme" where
  "signal_do_sigaction sig act s =
     (if \<not> sig_valid sig then (-22, None, s)
      else if sig = int SIGKILL \<or> sig = int SIGSTOP then (-22, None, s)
      else
        (case current_process s of
           None \<Rightarrow> (-3, None, s)
         | Some p \<Rightarrow>
             (0, Some (actions (sig_of s p) (nat sig - 1)),
              case act of
                None \<Rightarrow> s
              | Some a \<Rightarrow> upd_sig p (\<lambda>ss. ss\<lparr>actions := (actions ss)(nat sig - 1 := a)\<rparr>) s)))"

definition signal_do_sigprocmask ::
  "int \<Rightarrow> u32 option \<Rightarrow> 'a proc_st_scheme \<Rightarrow> int \<times> u32 option \<times> 'a proc_st_scheme" where
  "signal_do_sigprocmask how sset s =
     (case current_process s of
        None \<Rightarrow> (-3, None, s)
      | Some p \<Rightarrow>
          (let old = blocked (sig_of s p) in
           case sset of
             None \<Rightarrow> (0, Some old, s)
           | Some st \<Rightarrow>
               (let m = sigdelset SIGSTOP (sigdelset SIGKILL st) in
                if how = 0 then (0, Some old, upd_sig p (\<lambda>ss. ss\<lparr>blocked := blocked ss OR m\<rparr>) s)
                else if how = 1 then (0, Some old, upd_sig p (\<lambda>ss. ss\<lparr>blocked := blocked ss AND NOT m\<rparr>) s)
                else if how = 2 then (0, Some old, upd_sig p (\<lambda>ss. ss\<lparr>blocked := m\<rparr>) s)
                else (-22, Some old, s))))"

definition signal_raise_fault ::
  "('a proc_st_scheme \<Rightarrow> 'a proc_st_scheme) \<Rightarrow> int \<Rightarrow> 'a proc_st_scheme \<Rightarrow> 'a proc_st_scheme option" where
  "signal_raise_fault resume sig s =
     (case current_process s of
        None \<Rightarrow> Some s
      | Some p \<Rightarrow>
          (let s1 = snd (signal_send_proc (Some p) sig s)
           in map_option (\<lambda>(r, m, t). t) (signal_deliver_pending resume (Some p) None (\<lambda>_. 0) s1)))"

section \<open>Reading back what was written\<close>

lemma bit_byte_of: "n < 8 \<Longrightarrow> bit (byte_of v k) n \<longleftrightarrow> bit v (8 * k + n)"
  by (simp add: byte_of_def bit_ucast_iff bit_drop_bit_eq)

lemma bit_placed:
  "bit (push_bit (8 * k) (ucast (b :: u8) :: u64)) n \<longleftrightarrow> n < 64 \<and> n div 8 = k \<and> bit b (n mod 8)"
proof (cases "n div 8 = k")
  case True
  then have "8 * k \<le> n" "n - 8 * k = n mod 8" by (auto simp: minus_mult_div_eq_mod)
  then show ?thesis using True by (auto simp: bit_push_bit_iff bit_ucast_iff)
next
  case False
  have "\<not> (8 * k \<le> n \<and> n - 8 * k < 8)"
  proof
    assume "8 * k \<le> n \<and> n - 8 * k < 8"
    then have "n = (n - 8 * k) + 8 * k" "n - 8 * k < 8" by auto
    then have "n div 8 = k" by (metis add.commute div_less div_mult_self2 mult.commute add_0 zero_neq_numeral)
    with False show False by simp
  qed
  then show ?thesis using False by (auto simp: bit_push_bit_iff bit_ucast_iff dest: bit_imp_le_length)
qed

lemma bit_load_u64:
  assumes "n < 64"
  shows "bit (load_u64 a m) n \<longleftrightarrow> bit (m (a + of_nat (n div 8))) (n mod 8)"
proof -
  have "bit (fold (\<lambda>k acc. acc OR push_bit (8 * k) (ucast (m (a + of_nat k)))) [0..<j] (0 :: u64)) n
      \<longleftrightarrow> n div 8 < j \<and> bit (m (a + of_nat (n div 8))) (n mod 8)" for j
    using assms by (induction j) (auto simp: bit_or_iff bit_placed less_Suc_eq)
  then show ?thesis using assms unfolding load_u64_def by (simp add: div_less_iff_less_mult)
qed

lemma load_store_u64: "load_u64 a (store_u64 a v m) = v"
proof (rule bit_word_eqI)
  fix n assume n: "n < LENGTH(64)"
  then have d: "n div 8 < 8" by (simp add: div_less_iff_less_mult)
  then have u: "unat (of_nat (n div 8) :: u64) = n div 8" by (intro unat_of_nat_u64) simp
  with d have "(of_nat (n div 8) :: u64) < 8" by (simp add: word_less_nat_alt)
  then show "bit (load_u64 a (store_u64 a v m)) n = bit v n"
    using n u by (simp add: bit_load_u64 store_u64_def bit_byte_of)
qed

lemma load_u64_cong: "(\<And>k. k < 8 \<Longrightarrow> m' (a + of_nat k) = m (a + of_nat k)) \<Longrightarrow> load_u64 a m' = load_u64 a m"
  unfolding load_u64_def by (intro fold_cong) auto

text \<open>Bytes outside a written range are not changed; offsets count modulo the address space.\<close>

lemma store_u64_outside: "8 \<le> unat (x - a) \<Longrightarrow> store_u64 a v m x = m x"
  by (simp add: store_u64_def word_less_nat_alt)

lemma unat_offset: "k \<le> unat (x - a) \<Longrightarrow> unat (x - (a + of_nat k :: u64)) = unat (x - a) - k"
proof -
  assume k: "k \<le> unat (x - a)"
  then have u: "unat (of_nat k :: u64) = k" using unat_u64_less [of "x - a"] by (intro unat_of_nat_u64) simp
  then have "(of_nat k :: u64) \<le> x - a" using k by (simp add: word_le_nat_alt)
  then show ?thesis using u by (simp add: diff_diff_eq [symmetric] unat_sub)
qed

lemma store_words_outside: "8 * length ws \<le> unat (x - a) \<Longrightarrow> store_words a ws m x = m x"
proof (induction ws arbitrary: a m)
  case (Cons w ws)
  have "unat (x - (a + 8)) = unat (x - a) - 8" using unat_offset [of 8 x a] Cons.prems by simp
  then show ?case using Cons by (simp add: store_u64_outside)
qed simp

lemma unat_below: "k < j \<Longrightarrow> j < 2 ^ 64 \<Longrightarrow> unat (of_nat k - of_nat j :: u64) = 2 ^ 64 - (j - k)"
proof -
  assume kj: "k < j" "j < 2 ^ 64"
  have "(of_nat k - of_nat j :: u64) = of_nat (2 ^ 64 - (j - k))"
  proof -
    have "(of_nat (2 ^ 64 - (j - k)) :: u64) = of_nat (2 ^ 64) - of_nat (j - k)" using kj by (intro of_nat_diff) simp
    also have "\<dots> = - of_nat (j - k)" by simp
    also have "\<dots> = of_nat k - of_nat j" using kj by (simp add: of_nat_diff)
    finally show ?thesis by simp
  qed
  then have "unat (of_nat k - of_nat j :: u64) = unat (of_nat (2 ^ 64 - (j - k)) :: u64)" by (rule arg_cong)
  also have "\<dots> = 2 ^ 64 - (j - k)" using kj by (intro unat_of_nat_u64) simp
  finally show ?thesis .
qed

lemma load_store_words:
  "8 * length ws < 2 ^ 63 \<Longrightarrow> load_words (length ws) a (store_words a ws m) = ws"
proof (induction ws arbitrary: a m)
  case (Cons w ws)
  have "load_u64 a (store_words (a + 8) ws (store_u64 a w m)) = load_u64 a (store_u64 a w m)"
  proof (rule load_u64_cong)
    fix k :: nat assume k: "k < 8"
    then have "unat (a + of_nat k - (a + 8)) = 2 ^ 64 - (8 - k)" using unat_below [of k 8] by simp
    then show "store_words (a + 8) ws (store_u64 a w m) (a + of_nat k) = store_u64 a w m (a + of_nat k)"
      using Cons.prems by (intro store_words_outside) simp
  qed
  then show ?case using Cons by (simp add: load_store_u64)
qed simp

lemma load_words_length [simp]: "length (load_words n a m) = n"
  by (induction n arbitrary: a) simp_all

lemma load_words_cong:
  "(\<And>k. k < 8 * n \<Longrightarrow> m' (a + of_nat k) = m (a + of_nat k)) \<Longrightarrow> load_words n a m' = load_words n a m"
proof (induction n arbitrary: a)
  case (Suc n)
  have "load_u64 a m' = load_u64 a m" using Suc.prems by (intro load_u64_cong) simp
  moreover have "m' (a + 8 + of_nat k) = m (a + 8 + of_nat k)" if "k < 8 * n" for k
    using Suc.prems [of "8 + k"] that by (simp add: add.assoc)
  ultimately show ?case using Suc.IH [of "a + 8"] by simp
qed simp

lemma store_bytes_inside:
  "k < length bs \<Longrightarrow> length bs < 2 ^ 63 \<Longrightarrow> store_bytes a bs m (a + of_nat k) = bs ! k"
proof (induction bs arbitrary: a m k)
  case (Cons b bs)
  have out: "length bs < unat (x - a) \<Longrightarrow> store_bytes a bs m' x = m' x" for a x and bs :: "u8 list" and m'
  proof (induction bs arbitrary: a m')
    case (Cons c cs)
    then have "unat (x - (a + 1)) = unat (x - a) - 1" "x \<noteq> a" using unat_offset [of 1 x a] by auto
    then show ?case using Cons by simp
  qed simp
  show ?case
  proof (cases k)
    case 0
    have "unat (a - (a + 1)) = 2 ^ 64 - 1" using unat_below [of 0 1] by simp
    then show ?thesis using 0 out [of bs a "a + 1"] Cons.prems by simp
  next
    case (Suc j)
    then show ?thesis using Cons.IH [of j "a + 1"] Cons.prems by (simp add: add.assoc)
  qed
qed simp

lemma align16: "(a :: u64) AND NOT 0xF = a - (a AND 0xF)"
proof -
  have "a - (a AND 0xF) = a AND NOT (a AND 0xF)" by (rule disjunctive_diff) (simp add: bit_and_iff)
  also have "\<dots> = a AND NOT 0xF" by (intro bit_word_eqI) (auto simp: bit_and_iff bit_or_iff bit_not_iff)
  finally show ?thesis by simp
qed

lemma load_words_take: "take n (load_words (Suc n) a m) = load_words n a m"
proof (induction n arbitrary: a)
  case (Suc n)
  show ?case using Suc.IH [of "a + 8"] by simp
qed simp

text \<open>The memory that delivery leaves: trampoline, frame and return address do not overlap.\<close>

lemma frame_layout:
  fixes ta :: u64 and m :: "u64 \<Rightarrow> u8"
  defines "sf \<equiv> (ta AND NOT 0xF) - 152"
  assumes ws: "length ws = 19" and bs: "length bs = 7"
  defines "m' \<equiv> store_u64 (sf - 8) ta (store_words sf ws (store_bytes ta bs m))"
  shows "k < 152 \<Longrightarrow> m' (sf + of_nat k) = store_words sf ws (store_bytes ta bs m) (sf + of_nat k)"
    "k < 7 \<Longrightarrow> m' (ta + of_nat k) = bs ! k"
proof -
  assume k: "k < 152"
  then have "unat (sf + of_nat k - (sf - 8)) = 8 + k"
    using unat_of_nat_u64 [of "8 + k"] by (simp add: add.commute)
  then show "m' (sf + of_nat k) = store_words sf ws (store_bytes ta bs m) (sf + of_nat k)"
    unfolding m'_def by (intro store_u64_outside) simp
next
  assume k: "k < 7"
  define d where "d = unat (ta AND 0xF)"
  have d: "d < 16" using word_and_le1 [of ta "0xF"] by (simp add: d_def word_le_nat_alt)
  have eq: "ta + of_nat k - sf = of_nat (152 + d + k)" "ta + of_nat k - (sf - 8) = of_nat (160 + d + k)"
    using align16 [of ta] by (simp_all add: sf_def d_def)
  have "unat (ta + of_nat k - sf) = 152 + d + k" "unat (ta + of_nat k - (sf - 8)) = 160 + d + k"
    unfolding eq using d k by (intro unat_of_nat_u64; simp)+
  then have "m' (ta + of_nat k) = store_bytes ta bs m (ta + of_nat k)"
    unfolding m'_def by (simp add: store_u64_outside store_words_outside ws)
  then show "m' (ta + of_nat k) = bs ! k" using store_bytes_inside [of k bs ta m] k bs by simp
qed

section \<open>Properties\<close>

text \<open>
  C29: a signal handler is transparent to the interrupted code. The frame that delivery builds on the
  user stack makes the handler return to the trampoline, whose bytes are in place; and when the trampoline
  enters the kernel with the stack pointer above the return address and the saved registers
  in the frame untouched, \<open>signal_do_sigreturn\<close> restores every saved register, the instruction
  pointer, the flags and the stack pointer of the interrupted context.
\<close>

theorem sigreturn_restores:
  assumes su: "signal_setup_frame handler sig regs m = (regs', m')"
    and sp: "r_rsp r = r_rsp regs' + 8"
    and fr: "\<And>k. k < 144 \<Longrightarrow> m2 (r_rsp r + of_nat k) = m' (r_rsp r + of_nat k)"
  shows "signal_do_sigreturn (Some r) m2
      = Some (regs\<lparr>r_int_no := r_int_no r, r_err_code := r_err_code r, r_cs := r_cs r, r_ss := r_ss r\<rparr>)
    \<and> load_u64 (r_rsp regs') m' = r_rsp regs - 7
    \<and> (\<forall>k<7. m' (r_rsp regs - 7 + of_nat k) = sigreturn_tramp ! k)"
proof -
  define ta where "ta = r_rsp regs - 7"
  define sf where "sf = (ta AND NOT 0xF) - 152"
  let ?ws = "frame_words regs sig" and ?m1 = "store_bytes ta sigreturn_tramp m"
  have m': "m' = store_u64 (sf - 8) ta (store_words sf ?ws ?m1)" and rsp: "r_rsp regs' = sf - 8" "r_rsp r = sf"
    using su sp by (auto simp: signal_setup_frame_def Let_def ta_def sf_def)
  have len: "length ?ws = 19" "length sigreturn_tramp = 7" by (simp_all add: frame_words_def sigreturn_tramp_def)
  note lay = frame_layout [OF len, where ta = ta and m = m, folded sf_def, folded m']
  have "load_words 18 sf m2 = load_words 18 sf (store_words sf ?ws ?m1)"
    using fr lay(1) by (intro load_words_cong) (simp add: rsp(2))
  also have "\<dots> = take 18 ?ws"
    using load_words_take [of 18 sf "store_words sf ?ws ?m1"] load_store_words [of ?ws sf ?m1] by (simp add: len)
  finally have w: "load_words 18 sf m2 = take 18 ?ws" .
  have "\<forall>k<7. m' (ta + of_nat k) = sigreturn_tramp ! k" using lay(2) by blast
  moreover have "signal_do_sigreturn (Some r) m2
      = Some (regs\<lparr>r_int_no := r_int_no r, r_err_code := r_err_code r, r_cs := r_cs r, r_ss := r_ss r\<rparr>)"
    by (simp add: signal_do_sigreturn_def Let_def rsp(2) w frame_words_def)
  moreover have "load_u64 (r_rsp regs') m' = ta" unfolding rsp m' by (rule load_store_u64)
  ultimately show ?thesis unfolding ta_def by blast
qed

definition regs0 :: cpu_registers where
  "regs0 = \<lparr>r_r15 = 15, r_r14 = 14, r_r13 = 13, r_r12 = 12, r_r11 = 11, r_r10 = 10, r_r9 = 9, r_r8 = 8, r_rbp = 7,
     r_rdi = 6, r_rsi = 5, r_rdx = 4, r_rcx = 3, r_rbx = 2, r_rax = 1, r_int_no = 0x80, r_err_code = 0,
     r_rip = 0x401000, r_cs = 0x23, r_rflags = 0x202, r_rsp = 0x8005, r_ss = 0x1B\<rparr>"

theorem sigreturn_restores_witness:
  "\<exists>regs' m'. signal_setup_frame 0x402000 10 regs0 (\<lambda>_. 0) = (regs', m')
    \<and> signal_do_sigreturn (Some (regs'\<lparr>r_rsp := r_rsp regs' + 8, r_rax := 52\<rparr>)) m' = Some regs0"
proof -
  obtain regs' m' where su: "signal_setup_frame 0x402000 10 regs0 (\<lambda>_. 0) = (regs', m')" by fastforce
  have same: "r_int_no regs' = r_int_no regs0" "r_err_code regs' = r_err_code regs0" "r_cs regs' = r_cs regs0"
    "r_ss regs' = r_ss regs0"
    using su by (auto simp: signal_setup_frame_def Let_def)
  let ?r = "regs'\<lparr>r_rsp := r_rsp regs' + 8, r_rax := 52\<rparr>"
  have "signal_do_sigreturn (Some ?r) m'
      = Some (regs0\<lparr>r_int_no := r_int_no ?r, r_err_code := r_err_code ?r, r_cs := r_cs ?r, r_ss := r_ss ?r\<rparr>)"
    using sigreturn_restores [OF su, of ?r m'] by simp
  with su same show ?thesis by simp
qed

section \<open>SIGKILL and SIGSTOP\<close>

lemma sigs_upd [frame]: "(\<And>x. sigstate (f x) = sigstate x) \<Longrightarrow> sig_of (upd p f s) = sig_of s"
  by (auto simp: sig_of_def)

lemma sigs_state [frame]: "sig_of (set_state p st s) = sig_of s"
  by (auto simp: sig_of_def)

lemma sigs_upd_sig [frame]: "sig_of (upd_sig p f s) = (sig_of s)(p := f (sig_of s p))"
  by (auto simp: sig_of_def upd_sig_def)

lemma sigs_enqueue [frame]: "sig_of (ready_enqueue p s) = sig_of s" "sig_of (scheduler_add q s) = sig_of s"
  "sig_of (scheduler_unblock q s) = sig_of s"
  by (auto simp: ready_enqueue_def scheduler_add_def scheduler_unblock_def sig_of_def split: option.splits)

lemma sigs_switch:
  assumes "switch_from old s = Some t"
  shows "sig_of t = sig_of s"
proof -
  have d: "sig_of (snd (ready_dequeue u)) = sig_of u" for u :: "'a proc_st_scheme"
    by (simp add: ready_dequeue_def sig_of_def fun_eq_iff)
  have r: "sig_of (run_next q u) = sig_of u" for q and u :: "'a proc_st_scheme" by (auto simp: sig_of_def)
  have v: "sig_of (vmm_switch_address_space a u) = sig_of u" for a and u :: "'a proc_st_scheme" by (auto simp: sig_of_def)
  show ?thesis
    using assms d [of "ready_enqueue old (set_state old PROC_STATE_READY s)"] d [of s]
    by (auto simp: switch_from_def Let_def frame r v split: prod.splits option.splits if_splits)
qed

lemma sigs_yield: "scheduler_yield s = Some t \<Longrightarrow> sig_of t = sig_of s"
  by (auto simp: scheduler_yield_def dest: sigs_switch split: option.splits)

lemma sigs_exit:
  assumes "process_exit q code s = Some t"
  shows "sig_of t = sig_of s"
proof -
  have c: "sig_of (close_fds p u) = sig_of u" for p and u :: "'a proc_st_scheme"
    unfolding close_fds_def
    by (rule fold_keeps) (auto simp: fd_close_def sig_of_def split: option.splits)
  have fs: "sig_of (free_space p u) = sig_of u" for p and u :: "'a proc_st_scheme"
    by (auto simp: free_space_def sig_of_def frame)
  have k: "sig_of (free_kstack p u) = sig_of u" for p and u :: "'a proc_st_scheme"
    by (auto simp: free_kstack_def sig_of_def frame Let_def)
  have l: "sig_of (process_list_remove p u) = sig_of u" for p and u :: "'a proc_st_scheme"
    by (auto simp: process_list_remove_def sig_of_def Let_def split: option.splits)
  have n: "sig_of (u\<lparr>current_process := None\<rparr>) = sig_of u" for u :: "'a proc_st_scheme" by (simp add: sig_of_def fun_eq_iff)
  show ?thesis
    using assms
    by (auto simp: process_exit_def Let_def frame c fs k l n dest: sigs_yield split: option.splits if_splits)
qed

lemma sigs_exit_yield: "exit_and_yield p sig s = Some t \<Longrightarrow> sig_of t = sig_of s"
  unfolding exit_and_yield_def by (metis (no_types, lifting) bind_eq_Some_conv sigs_exit sigs_yield)

lemma sigs_stop: "stop_and_yield p s = Some t \<Longrightarrow> sig_of t = sig_of s"
  by (auto simp: stop_and_yield_def frame dest: sigs_yield)

lemma sigs_default: "signal_default_action p sig s = Some t \<Longrightarrow> sig_of t = sig_of s"
  by (auto simp: signal_default_action_def dest: sigs_exit_yield sigs_stop split: if_splits)

lemma sigmem_bit: "1 \<le> a \<Longrightarrow> sigismember x a \<longleftrightarrow> bit x (a - 1)"
  by (simp add: sigismember_def sigbit_def and_exp_eq_0_iff_not_bit)

lemma bit_sigbit: "Suc 0 \<le> a \<Longrightarrow> a \<le> 32 \<Longrightarrow> Suc 0 \<le> b \<Longrightarrow> bit (sigbit b) (a - Suc 0) \<longleftrightarrow> a = b"
  by (auto simp: sigbit_def bit_exp_iff)

lemma sigmem_add: "1 \<le> a \<Longrightarrow> a \<le> 32 \<Longrightarrow> 1 \<le> b \<Longrightarrow> sigismember (sigaddset b x) a \<longleftrightarrow> a = b \<or> sigismember x a"
  by (auto simp: sigmem_bit sigaddset_def bit_or_iff bit_sigbit)

lemma sigmem_del: "1 \<le> a \<Longrightarrow> a \<le> 32 \<Longrightarrow> 1 \<le> b \<Longrightarrow> sigismember (sigdelset b x) a \<longleftrightarrow> a \<noteq> b \<and> sigismember x a"
  by (auto simp: sigmem_bit sigdelset_def bit_and_iff bit_not_iff bit_sigbit)

text \<open>Neither SIGKILL nor SIGSTOP is blocked, and both have the default disposition.\<close>

definition kill_safe :: "signal_state \<Rightarrow> bool" where
  "kill_safe ss \<longleftrightarrow> \<not> sigismember (blocked ss) SIGKILL \<and> \<not> sigismember (blocked ss) SIGSTOP
     \<and> sa_handler (actions ss (SIGKILL - 1)) = SIG_DFL \<and> sa_handler (actions ss (SIGSTOP - 1)) = SIG_DFL"

definition all_safe :: "'a proc_st_scheme \<Rightarrow> bool" where
  "all_safe s \<longleftrightarrow> (\<forall>p. kill_safe (sig_of s p))"

lemma all_safe_cong: "sig_of t = sig_of s \<Longrightarrow> all_safe t = all_safe s"
  by (simp add: all_safe_def)

lemma all_safe_upd: "all_safe s \<Longrightarrow> kill_safe (f (sig_of s p)) \<Longrightarrow> all_safe (upd_sig p f s)"
  by (simp add: all_safe_def frame)

lemma all_safe_pending: "all_safe s \<Longrightarrow> all_safe (upd_sig p (\<lambda>ss. ss\<lparr>pending := f (pending ss)\<rparr>) s)"
  by (rule all_safe_upd) (auto simp: all_safe_def kill_safe_def)

lemma all_safe_map: "map_option (\<lambda>t. (r, m, t)) x = Some (r', m', t) \<Longrightarrow> (\<And>u. x = Some u \<Longrightarrow> sig_of u = sig_of s) \<Longrightarrow>
    all_safe s \<Longrightarrow> all_safe t"
  by (auto simp: all_safe_def)

text \<open>Calling a handler blocks its signal, which is neither SIGKILL nor SIGSTOP.\<close>

lemma all_safe_handler:
  assumes "all_safe s" "1 \<le> sig" "sig \<noteq> SIGKILL" "sig \<noteq> SIGSTOP"
  shows "all_safe (if c then upd_sig p (\<lambda>ss. ss\<lparr>blocked := sigaddset sig (blocked ss)\<rparr>) s else s)"
    "all_safe (if c then upd_sig p (\<lambda>ss. ss\<lparr>actions := (actions ss)(sig - 1 := a)\<rparr>) s else s)"
proof -
  have "sig - 1 \<noteq> 8" "sig - 1 \<noteq> 18" using assms(2-4) by linarith+
  then show "all_safe (if c then upd_sig p (\<lambda>ss. ss\<lparr>blocked := sigaddset sig (blocked ss)\<rparr>) s else s)"
    "all_safe (if c then upd_sig p (\<lambda>ss. ss\<lparr>actions := (actions ss)(sig - 1 := a)\<rparr>) s else s)"
    using assms by (auto simp: all_safe_def kill_safe_def sigmem_add sigs_upd_sig)
qed

lemma deliver_safe:
  assumes "all_safe s" "\<And>t. all_safe t \<Longrightarrow> all_safe (resume t)" "\<And>sig. sig \<in> set sigs \<Longrightarrow> 1 \<le> sig"
    "deliver_loop sigs resume d p regs m s = Some (r, m', t)"
  shows "all_safe t"
  using assms(1,3,4)
proof (induction sigs arbitrary: s)
  case Nil
  then show ?case by simp
next
  case (Cons sig sigs)
  define s1 where "s1 = upd_sig p (\<lambda>ss. ss\<lparr>pending := sigdelset sig (pending ss)\<rparr>) s"
  have safe1: "all_safe s1" unfolding s1_def by (rule all_safe_pending [OF Cons.prems(1)])
  have sg: "1 \<le> sig" "\<And>x. x \<in> set sigs \<Longrightarrow> 1 \<le> x" using Cons.prems(2) by auto
  let ?act = "actions (sig_of s1 p) (sig - 1)"
  have IH: "all_safe t" if "all_safe u" "deliver_loop sigs resume d p regs m u = Some (r, m', t)" for u
    using Cons.IH [OF that(1) _ that(2)] sg(2) by blast
  note ex = Cons.prems(3) [unfolded deliver_loop.simps, folded s1_def, unfolded Let_def]
  have dflt: "all_safe t" if "map_option (\<lambda>t. (regs, m, t)) (signal_default_action p sig s1) = Some (r, m', t)"
    using that all_safe_map [OF that _ safe1] sigs_default by blast
  consider (skip) "\<not> sigismember d sig" | (ign) "sigismember d sig" "sa_handler ?act = SIG_IGN"
    | (killed) "sigismember d sig" "sa_handler ?act \<noteq> SIG_IGN" "sig = SIGKILL"
    | (stop) "sigismember d sig" "sa_handler ?act \<noteq> SIG_IGN" "sig = SIGSTOP"
    | (cont) "sigismember d sig" "sa_handler ?act \<noteq> SIG_IGN" "sig = SIGCONT"
    | (other) "sigismember d sig" "sa_handler ?act \<noteq> SIG_IGN" "sig \<noteq> SIGKILL" "sig \<noteq> SIGSTOP" "sig \<noteq> SIGCONT"
    by blast
  then show ?case
  proof cases
    case skip
    with ex show ?thesis by (intro IH [OF Cons.prems(1)]) simp_all
  next
    case ign
    with ex show ?thesis by (intro IH [OF safe1]) simp_all
  next
    case killed
    with ex have "map_option (\<lambda>t. (regs, m, t)) (exit_and_yield p sig s1) = Some (r, m', t)" by simp
    from all_safe_map [OF this _ safe1] sigs_exit_yield show ?thesis by blast
  next
    case stop
    with ex obtain u where u: "stop_and_yield p s1 = Some u"
      "deliver_loop sigs resume d p regs m (resume u) = Some (r, m', t)" by (auto split: option.splits)
    have "all_safe (resume u)" using assms(2) all_safe_cong [OF sigs_stop [OF u(1)]] safe1 by blast
    from IH [OF this u(2)] show ?thesis by simp
  next
    case cont
    define u where "u = (if state (process_table s1 p) = PROC_STATE_WAITING
      then scheduler_add (Some p) (set_state p PROC_STATE_READY s1) else s1)"
    have "all_safe u" using safe1 by (auto simp: u_def all_safe_def frame)
    moreover have "deliver_loop sigs resume d p regs m u = Some (r, m', t)" using cont ex by (simp add: u_def)
    ultimately show ?thesis by (intro IH)
  next
    case other
    show ?thesis
    proof (cases "sa_handler ?act \<noteq> SIG_DFL \<and> (\<exists>x. regs = Some x \<and> r_cs x AND 3 = 3)")
      case True
      with other ex show ?thesis
        using all_safe_handler(2) [OF all_safe_handler(1) [OF safe1 sg(1) other(3,4)] sg(1) other(3,4)]
        by (auto split: prod.splits)
    next
      case False
      with other ex show ?thesis by (intro dflt) (auto split: option.splits if_splits)
    qed
  qed
qed

lemma sigaction_safe: "all_safe s \<Longrightarrow> all_safe (snd (snd (signal_do_sigaction sig act s)))"
proof -
  assume safe: "all_safe s"
  have "nat sig - 1 \<noteq> 8 \<and> nat sig - 1 \<noteq> 18" if "sig_valid sig" "sig \<noteq> 9" "sig \<noteq> 19"
    using that by (auto simp: sig_valid_def nat_eq_iff)
  then show ?thesis
    using safe by (auto simp: signal_do_sigaction_def all_safe_def kill_safe_def sigs_upd_sig split: option.splits)
qed

lemma sigprocmask_safe: "all_safe s \<Longrightarrow> all_safe (snd (snd (signal_do_sigprocmask how sset s)))"
  by (auto simp: signal_do_sigprocmask_def Let_def all_safe_def kill_safe_def sigs_upd_sig sigmem_bit
      sigdelset_def bit_or_iff bit_and_iff bit_not_iff sigbit_def bit_exp_iff split: option.splits)

lemma send_safe:
  assumes "all_safe s"
  shows "all_safe (snd (signal_send_proc q sig s))"
proof (cases q)
  case None
  with assms show ?thesis by (simp add: signal_send_proc_def)
next
  case (Some p)
  let ?u = "\<lambda>n. upd_sig p (\<lambda>ss. ss\<lparr>pending := sigaddset n (pending ss)\<rparr>) s"
  have u: "all_safe (?u n)" for n by (rule all_safe_pending [OF assms])
  moreover have "all_safe (process_wake (Some p) (?u n))" for n
    using u all_safe_cong [OF sigs_enqueue(3) [of "Some p" "?u n"]] by (simp add: process_wake_def)
  ultimately show ?thesis using Some assms by (simp add: signal_send_proc_def Let_def)
qed

lemma deliver_pending_safe:
  assumes "all_safe s" "\<And>t. all_safe t \<Longrightarrow> all_safe (resume t)"
    "signal_deliver_pending resume q regs m s = Some (r, m', t)"
  shows "all_safe t"
  using assms deliver_safe [of s resume "[1..<32]"]
  by (auto simp: signal_deliver_pending_def Let_def split: option.splits if_splits)

lemma sigkill_delivered:
  assumes safe: "all_safe s" and k: "sigismember (pending (sig_of s p)) SIGKILL" and d: "states s p \<noteq> PROC_STATE_DEAD"
    and lo: "\<forall>l\<in>{1..8}. \<not> sigismember (pending (sig_of s p) AND NOT (blocked (sig_of s p))) l"
    and c: "current_process s = Some p"
  shows "\<exists>t. signal_deliver_pending resume (Some p) regs m s = Some (regs, m, t) \<and> states t p = PROC_STATE_UNUSED"
proof -
  define dl where "dl = pending (sig_of s p) AND NOT (blocked (sig_of s p))"
  define s1 where "s1 = upd_sig p (\<lambda>ss. ss\<lparr>pending := sigdelset SIGKILL (pending ss)\<rparr>) s"
  have ks: "kill_safe (sig_of s p)" using safe by (simp add: all_safe_def)
  then have dk: "sigismember dl SIGKILL"
    using k by (simp add: dl_def kill_safe_def sigmem_bit bit_and_iff bit_not_iff)
  then have "dl \<noteq> 0" by (auto simp: sigismember_def)
  then have "signal_deliver_pending resume (Some p) regs m s = deliver_loop [1..<32] resume dl p regs m s"
    by (simp add: signal_deliver_pending_def dl_def)
  moreover have "[1..<32] = [1, 2, 3, 4, 5, 6, 7, 8] @ SIGKILL # [10..<32]" by (simp add: upt_rec)
  ultimately have "signal_deliver_pending resume (Some p) regs m s = deliver_loop (SIGKILL # [10..<32]) resume dl p regs m s"
    using lo by (simp add: dl_def atLeastAtMost_iff)
  then have ex: "signal_deliver_pending resume (Some p) regs m s = map_option (\<lambda>t. (regs, m, t)) (exit_and_yield p SIGKILL s1)"
    using dk ks by (auto simp: Let_def kill_safe_def sigs_upd_sig s1_def)
  have "states s1 = states s" "current_process s1 = Some p" using c by (auto simp: s1_def states_def upd_sig_def)
  then obtain u where u: "process_exit (Some p) (- int SIGKILL) s1 = Some u" "states u = (states s)(p := PROC_STATE_UNUSED)"
    "current_process u = None"
    using process_exit_effect [of s1 p "- int SIGKILL"] d by (auto simp: queue_of_def)
  then show ?thesis using ex by (simp add: exit_and_yield_def scheduler_yield_def)
qed

text \<open>
  C30: SIGKILL and SIGSTOP can be neither blocked nor caught. From a state in which no process
  blocks or handles them, every disposition change, mask change, sent signal and delivery leaves such
  a state; and delivery of a pending SIGKILL, when no signal with a smaller number can be delivered first,
  ends the process.
\<close>

theorem sigkill_unstoppable:
  assumes safe: "all_safe s" and res: "\<And>t. all_safe t \<Longrightarrow> all_safe (resume t)"
  shows "all_safe (snd (snd (signal_do_sigaction sig act s))) \<and> all_safe (snd (snd (signal_do_sigprocmask how sset s)))
    \<and> all_safe (snd (signal_send_proc q sig s))
    \<and> (\<forall>r m' t. signal_deliver_pending resume q regs m s = Some (r, m', t) \<longrightarrow> all_safe t)
    \<and> (\<forall>p. sigismember (pending (sig_of s p)) SIGKILL \<longrightarrow> states s p \<noteq> PROC_STATE_DEAD \<longrightarrow>
          (\<forall>l\<in>{1..8}. \<not> sigismember (pending (sig_of s p) AND NOT (blocked (sig_of s p))) l) \<longrightarrow>
          current_process s = Some p \<longrightarrow>
          (\<exists>t. signal_deliver_pending resume (Some p) regs m s = Some (regs, m, t) \<and> states t p = PROC_STATE_UNUSED))"
  using sigaction_safe [OF safe] sigprocmask_safe [OF safe] send_safe [OF safe] sigkill_delivered [OF safe]
    deliver_pending_safe [where resume = resume, OF safe res] by blast

text \<open>Process 0 of the demonstration state has a pending SIGKILL.\<close>

definition kill_demo :: proc_st where
  "kill_demo = snd (signal_send_proc (Some 0) 9 sched_demo)"

theorem sigkill_unstoppable_witness:
  "\<exists>t. signal_deliver_pending (\<lambda>t. t) (Some 0) None (\<lambda>_. 0) kill_demo = Some (None, \<lambda>_. 0, t)
    \<and> states t 0 = PROC_STATE_UNUSED"
proof -
  have sg: "sig_of sched_demo p = sigstate proc0" for p
    by (simp add: sig_of_def sched_demo_def vmm_st.defs vmm_demo_def)
  have safe0: "all_safe sched_demo"
    by (simp add: all_safe_def kill_safe_def sg) (simp add: proc0_def sigismember_def)
  have st0: "state (process_table sched_demo 0) = PROC_STATE_RUNNING" "current_process sched_demo = Some 0"
    using sched_demo_sel(2) by (simp_all add: running_def)
  have e: "kill_demo = upd_sig 0 (\<lambda>ss. ss\<lparr>pending := sigaddset 9 (pending ss)\<rparr>) sched_demo"
    using st0 by (simp add: kill_demo_def signal_send_proc_def sig_valid_def upd_sig_def)
  have safe: "all_safe kill_demo" unfolding e by (rule all_safe_pending [OF safe0])
  have p: "pending (sig_of kill_demo 0) = 0x100" "blocked (sig_of kill_demo 0) = 0"
    by (simp_all add: e sigs_upd_sig sg) (simp_all add: proc0_def sigaddset_def sigbit_def)
  have k: "sigismember (pending (sig_of kill_demo 0)) 9" "states kill_demo 0 \<noteq> PROC_STATE_DEAD"
    "current_process kill_demo = Some 0"
    using st0 by (simp_all add: p sigismember_def sigbit_def) (simp_all add: e states_def upd_sig_def)
  have lo: "\<forall>l\<in>{1..8}. \<not> sigismember (pending (sig_of kill_demo 0) AND NOT (blocked (sig_of kill_demo 0))) l"
  proof
    fix l :: nat assume "l \<in> {1..8}"
    then have "l \<in> {1, 2, 3, 4, 5, 6, 7, 8}" by auto
    then show "\<not> sigismember (pending (sig_of kill_demo 0) AND NOT (blocked (sig_of kill_demo 0))) l"
      by (auto simp: p sigismember_def sigbit_def)
  qed
  from sigkill_unstoppable [OF safe, of "\<lambda>t. t"] k lo show ?thesis by blast
qed

section \<open>User handlers\<close>

lemma deliver_skip:
  "(\<And>l. l \<in> set xs \<Longrightarrow> \<not> sigismember d l) \<Longrightarrow> deliver_loop (xs @ ys) resume d p regs m s = deliver_loop ys resume d p regs m s"
  by (induction xs) auto

lemma deliver_first:
  assumes "1 \<le> sig" "sig < NSIG" and "sigismember d sig" "d = pending (sig_of s p) AND NOT (blocked (sig_of s p))"
    and "\<And>l. 1 \<le> l \<Longrightarrow> l < sig \<Longrightarrow> \<not> sigismember d l"
  shows "signal_deliver_pending resume (Some p) regs m s = deliver_loop (sig # [Suc sig..<NSIG]) resume d p regs m s"
proof -
  have "[1..<NSIG] = [1..<sig] @ sig # [Suc sig..<NSIG]"
    using assms(1,2) upt_add_eq_append [of 1 sig "32 - sig"] upt_conv_Cons [of sig 32] by simp
  moreover have "deliver_loop ([1..<sig] @ ys) resume d p regs m s = deliver_loop ys resume d p regs m s" for ys
    by (rule deliver_skip) (use assms(5) in auto)
  moreover have "d \<noteq> 0" using assms(3) by (auto simp: sigismember_def)
  ultimately show ?thesis
    unfolding signal_deliver_pending_def assms(4) by (simp del: deliver_loop.simps(2))
qed


text \<open>Process 0 of the demonstration state has a handler for SIGUSR1 and one such signal pending.\<close>

definition handler_demo :: proc_st where
  "handler_demo = upd_sig 0 (\<lambda>ss. ss\<lparr>pending := 0x200,
     actions := (actions ss)(9 := (actions ss 9)\<lparr>sa_handler := 0x402000, sa_flags := 0\<rparr>)\<rparr>) sched_demo"


end
