(* ===== verification/Tty.thy ===== *)
theory Tty
  imports Signal Fifo
begin

unbundle bit_operations_syntax

text \<open>
  The terminals of \<open>kernel/tty.c\<close> and \<open>include/kernel/tty.h\<close>: rings of bytes, the line discipline that edits a
  line and turns control characters into signals, and the pseudo terminals. A \<open>tty_t*\<close> or \<open>pty_t*\<close> is the
  index into its table, None for NULL. The rings keep the contract of \<open>bounded_fifo\<close>; the properties are
  about what a reader gets of what was typed. Log output is left out.
\<close>

section \<open>State\<close>

record tty_cc =
  c_intr :: u8
  c_quit :: u8
  c_erase :: u8
  c_kill :: u8
  c_eof :: u8
  c_susp :: u8

record tty_ring =
  rg_buf :: "nat \<Rightarrow> u8"
  rg_head :: u32
  rg_tail :: u32

record tty =
  t_index :: int
  t_valid :: bool
  t_flags :: u32
  t_cc :: tty_cc
  t_input :: tty_ring
  t_canon :: tty_ring
  t_output :: tty_ring
  t_fg_pgid :: u32
  t_pty :: "nat option"

record pty =
  y_valid :: bool
  y_index :: int
  y_slave :: "nat option"
  y_m2s :: tty_ring
  y_s2m :: tty_ring

record tty_st = proc_st +
  ttys :: "nat \<Rightarrow> tty"
  ptys :: "nat \<Rightarrow> pty"
  active_tty :: int

abbreviation (input) TTY_MAX :: nat where "TTY_MAX \<equiv> 8"
abbreviation (input) PTY_MAX :: nat where "PTY_MAX \<equiv> 32"
abbreviation (input) TTY_BUF_SIZE :: u32 where "TTY_BUF_SIZE \<equiv> 4096"
abbreviation (input) TTY_ECHO :: u32 where "TTY_ECHO \<equiv> 1"
abbreviation (input) TTY_ICANON :: u32 where "TTY_ICANON \<equiv> 2"
abbreviation (input) TTY_ISIG :: u32 where "TTY_ISIG \<equiv> 4"
abbreviation (input) TTY_ONLCR :: u32 where "TTY_ONLCR \<equiv> 8"
abbreviation (input) TTY_ICRNL :: u32 where "TTY_ICRNL \<equiv> 16"
abbreviation (input) CR :: u8 where "CR \<equiv> 13"
abbreviation (input) LF :: u8 where "LF \<equiv> 10"
abbreviation (input) BS :: u8 where "BS \<equiv> 8"
abbreviation (input) SPACE :: u8 where "SPACE \<equiv> 32"

definition has_flag :: "u32 \<Rightarrow> tty \<Rightarrow> bool" where
  "has_flag f t \<longleftrightarrow> t_flags t AND f \<noteq> 0"

definition upd_tty :: "nat \<Rightarrow> (tty \<Rightarrow> tty) \<Rightarrow> 'a tty_st_scheme \<Rightarrow> 'a tty_st_scheme" where
  "upd_tty i f s = s\<lparr>ttys := (ttys s)(i := f (ttys s i))\<rparr>"

definition upd_pty :: "nat \<Rightarrow> (pty \<Rightarrow> pty) \<Rightarrow> 'a tty_st_scheme \<Rightarrow> 'a tty_st_scheme" where
  "upd_pty i f s = s\<lparr>ptys := (ptys s)(i := f (ptys s i))\<rparr>"

section \<open>Rings\<close>

definition tty_ring_empty :: "tty_ring \<Rightarrow> bool" where
  "tty_ring_empty r \<longleftrightarrow> rg_head r = rg_tail r"

definition tty_ring_full :: "tty_ring \<Rightarrow> bool" where
  "tty_ring_full r \<longleftrightarrow> (rg_tail r + 1) mod TTY_BUF_SIZE = rg_head r"

definition tty_ring_push :: "u8 \<Rightarrow> tty_ring \<Rightarrow> tty_ring" where
  "tty_ring_push c r =
     (if \<not> tty_ring_full r
      then r\<lparr>rg_buf := (rg_buf r)(unat (rg_tail r) := c), rg_tail := (rg_tail r + 1) mod TTY_BUF_SIZE\<rparr>
      else r)"

definition tty_ring_pop :: "tty_ring \<Rightarrow> int \<times> tty_ring" where
  "tty_ring_pop r =
     (if tty_ring_empty r then (-1, r)
      else (uint (rg_buf r (unat (rg_head r))), r\<lparr>rg_head := (rg_head r + 1) mod TTY_BUF_SIZE\<rparr>))"

section \<open>Start and switching\<close>

definition zero_ring :: tty_ring where
  "zero_ring = \<lparr>rg_buf = \<lambda>_. 0, rg_head = 0, rg_tail = 0\<rparr>"

definition tty_init :: "'a tty_st_scheme \<Rightarrow> 'a tty_st_scheme" where
  "tty_init s = s\<lparr>ttys := (\<lambda>i. \<lparr>t_index = int i, t_valid = True,
       t_flags = TTY_ECHO OR TTY_ICANON OR TTY_ISIG OR TTY_ONLCR OR TTY_ICRNL,
       t_cc = \<lparr>c_intr = 3, c_quit = 0x1C, c_erase = 0x7F, c_kill = 0x15, c_eof = 4, c_susp = 0x1A\<rparr>,
       t_input = zero_ring, t_canon = zero_ring, t_output = zero_ring, t_fg_pgid = 1, t_pty = None\<rparr>),
     ptys := (\<lambda>_. \<lparr>y_valid = False, y_index = 0, y_slave = None, y_m2s = zero_ring, y_s2m = zero_ring\<rparr>)\<rparr>"

definition tty_get :: "int \<Rightarrow> nat option" where
  "tty_get index = (if index < 0 \<or> index \<ge> int TTY_MAX then None else Some (nat index))"

definition tty_switch :: "int \<Rightarrow> 'a tty_st_scheme \<Rightarrow> 'a tty_st_scheme" where
  "tty_switch index s = (if index < 0 \<or> index \<ge> int TTY_MAX then s else s\<lparr>active_tty := index\<rparr>)"

section \<open>Line discipline\<close>

text \<open>The loop that moves a complete line to the reader; None if it never ends.\<close>

partial_function (option) move_line :: "tty_ring \<Rightarrow> tty_ring \<Rightarrow> (tty_ring \<times> tty_ring) option" where
  "move_line canon inp =
     (if rg_head canon \<noteq> rg_tail canon then
        (let (ch, canon1) = tty_ring_pop canon in
         move_line canon1 (if ch \<ge> 0 then tty_ring_push (word_of_int ch) inp else inp))
      else Some (canon, inp))"

definition echo :: "u8 list \<Rightarrow> tty \<Rightarrow> tty" where
  "echo cs t = (if has_flag TTY_ECHO t then t\<lparr>t_output := fold tty_ring_push cs (t_output t)\<rparr> else t)"

definition tty_erase :: "tty \<Rightarrow> tty" where
  "tty_erase t =
     (if rg_tail (t_canon t) \<noteq> rg_head (t_canon t)
      then echo [BS, SPACE, BS] (t\<lparr>t_canon := (t_canon t)\<lparr>rg_tail :=
             (if rg_tail (t_canon t) = 0 then TTY_BUF_SIZE - 1 else rg_tail (t_canon t) - 1)\<rparr>\<rparr>)
      else t)"

definition tty_kill :: "tty \<Rightarrow> tty" where
  "tty_kill t = echo [CR, LF] (t\<lparr>t_canon := (t_canon t)\<lparr>rg_head := 0, rg_tail := 0\<rparr>\<rparr>)"

definition tty_append :: "u8 \<Rightarrow> tty \<Rightarrow> tty option" where
  "tty_append c t =
     (let t1 = t\<lparr>t_canon := tty_ring_push c (t_canon t)\<rparr>;
          t2 = echo (if has_flag TTY_ONLCR t \<and> c = LF then [CR, c] else [c]) t1
      in if c = LF
         then map_option (\<lambda>(canon, inp). t2\<lparr>t_canon := canon, t_input := inp\<rparr>) (move_line (t_canon t2) (t_input t2))
         else Some t2)"

text \<open>The part of \<open>tty_input_char\<close> after signal generation, which changes only the terminal.\<close>

definition tty_edit :: "u8 \<Rightarrow> tty \<Rightarrow> tty option" where
  "tty_edit c t =
     (if \<not> has_flag TTY_ICANON t then Some (echo [c] (t\<lparr>t_input := tty_ring_push c (t_input t)\<rparr>))
      else if c = c_erase (t_cc t) then Some (tty_erase t)
      else if c = c_kill (t_cc t) then Some (tty_kill t)
      else if c = c_eof (t_cc t) then Some (t\<lparr>t_input := tty_ring_push 0xFF (t_input t)\<rparr>)
      else tty_append c t)"

definition tty_input_char :: "nat option \<Rightarrow> u8 \<Rightarrow> 'a tty_st_scheme \<Rightarrow> 'a tty_st_scheme option" where
  "tty_input_char tty c0 s =
     (case tty of
        None \<Rightarrow> Some s
      | Some i \<Rightarrow>
          (let t = ttys s i in
           if \<not> t_valid t then Some s
           else
             (let c = (if has_flag TTY_ICRNL t \<and> c0 = CR then LF else c0) in
              if has_flag TTY_ISIG t \<and> c = c_intr (t_cc t) then Some (snd (signal_send (t_fg_pgid t) 2 s))
              else if has_flag TTY_ISIG t \<and> c = c_quit (t_cc t) then Some (snd (signal_send (t_fg_pgid t) 3 s))
              else if has_flag TTY_ISIG t \<and> c = c_susp (t_cc t) then Some (snd (signal_send (t_fg_pgid t) 20 s))
              else map_option (\<lambda>t'. upd_tty i (\<lambda>_. t') s) (tty_edit c t))))"

section \<open>Reading and writing\<close>

text \<open>
  The blocking wait. \<open>yield k\<close> is what the rest of the system does during the k-th call of
  \<open>scheduler_yield\<close>; None if no input ever comes.
\<close>

partial_function (option) wait_input ::
  "(nat \<Rightarrow> 'a tty_st_scheme \<Rightarrow> 'a tty_st_scheme) \<Rightarrow> nat \<Rightarrow> nat \<Rightarrow> 'a tty_st_scheme \<Rightarrow> 'a tty_st_scheme option" where
  "wait_input yield i k s =
     (if tty_ring_empty (t_input (ttys s i)) then wait_input yield i (Suc k) (yield k s) else Some s)"

text \<open>The copying loop: n is the room left in the buffer, the result is what is stored there.\<close>

primrec read_loop :: "bool \<Rightarrow> nat \<Rightarrow> tty_ring \<Rightarrow> u8 list \<times> tty_ring" where
  "read_loop icanon 0 r = ([], r)"
| "read_loop icanon (Suc n) r =
     (if tty_ring_empty r then ([], r)
      else
        (let (c, r1) = tty_ring_pop r; b = (word_of_int c :: u8) in
         if c < 0 then ([], r1)
         else if b = 0xFF then ([], r1)
         else if b = LF \<and> icanon then ([b], r1)
         else (let (bs, r2) = read_loop icanon n r1 in (b # bs, r2))))"

definition tty_read ::
  "(nat \<Rightarrow> 'a tty_st_scheme \<Rightarrow> 'a tty_st_scheme) \<Rightarrow> nat option \<Rightarrow> bool \<Rightarrow> nat \<Rightarrow> 'a tty_st_scheme \<Rightarrow>
     (int \<times> u8 list \<times> 'a tty_st_scheme) option" where
  "tty_read yield tty has_buf n s =
     (case tty of
        None \<Rightarrow> Some (-1, [], s)
      | Some i \<Rightarrow>
          if \<not> has_buf \<or> n = 0 then Some (-1, [], s)
          else (case wait_input yield i 0 s of
                  None \<Rightarrow> None
                | Some s1 \<Rightarrow>
                    (let (bs, r) = read_loop (has_flag TTY_ICANON (ttys s1 i)) n (t_input (ttys s1 i))
                     in Some (int (length bs), bs, upd_tty i (\<lambda>t. t\<lparr>t_input := r\<rparr>) s1))))"

definition write_char :: "tty \<Rightarrow> u8 \<Rightarrow> tty_ring \<Rightarrow> tty_ring" where
  "write_char t c r = tty_ring_push c (if has_flag TTY_ONLCR t \<and> c = LF then tty_ring_push CR r else r)"

definition tty_write :: "nat option \<Rightarrow> u8 list option \<Rightarrow> 'a tty_st_scheme \<Rightarrow> int \<times> 'a tty_st_scheme" where
  "tty_write tty buf s =
     (case (tty, buf) of
        (Some i, Some bs) \<Rightarrow> (sint (of_nat (length bs) :: u32),
           upd_tty i (\<lambda>t. t\<lparr>t_output := fold (write_char t) bs (t_output t)\<rparr>) s)
      | _ \<Rightarrow> (-1, s))"

section \<open>Pseudo terminals\<close>

text \<open>The results are the return value and what is stored through the two pointers.\<close>

definition pty_open :: "bool \<Rightarrow> bool \<Rightarrow> 'a tty_st_scheme \<Rightarrow> (int \<times> int option \<times> int option) \<times> 'a tty_st_scheme" where
  "pty_open master_fd slave_fd s =
     (case for_find (\<lambda>i. \<not> y_valid (ptys s i)) 0 PTY_MAX of
        None \<Rightarrow> ((-12, None, None), s)
      | Some i \<Rightarrow>
          ((int i, if master_fd then Some (100 + int i * 2) else None, if slave_fd then Some (100 + int i * 2 + 1) else None),
           upd_pty i (\<lambda>p. p\<lparr>y_valid := True, y_index := int i, y_slave := Some 0, y_m2s := zero_ring, y_s2m := zero_ring\<rparr>) s))"

primrec master_write_loop :: "nat \<Rightarrow> u8 list \<Rightarrow> 'a tty_st_scheme \<Rightarrow> 'a tty_st_scheme option" where
  "master_write_loop p [] s = Some s"
| "master_write_loop p (b # bs) s =
     (let s1 = upd_pty p (\<lambda>y. y\<lparr>y_m2s := tty_ring_push b (y_m2s y)\<rparr>) s in
      case tty_input_char (y_slave (ptys s1 p)) b s1 of None \<Rightarrow> None | Some s2 \<Rightarrow> master_write_loop p bs s2)"

definition pty_master_write :: "nat option \<Rightarrow> u8 list option \<Rightarrow> 'a tty_st_scheme \<Rightarrow> (int \<times> 'a tty_st_scheme) option" where
  "pty_master_write pty buf s =
     (case (pty, buf) of
        (Some p, Some bs) \<Rightarrow> map_option (\<lambda>t. (sint (of_nat (length bs) :: u32), t)) (master_write_loop p bs s)
      | _ \<Rightarrow> Some (-1, s))"

primrec master_read_loop :: "nat \<Rightarrow> tty_ring \<Rightarrow> u8 list \<times> tty_ring" where
  "master_read_loop 0 r = ([], r)"
| "master_read_loop (Suc n) r =
     (if tty_ring_empty r then ([], r)
      else
        (let (c, r1) = tty_ring_pop r in
         if c < 0 then ([], r1)
         else (let (bs, r2) = master_read_loop n r1 in (word_of_int c # bs, r2))))"

definition pty_master_read :: "nat option \<Rightarrow> bool \<Rightarrow> nat \<Rightarrow> 'a tty_st_scheme \<Rightarrow> (int \<times> u8 list) \<times> 'a tty_st_scheme" where
  "pty_master_read pty has_buf n s =
     (case pty of
        None \<Rightarrow> ((-1, []), s)
      | Some p \<Rightarrow>
          if \<not> has_buf then ((-1, []), s)
          else (let (bs, r) = master_read_loop n (y_s2m (ptys s p))
                in ((int (length bs), bs), upd_pty p (\<lambda>y. y\<lparr>y_s2m := r\<rparr>) s)))"

section \<open>Rings as queues\<close>

definition ring_ok :: "tty_ring \<Rightarrow> bool" where
  "ring_ok r \<longleftrightarrow> unat (rg_head r) < 4096 \<and> unat (rg_tail r) < 4096"

definition ring_count :: "tty_ring \<Rightarrow> nat" where
  "ring_count r = (unat (rg_tail r) + 4096 - unat (rg_head r)) mod 4096"

definition ring_bytes :: "tty_ring \<Rightarrow> u8 list" where
  "ring_bytes r = ring_list 4096 (rg_buf r) (unat (rg_head r)) (ring_count r)"

definition ring_take :: "tty_ring \<Rightarrow> u8 option \<times> tty_ring" where
  "ring_take r = (let (c, r') = tty_ring_pop r in (if c < 0 then None else Some (word_of_int c), r'))"

lemma length_ring_bytes [simp]: "length (ring_bytes r) = ring_count r"
  by (simp add: ring_bytes_def)

lemma unat_next_4096: "unat (w :: u32) < 4096 \<Longrightarrow> unat ((w + 1) mod 4096) = Suc (unat w) mod 4096"
  by (simp add: unat_mod unat_Suc_no_wrap word_unat_eq_iff unsigned_minus_1_eq_mask mask_eq_exp_minus_1)

lemma ring_count_cases:
  assumes "ring_ok r"
  shows "ring_count r = (if unat (rg_head r) \<le> unat (rg_tail r) then unat (rg_tail r) - unat (rg_head r)
     else unat (rg_tail r) + 4096 - unat (rg_head r))"
  using assms by (auto simp: ring_count_def ring_ok_def mod_if)

lemma ring_tail:
  assumes "ring_ok r"
  shows "unat (rg_tail r) = (unat (rg_head r) + ring_count r) mod 4096" "ring_count r < 4096"
  using assms by (simp_all add: ring_count_cases) (auto simp: ring_ok_def mod_if)

lemma ring_empty_iff: "ring_ok r \<Longrightarrow> tty_ring_empty r \<longleftrightarrow> ring_bytes r = []"
  by (auto simp: tty_ring_empty_def ring_count_cases ring_ok_def word_unat_eq_iff simp flip: length_0_conv)

lemma ring_full_iff:
  assumes "ring_ok r"
  shows "tty_ring_full r \<longleftrightarrow> ring_count r = 4095"
proof -
  have "tty_ring_full r \<longleftrightarrow> Suc (unat (rg_tail r)) mod 4096 = unat (rg_head r)"
    using assms by (simp add: tty_ring_full_def ring_ok_def word_unat_eq_iff unat_next_4096)
  then show ?thesis using assms by (simp add: ring_count_cases) (auto simp: ring_ok_def mod_if)
qed

lemma ring_push:
  assumes "ring_ok r"
  shows "ring_ok (tty_ring_push c r)" "ring_count r < 4095 \<Longrightarrow> ring_bytes (tty_ring_push c r) = ring_bytes r @ [c]"
    "ring_count r = 4095 \<Longrightarrow> tty_ring_push c r = r"
proof -
  have t: "unat ((rg_tail r + 1) mod 4096) = Suc (unat (rg_tail r)) mod 4096"
    using assms by (simp add: ring_ok_def unat_next_4096)
  show "ring_ok (tty_ring_push c r)" using assms t by (simp add: ring_ok_def tty_ring_push_def)
  show "tty_ring_push c r = r" if "ring_count r = 4095" using that assms by (simp add: tty_ring_push_def ring_full_iff)
  assume n: "ring_count r < 4095"
  let ?r = "r\<lparr>rg_buf := (rg_buf r)(unat (rg_tail r) := c), rg_tail := (rg_tail r + 1) mod 4096\<rparr>"
  have p: "tty_ring_push c r = ?r" using n assms by (simp add: tty_ring_push_def ring_full_iff)
  have ok: "ring_ok ?r" using assms t by (simp add: ring_ok_def)
  have "ring_count ?r = Suc (ring_count r)"
    using n assms ring_count_cases [OF ok] by (simp add: ring_count_cases t) (auto simp: ring_ok_def mod_if split: if_splits)
  then show "ring_bytes (tty_ring_push c r) = ring_bytes r @ [c]"
    using n ring_list_push [of "ring_count r" 4096 "rg_buf r" "unat (rg_head r)" c] ring_tail(1) [OF assms]
    by (simp add: ring_bytes_def p)
qed

lemma ring_pop:
  assumes "ring_ok r" "ring_bytes r = x # xs"
  shows "fst (tty_ring_pop r) = uint x" "ring_ok (snd (tty_ring_pop r))" "ring_bytes (snd (tty_ring_pop r)) = xs"
proof -
  have ne: "\<not> tty_ring_empty r" using assms by (simp add: ring_empty_iff)
  have h: "unat ((rg_head r + 1) mod 4096) = Suc (unat (rg_head r)) mod 4096"
    using assms by (simp add: ring_ok_def unat_next_4096)
  let ?r = "r\<lparr>rg_head := (rg_head r + 1) mod 4096\<rparr>"
  have p: "tty_ring_pop r = (uint (rg_buf r (unat (rg_head r))), ?r)" using ne by (simp add: tty_ring_pop_def)
  have ok: "ring_ok ?r" using assms(1) h by (simp add: ring_ok_def)
  have c: "0 < ring_count r" using arg_cong [OF assms(2), of length] by simp
  have "ring_count ?r = ring_count r - 1"
    using c assms(1) ring_count_cases [OF ok] by (simp add: ring_count_cases h) (auto simp: ring_ok_def mod_if split: if_splits)
  then have "ring_bytes r = rg_buf r (unat (rg_head r)) # ring_bytes ?r"
    using ring_list_pop [of "unat (rg_head r)" 4096 "ring_count r" "rg_buf r"] c assms(1) h by (simp add: ring_bytes_def ring_ok_def)
  then show "fst (tty_ring_pop r) = uint x" "ring_ok (snd (tty_ring_pop r))" "ring_bytes (snd (tty_ring_pop r)) = xs"
    using assms(2) ok by (simp_all add: p)
qed

interpretation ttyq: bounded_fifo ring_bytes 4095 ring_ok tty_ring_push ring_take
proof unfold_locales
  fix r :: tty_ring and c x :: u8 and xs
  assume r: "ring_ok r"
  show "length (ring_bytes r) \<le> 4095" using ring_tail(2) [OF r] by simp
  show "ring_ok (tty_ring_push c r)" by (rule ring_push(1) [OF r])
  show "ring_bytes (tty_ring_push c r) = ring_bytes r @ [c]" if "length (ring_bytes r) < 4095"
    using ring_push(2) [OF r] that by simp
  show "ring_bytes (tty_ring_push c r) = ring_bytes r" if "length (ring_bytes r) = 4095"
    using ring_push(3) [OF r] that by simp
  show "fst (ring_take r) = None \<and> ring_bytes (snd (ring_take r)) = []" if "ring_bytes r = []"
    using that r by (simp add: ring_take_def tty_ring_pop_def ring_empty_iff)
  show "fst (ring_take r) = Some x \<and> ring_bytes (snd (ring_take r)) = xs" if "ring_bytes r = x # xs"
    using ring_pop [OF r that] by (simp add: ring_take_def split_beta)
  show "ring_ok (snd (ring_take r))"
  proof (cases "ring_bytes r")
    case Nil
    then show ?thesis using r by (simp add: ring_take_def tty_ring_pop_def ring_empty_iff)
  next
    case (Cons a as)
    then show ?thesis using ring_pop(2) [OF r] by (simp add: ring_take_def split_beta)
  qed
qed

lemma fold_push_ok: "ring_ok r \<Longrightarrow> ring_ok (fold tty_ring_push cs r)"
  by (induction cs arbitrary: r) (simp_all add: ring_push(1))

section \<open>Editing a line\<close>

definition tty_ok :: "tty \<Rightarrow> bool" where
  "tty_ok t \<longleftrightarrow> ring_ok (t_input t) \<and> ring_ok (t_canon t) \<and> ring_ok (t_output t)"

text \<open>The settings of a terminal, which no input changes.\<close>

definition tty_mode :: "tty \<Rightarrow> bool \<times> u32 \<times> tty_cc \<times> u32" where
  "tty_mode t = (t_valid t, t_flags t, t_cc t, t_fg_pgid t)"

definition edit_key :: "tty_cc \<Rightarrow> u8 \<Rightarrow> u8 list \<Rightarrow> u8 list" where
  "edit_key cc c l = (if c = c_erase cc then butlast l else if c = c_kill cc then [] else l @ [c])"

lemma echo_same:
  "t_input (echo cs t) = t_input t" "t_canon (echo cs t) = t_canon t" "tty_mode (echo cs t) = tty_mode t"
  "ring_ok (t_output t) \<Longrightarrow> ring_ok (t_output (echo cs t))"
  by (simp_all add: echo_def tty_mode_def tty_ok_def fold_push_ok)

lemma move_line_all:
  assumes "ring_ok canon" "ring_ok inp"
  shows "\<exists>c' i'. move_line canon inp = Some (c', i') \<and> ring_ok c' \<and> ring_ok i' \<and> ring_bytes c' = []
    \<and> ring_bytes i' = ring_bytes inp @ take (4095 - ring_count inp) (ring_bytes canon)"
  using assms
proof (induction "ring_bytes canon" arbitrary: canon inp)
  case Nil
  then have "rg_head canon = rg_tail canon" using ring_empty_iff [of canon] by (simp add: tty_ring_empty_def)
  then show ?case using Nil by (simp add: move_line.simps)
next
  case (Cons x xs)
  note p = ring_pop [OF Cons.prems(1) Cons.hyps(2) [symmetric]]
  have "rg_head canon \<noteq> rg_tail canon" using Cons.hyps(2) ring_empty_iff [OF Cons.prems(1)] by (auto simp: tty_ring_empty_def)
  then have m: "move_line canon inp = move_line (snd (tty_ring_pop canon)) (tty_ring_push x inp)"
    using p(1) by (subst move_line.simps) (simp add: split_beta)
  obtain c' i' where r: "move_line canon inp = Some (c', i')" "ring_ok c'" "ring_ok i'" "ring_bytes c' = []"
    "ring_bytes i' = ring_bytes (tty_ring_push x inp) @ take (4095 - ring_count (tty_ring_push x inp)) xs"
    using Cons.hyps(1) [OF p(3) [symmetric] p(2) ring_push(1) [OF Cons.prems(2)]] p(3) m by metis
  have "ring_bytes i' = ring_bytes inp @ take (4095 - ring_count inp) (x # xs)"
  proof (cases "ring_count inp < 4095")
    case True
    note b = ring_push(2) [OF Cons.prems(2) True, of x]
    have "ring_count (tty_ring_push x inp) = Suc (ring_count inp)" using arg_cong [OF b, of length] by simp
    then show ?thesis using r(5) b True by (simp add: take_Cons' Suc_diff_Suc)
  next
    case False
    then have "ring_count inp = 4095" using ring_tail(2) [OF Cons.prems(2)] by simp
    then show ?thesis using r(5) ring_push(3) [OF Cons.prems(2)] by simp
  qed
  then show ?case using r Cons.hyps(2) by metis
qed

lemma erase_last:
  assumes "ring_ok r" "rg_tail r \<noteq> rg_head r"
  shows "ring_ok (r\<lparr>rg_tail := (if rg_tail r = 0 then 4095 else rg_tail r - 1)\<rparr>)"
    "ring_bytes (r\<lparr>rg_tail := (if rg_tail r = 0 then 4095 else rg_tail r - 1)\<rparr>) = butlast (ring_bytes r)"
proof -
  let ?r = "r\<lparr>rg_tail := (if rg_tail r = 0 then 4095 else rg_tail r - 1)\<rparr>"
  have t: "unat (rg_tail ?r) = (if unat (rg_tail r) = 0 then 4095 else unat (rg_tail r) - 1)"
    by (simp add: unat_minus_1 unat_eq_0)
  show ok: "ring_ok ?r" using assms(1) t by (auto simp: ring_ok_def)
  have "unat (rg_tail r) \<noteq> unat (rg_head r)" using assms(2) by (simp add: word_unat_eq_iff)
  then have "ring_count r = Suc (ring_count ?r)"
    using ring_count_cases [OF assms(1)] ring_count_cases [OF ok] assms(1) t by (auto simp: ring_ok_def split: if_splits)
  then show "ring_bytes ?r = butlast (ring_bytes r)" by (simp add: ring_bytes_def ring_list_def)
qed

lemma tty_edit_key:
  assumes "tty_ok t" "has_flag TTY_ICANON t" "c \<noteq> c_eof (t_cc t)" "c \<noteq> LF" "ring_count (t_canon t) < 4095"
  shows "\<exists>t'. tty_edit c t = Some t' \<and> tty_ok t' \<and> tty_mode t' = tty_mode t \<and> t_input t' = t_input t
    \<and> ring_bytes (t_canon t') = edit_key (t_cc t) c (ring_bytes (t_canon t))"
proof -
  have c: "ring_ok (t_canon t)" using assms(1) by (simp add: tty_ok_def)
  consider "c = c_erase (t_cc t)" | "c \<noteq> c_erase (t_cc t)" "c = c_kill (t_cc t)" | "c \<noteq> c_erase (t_cc t)" "c \<noteq> c_kill (t_cc t)" by blast
  then show ?thesis
  proof cases
    case 1
    show ?thesis
    proof (cases "rg_tail (t_canon t) = rg_head (t_canon t)")
      case True
      then have "ring_bytes (t_canon t) = []" using ring_empty_iff [OF c] by (simp add: tty_ring_empty_def)
      then show ?thesis using 1 True assms by (simp add: tty_edit_def tty_erase_def edit_key_def)
    next
      case False
      then show ?thesis using 1 assms erase_last [OF c False]
        by (cases "rg_tail (t_canon t) = 0") (simp_all add: tty_edit_def tty_erase_def edit_key_def echo_same tty_ok_def, simp_all add: tty_mode_def)
    qed
  next
    case 2
    have "ring_ok ((t_canon t)\<lparr>rg_head := 0, rg_tail := 0\<rparr>)" by (simp add: ring_ok_def)
    then show ?thesis using 2 assms
      by (simp add: tty_edit_def tty_kill_def edit_key_def echo_same)
        (simp add: tty_ok_def tty_mode_def echo_same ring_bytes_def ring_count_def)
  next
    case 3
    then show ?thesis using assms ring_push(1,2) [OF c]
      by (simp add: tty_edit_def tty_append_def edit_key_def echo_same) (simp add: tty_ok_def tty_mode_def echo_same)
  qed
qed

lemma tty_edit_enter:
  assumes "tty_ok t" "has_flag TTY_ICANON t" "LF \<notin> {c_eof (t_cc t), c_erase (t_cc t), c_kill (t_cc t)}"
    "ring_count (t_input t) + ring_count (t_canon t) < 4095"
  shows "\<exists>t'. tty_edit LF t = Some t' \<and> tty_ok t' \<and> tty_mode t' = tty_mode t
    \<and> ring_bytes (t_input t') = ring_bytes (t_input t) @ ring_bytes (t_canon t) @ [LF] \<and> ring_bytes (t_canon t') = []"
proof -
  let ?c = "tty_ring_push LF (t_canon t)"
  have c: "ring_ok ?c" "ring_bytes ?c = ring_bytes (t_canon t) @ [LF]"
    using assms(1,4) ring_push(1,2) [of "t_canon t"] by (simp_all add: tty_ok_def)
  obtain c' i' where m: "move_line ?c (t_input t) = Some (c', i')" "ring_ok c'" "ring_ok i'" "ring_bytes c' = []"
    "ring_bytes i' = ring_bytes (t_input t) @ take (4095 - ring_count (t_input t)) (ring_bytes ?c)"
    using move_line_all [OF c(1), of "t_input t"] assms(1) by (auto simp: tty_ok_def)
  have "ring_bytes i' = ring_bytes (t_input t) @ ring_bytes (t_canon t) @ [LF]" using m(5) assms(4) c(2) by simp
  then show ?thesis
    using assms m by (simp add: tty_edit_def tty_append_def echo_same Let_def) (simp add: tty_ok_def tty_mode_def echo_same echo_def fold_push_ok ring_push)
qed

section \<open>Typing and reading\<close>

primrec type_keys :: "nat \<Rightarrow> u8 list \<Rightarrow> 'a tty_st_scheme \<Rightarrow> 'a tty_st_scheme option" where
  "type_keys i [] s = Some s"
| "type_keys i (c # cs) s = (case tty_input_char (Some i) c s of None \<Rightarrow> None | Some t \<Rightarrow> type_keys i cs t)"

primrec read_lines ::
  "(nat \<Rightarrow> 'a tty_st_scheme \<Rightarrow> 'a tty_st_scheme) \<Rightarrow> nat \<Rightarrow> nat \<Rightarrow> nat \<Rightarrow> 'a tty_st_scheme \<Rightarrow> (u8 list list \<times> 'a tty_st_scheme) option" where
  "read_lines yield i n 0 s = Some ([], s)"
| "read_lines yield i n (Suc k) s =
     (case tty_read yield (Some i) True n s of
        None \<Rightarrow> None
      | Some (_, l, s1) \<Rightarrow> map_option (\<lambda>(ls, s2). (l # ls, s2)) (read_lines yield i n k s1))"

text \<open>Keys that are neither line ends nor end-of-file nor signals, and lines whose end is an ordinary key.\<close>

definition quiet :: "tty \<Rightarrow> u8 \<Rightarrow> bool" where
  "quiet t c \<longleftrightarrow> c \<noteq> c_eof (t_cc t) \<and> (has_flag TTY_ISIG t \<longrightarrow> c \<notin> {c_intr (t_cc t), c_quit (t_cc t), c_susp (t_cc t)})"

definition plain :: "tty \<Rightarrow> u8 \<Rightarrow> bool" where
  "plain t c \<longleftrightarrow> quiet t c \<and> c \<notin> {CR, LF, 0xFF}"

definition cooked :: "tty \<Rightarrow> bool" where
  "cooked t \<longleftrightarrow> t_valid t \<and> has_flag TTY_ICANON t \<and> tty_ok t \<and> quiet t LF \<and> LF \<notin> {c_erase (t_cc t), c_kill (t_cc t)}"

lemma mode_same:
  assumes "tty_mode t' = tty_mode t"
  shows "quiet t' = quiet t" "plain t' = plain t" "t_cc t' = t_cc t" "tty_ok t' \<Longrightarrow> cooked t \<Longrightarrow> cooked t'" "has_flag f t' = has_flag f t"
proof -
  have e: "t_valid t' = t_valid t" "t_flags t' = t_flags t" "t_cc t' = t_cc t" using assms by (simp_all add: tty_mode_def)
  then have f: "has_flag f t' = has_flag f t" for f by (simp add: has_flag_def)
  then show "quiet t' = quiet t" by (simp add: fun_eq_iff quiet_def e)
  then show "plain t' = plain t" "t_cc t' = t_cc t" "tty_ok t' \<Longrightarrow> cooked t \<Longrightarrow> cooked t'" "has_flag f t' = has_flag f t"
    using e f by (simp_all add: fun_eq_iff plain_def cooked_def)
qed

lemma upd_tty_simps [simp]:
  "ttys (upd_tty i f s) i = f (ttys s i)" "upd_tty i f (upd_tty i g s) = upd_tty i (f \<circ> g) s" "upd_tty i (\<lambda>_. ttys s i) s = s"
  by (simp_all add: upd_tty_def)

lemma input_quiet:
  assumes "t_valid (ttys s i)" "quiet (ttys s i) c" "c \<noteq> CR"
  shows "tty_input_char (Some i) c s = map_option (\<lambda>t'. upd_tty i (\<lambda>_. t') s) (tty_edit c (ttys s i))"
  using assms by (auto simp: tty_input_char_def quiet_def Let_def)

lemma edit_key_bounds:
  "length (edit_key cc c l) \<le> Suc (length l)" "set (edit_key cc c l) \<subseteq> insert c (set l)"
  by (auto simp: edit_key_def dest: in_set_butlastD)

lemma edit_keys_length: "length (fold (edit_key cc) cs l) \<le> length l + length cs"
proof (induction cs arbitrary: l)
  case (Cons c cs)
  from Cons [of "edit_key cc c l"] edit_key_bounds(1) [of cc c l] show ?case by simp
qed simp

lemma edit_keys_set: "set (fold (edit_key cc) cs l) \<subseteq> set l \<union> set cs"
proof (induction cs arbitrary: l)
  case (Cons c cs)
  from Cons [of "edit_key cc c l"] edit_key_bounds(2) [of cc c l] show ?case by auto
qed simp

lemma type_plain:
  assumes "cooked (ttys s i)" "\<forall>c\<in>set cs. plain (ttys s i) c" "ring_count (t_canon (ttys s i)) + length cs \<le> 4095"
  shows "\<exists>t. type_keys i cs s = Some (upd_tty i (\<lambda>_. t) s) \<and> tty_ok t \<and> tty_mode t = tty_mode (ttys s i)
    \<and> t_input t = t_input (ttys s i) \<and> ring_bytes (t_canon t) = fold (edit_key (t_cc (ttys s i))) cs (ring_bytes (t_canon (ttys s i)))"
  using assms
proof (induction cs arbitrary: s)
  case Nil
  then show ?case by (intro exI [of _ "ttys s i"]) (simp add: cooked_def)
next
  case (Cons c cs)
  have c: "quiet (ttys s i) c" "c \<noteq> CR" "c \<noteq> LF" "c \<noteq> c_eof (t_cc (ttys s i))" using Cons.prems(2) by (auto simp: plain_def quiet_def)
  obtain t where t: "tty_edit c (ttys s i) = Some t" "tty_ok t" "tty_mode t = tty_mode (ttys s i)" "t_input t = t_input (ttys s i)"
    "ring_bytes (t_canon t) = edit_key (t_cc (ttys s i)) c (ring_bytes (t_canon (ttys s i)))"
    using tty_edit_key [of "ttys s i" c] Cons.prems(1,3) c by (auto simp: cooked_def)
  define u where "u = upd_tty i (\<lambda>_. t) s"
  have u: "type_keys i (c # cs) s = type_keys i cs u" "ttys u i = t"
    using input_quiet [of s i c] Cons.prems(1) c t(1) by (simp_all add: cooked_def u_def)
  have "ring_count (t_canon t) \<le> Suc (ring_count (t_canon (ttys s i)))"
    using edit_key_bounds(1) [of "t_cc (ttys s i)" c "ring_bytes (t_canon (ttys s i))"] by (simp add: t(5) [symmetric])
  then show ?case
    using Cons.IH [of u] Cons.prems t(2,4,5) mode_same [OF t(3)] u t(3) by (simp add: u_def comp_def)
qed

lemma type_enter:
  assumes "cooked (ttys s i)" "ring_count (t_input (ttys s i)) + ring_count (t_canon (ttys s i)) < 4095"
  shows "\<exists>t. tty_input_char (Some i) LF s = Some (upd_tty i (\<lambda>_. t) s) \<and> tty_ok t \<and> tty_mode t = tty_mode (ttys s i)
    \<and> ring_bytes (t_input t) = ring_bytes (t_input (ttys s i)) @ ring_bytes (t_canon (ttys s i)) @ [LF] \<and> ring_bytes (t_canon t) = []"
  using tty_edit_enter [of "ttys s i"] input_quiet [of s i LF] assms by (auto simp: cooked_def quiet_def)

lemma type_keys_append: "type_keys i (a @ b) s = (case type_keys i a s of None \<Rightarrow> None | Some t \<Rightarrow> type_keys i b t)"
  by (induction a arbitrary: s) (auto split: option.splits)

lemma type_line:
  assumes "cooked (ttys s i)" "ring_bytes (t_canon (ttys s i)) = []" "\<forall>c\<in>set cs. plain (ttys s i) c"
    "ring_count (t_input (ttys s i)) + length cs < 4095"
  shows "\<exists>t. type_keys i (cs @ [LF]) s = Some (upd_tty i (\<lambda>_. t) s) \<and> cooked t \<and> tty_mode t = tty_mode (ttys s i)
    \<and> ring_bytes (t_input t) = ring_bytes (t_input (ttys s i)) @ fold (edit_key (t_cc (ttys s i))) cs [] @ [LF] \<and> ring_bytes (t_canon t) = []"
proof -
  have z: "ring_count (t_canon (ttys s i)) = 0" using arg_cong [OF assms(2), of length] by simp
  obtain t where t: "type_keys i cs s = Some (upd_tty i (\<lambda>_. t) s)" "tty_ok t" "tty_mode t = tty_mode (ttys s i)"
    "t_input t = t_input (ttys s i)" "ring_bytes (t_canon t) = fold (edit_key (t_cc (ttys s i))) cs []"
    using type_plain [OF assms(1,3)] assms(2,4) z by auto
  have "cooked t" using mode_same(4) [OF t(3,2) assms(1)] .
  moreover have "ring_count (t_canon t) \<le> length cs"
    using edit_keys_length [of "t_cc (ttys s i)" cs "[]"] by (simp add: t(5) [symmetric])
  ultimately obtain u where u: "tty_input_char (Some i) LF (upd_tty i (\<lambda>_. t) s) = Some (upd_tty i (\<lambda>_. u) s)" "tty_ok u"
    "tty_mode u = tty_mode t" "ring_bytes (t_input u) = ring_bytes (t_input t) @ ring_bytes (t_canon t) @ [LF]" "ring_bytes (t_canon u) = []"
    using type_enter [of "upd_tty i (\<lambda>_. t) s" i] assms(4) t(4) by (auto simp: comp_def)
  show ?thesis
    using t u mode_same(4) [OF u(3,2) \<open>cooked t\<close>] by (intro exI [of _ u]) (simp add: type_keys_append)
qed

lemma type_lines:
  assumes "cooked (ttys s i)" "ring_bytes (t_canon (ttys s i)) = []" "\<forall>l\<in>set ls. \<forall>c\<in>set l. plain (ttys s i) c"
    "ring_count (t_input (ttys s i)) + (\<Sum>l\<leftarrow>ls. Suc (length l)) \<le> 4095"
  shows "\<exists>t. type_keys i (concat (map (\<lambda>l. l @ [LF]) ls)) s = Some (upd_tty i (\<lambda>_. t) s) \<and> cooked t
    \<and> tty_mode t = tty_mode (ttys s i) \<and> ring_bytes (t_canon t) = []
    \<and> ring_bytes (t_input t) = ring_bytes (t_input (ttys s i)) @ concat (map (\<lambda>l. fold (edit_key (t_cc (ttys s i))) l [] @ [LF]) ls)"
  using assms
proof (induction ls arbitrary: s)
  case Nil
  then show ?case by (intro exI [of _ "ttys s i"]) simp
next
  case (Cons l ls)
  obtain t where t: "type_keys i (l @ [LF]) s = Some (upd_tty i (\<lambda>_. t) s)" "cooked t" "tty_mode t = tty_mode (ttys s i)"
    "ring_bytes (t_input t) = ring_bytes (t_input (ttys s i)) @ fold (edit_key (t_cc (ttys s i))) l [] @ [LF]" "ring_bytes (t_canon t) = []"
    using type_line [OF Cons.prems(1,2), of l] Cons.prems(3,4) by auto
  have "ring_count (t_input t) \<le> ring_count (t_input (ttys s i)) + Suc (length l)"
    using edit_keys_length [of "t_cc (ttys s i)" l "[]"] arg_cong [OF t(4), of length] by simp
  then have "\<exists>t'. type_keys i (concat (map (\<lambda>l. l @ [LF]) ls)) (upd_tty i (\<lambda>_. t) s) = Some (upd_tty i (\<lambda>_. t') (upd_tty i (\<lambda>_. t) s))
    \<and> cooked t' \<and> tty_mode t' = tty_mode t \<and> ring_bytes (t_canon t') = []
    \<and> ring_bytes (t_input t') = ring_bytes (t_input t) @ concat (map (\<lambda>l. fold (edit_key (t_cc t)) l [] @ [LF]) ls)"
    using Cons.IH [of "upd_tty i (\<lambda>_. t) s"] Cons.prems(3,4) t(2,5) mode_same(2) [OF t(3)] by simp
  moreover have "type_keys i (concat (map (\<lambda>l. l @ [LF]) (l # ls))) s
      = type_keys i (concat (map (\<lambda>l. l @ [LF]) ls)) (upd_tty i (\<lambda>_. t) s)"
    using t(1) type_keys_append [of i "l @ [LF]" "concat (map (\<lambda>l. l @ [LF]) ls)" s] by simp
  ultimately show ?case using t(3,4) mode_same(3) [OF t(3)] by (auto simp: comp_def)
qed

lemma read_loop_line:
  assumes "ring_ok r" "ring_bytes r = l @ LF # rest" "LF \<notin> set l" "0xFF \<notin> set l" "length l < n"
  shows "\<exists>r'. read_loop True n r = (l @ [LF], r') \<and> ring_ok r' \<and> ring_bytes r' = rest"
  using assms
proof (induction l arbitrary: r n)
  case Nil
  then obtain m where n: "n = Suc m" by (cases n) auto
  have "\<not> tty_ring_empty r" using Nil ring_empty_iff by simp
  then show ?case using n ring_pop [OF Nil(1), of LF rest] Nil(2) by (simp add: split_beta)
next
  case (Cons c l)
  then obtain m where n: "n = Suc m" by (cases n) auto
  have "\<not> tty_ring_empty r" using Cons.prems ring_empty_iff by simp
  then show ?case
    using n ring_pop [OF Cons.prems(1), of c "l @ LF # rest"] Cons.prems Cons.IH [of "snd (tty_ring_pop r)" m]
    by (auto simp: split_beta)
qed

lemma tty_read_line:
  assumes "cooked (ttys s i)" "ring_bytes (t_input (ttys s i)) = l @ LF # rest" "LF \<notin> set l" "0xFF \<notin> set l" "length l < n"
  shows "\<exists>t. tty_read yield (Some i) True n s = Some (int (length l) + 1, l @ [LF], upd_tty i (\<lambda>_. t) s) \<and> cooked t
    \<and> tty_mode t = tty_mode (ttys s i) \<and> ring_bytes (t_input t) = rest"
proof -
  have r: "ring_ok (t_input (ttys s i))" "has_flag TTY_ICANON (ttys s i)" using assms(1) by (simp_all add: cooked_def tty_ok_def)
  obtain r' where r': "read_loop True n (t_input (ttys s i)) = (l @ [LF], r')" "ring_ok r'" "ring_bytes r' = rest"
    using read_loop_line [OF r(1) assms(2-5)] by blast
  have "\<not> tty_ring_empty (t_input (ttys s i))" using r(1) assms(2) by (simp add: ring_empty_iff)
  then have w: "wait_input yield i 0 s = Some s" by (simp add: wait_input.simps)
  let ?t = "(ttys s i)\<lparr>t_input := r'\<rparr>"
  have m: "tty_mode ?t = tty_mode (ttys s i)" by (simp add: tty_mode_def)
  have "cooked ?t" using mode_same(4) [OF m _ assms(1)] assms(1) r'(2) by (simp add: cooked_def tty_ok_def)
  moreover have "tty_read yield (Some i) True n s = Some (int (length l) + 1, l @ [LF], upd_tty i (\<lambda>_. ?t) s)"
    using assms(5) r(2) r'(1) w by (simp add: tty_read_def) (simp add: upd_tty_def)
  ultimately show ?thesis using m r'(3) by (intro exI [of _ ?t]) simp
qed

lemma read_lines_all:
  assumes "cooked (ttys s i)" "ring_bytes (t_input (ttys s i)) = concat (map (\<lambda>l. l @ [LF]) ls)"
    "\<forall>l\<in>set ls. LF \<notin> set l \<and> 0xFF \<notin> set l \<and> length l < n"
  shows "\<exists>t. read_lines yield i n (length ls) s = Some (map (\<lambda>l. l @ [LF]) ls, upd_tty i (\<lambda>_. t) s) \<and> ring_bytes (t_input t) = []"
  using assms
proof (induction ls arbitrary: s)
  case Nil
  then show ?case by (intro exI [of _ "ttys s i"]) simp
next
  case (Cons l ls)
  obtain t where t: "tty_read yield (Some i) True n s = Some (int (length l) + 1, l @ [LF], upd_tty i (\<lambda>_. t) s)" "cooked t"
    "ring_bytes (t_input t) = concat (map (\<lambda>l. l @ [LF]) ls)"
    using tty_read_line [OF Cons.prems(1), of l "concat (map (\<lambda>l. l @ [LF]) ls)" n yield] Cons.prems(2,3) by auto
  then show ?case using Cons.IH [of "upd_tty i (\<lambda>_. t) s"] Cons.prems(3) by (auto simp: comp_def)
qed

text \<open>
  C37: what is typed is what is read. On a terminal in canonical mode with nothing pending, lines are typed key by key, with erase
  and kill-line keys anywhere in them. Reading as many lines as were typed then returns them in order, each with
  its editing applied and its line end, although the bytes pass through two rings that wrap; nothing is left over, and no other
  part of the system changes. The lines have at most 4095 bytes in all.
\<close>

theorem tty_lines_read:
  assumes "cooked (ttys s i)" "ring_bytes (t_canon (ttys s i)) = []" "ring_bytes (t_input (ttys s i)) = []"
    and "\<forall>l\<in>set ls. length l < n \<and> (\<forall>c\<in>set l. plain (ttys s i) c)" "(\<Sum>l\<leftarrow>ls. Suc (length l)) \<le> 4095"
  shows "\<exists>t u. type_keys i (concat (map (\<lambda>l. l @ [LF]) ls)) s = Some t
    \<and> read_lines yield i n (length ls) t = Some (map (\<lambda>l. fold (edit_key (t_cc (ttys s i))) l [] @ [LF]) ls, upd_tty i (\<lambda>_. u) s)
    \<and> ring_bytes (t_input u) = []"
proof -
  let ?e = "\<lambda>l. fold (edit_key (t_cc (ttys s i))) l []"
  have z: "ring_count (t_input (ttys s i)) = 0" using arg_cong [OF assms(3), of length] by simp
  obtain t where t: "type_keys i (concat (map (\<lambda>l. l @ [LF]) ls)) s = Some (upd_tty i (\<lambda>_. t) s)" "cooked t"
    "ring_bytes (t_input t) = concat (map (\<lambda>l. l @ [LF]) (map ?e ls))"
    using type_lines [OF assms(1,2), of ls] assms(3-5) z by (auto simp: comp_def)
  have "LF \<notin> set (?e l) \<and> 0xFF \<notin> set (?e l) \<and> length (?e l) < n" if "l \<in> set ls" for l
    using assms(4) that edit_keys_set [of "t_cc (ttys s i)" l "[]"] edit_keys_length [of "t_cc (ttys s i)" l "[]"]
    by (fastforce simp: plain_def)
  then obtain u where "read_lines yield i n (length ls) (upd_tty i (\<lambda>_. t) s) = Some (map (\<lambda>l. l @ [LF]) (map ?e ls), upd_tty i (\<lambda>_. u) s)"
    "ring_bytes (t_input u) = []"
    using read_lines_all [of "upd_tty i (\<lambda>_. t) s" i "map ?e ls" n yield] t(2,3) by (auto simp: comp_def)
  then show ?thesis using t(1) by (auto simp: comp_def)
qed

text \<open>The terminals as \<open>tty_init\<close> leaves them.\<close>

definition tty_demo :: tty_st where
  "tty_demo = tty_init (proc_st.extend sched_demo \<lparr>ttys = \<lambda>_. undefined, ptys = \<lambda>_. undefined, active_tty = 0\<rparr>)"

lemma tty_demo_sel:
  "cooked (ttys tty_demo i)" "ring_bytes (t_canon (ttys tty_demo i)) = []" "ring_bytes (t_input (ttys tty_demo i)) = []"
  "t_cc (ttys tty_demo i) = \<lparr>c_intr = 3, c_quit = 0x1C, c_erase = 0x7F, c_kill = 0x15, c_eof = 4, c_susp = 0x1A\<rparr>"
  "t_flags (ttys tty_demo i) = 31" "t_fg_pgid (ttys tty_demo i) = 1" "t_valid (ttys tty_demo i)"
  by (simp_all add: tty_demo_def tty_init_def cooked_def has_flag_def tty_ok_def ring_ok_def zero_ring_def quiet_def ring_bytes_def ring_count_def)

theorem tty_lines_read_witness:
  "\<exists>t u. type_keys 2 [0x68, 0x78, 0x7F, 0x69, LF, 0x79, LF] tty_demo = Some t
    \<and> read_lines (\<lambda>_ s. s) 2 64 2 t = Some ([[0x68, 0x69, LF], [0x79, LF]], u)"
proof -
  have "plain (ttys tty_demo 2) c" if "c \<in> {0x68, 0x78, 0x7F, 0x69, 0x79}" for c
    using that by (auto simp: plain_def quiet_def tty_demo_sel)
  then have "\<forall>l\<in>set [[0x68, 0x78, 0x7F, 0x69], [0x79]]. length l < 64 \<and> (\<forall>c\<in>set l. plain (ttys tty_demo 2) c)" by auto
  moreover have "(\<Sum>l\<leftarrow>[[0x68, 0x78, 0x7F, 0x69], [0x79 :: u8]]. Suc (length l)) \<le> 4095" by simp
  ultimately obtain t u where r: "type_keys 2 (concat (map (\<lambda>l. l @ [LF]) [[0x68, 0x78, 0x7F, 0x69], [0x79]])) tty_demo = Some t"
    "read_lines (\<lambda>_ s. s) 2 64 (length [[0x68, 0x78, 0x7F, 0x69], [0x79 :: u8]]) t
      = Some (map (\<lambda>l. fold (edit_key (t_cc (ttys tty_demo 2))) l [] @ [LF]) [[0x68, 0x78, 0x7F, 0x69], [0x79]], upd_tty 2 (\<lambda>_. u) tty_demo)"
    using tty_lines_read [OF tty_demo_sel(1-3), of "[[0x68, 0x78, 0x7F, 0x69], [0x79]]" 64 2 "\<lambda>_ s. s"] by blast
  have "map (\<lambda>l. fold (edit_key (t_cc (ttys tty_demo 2))) l [] @ [LF]) [[0x68, 0x78, 0x7F, 0x69], [0x79]] = [[0x68, 0x69, LF], [0x79, LF]]"
    by (simp add: edit_key_def tty_demo_sel(4))
  moreover have "concat (map (\<lambda>l. l @ [LF]) [[0x68, 0x78, 0x7F, 0x69], [0x79]]) = [0x68, 0x78, 0x7F, 0x69, LF, 0x79, LF]"
    "length [[0x68, 0x78, 0x7F, 0x69], [0x79 :: u8]] = 2" by simp_all
  ultimately show ?thesis using r by (intro exI [of _ t] exI [of _ "upd_tty 2 (\<lambda>_. u) tty_demo"]) (simp only: conj_absorb simp_thms)
qed

end
