(* ===== verification/Net.thy ===== *)
theory Net
  imports Prelude
begin

unbundle bit_operations_syntax

text \<open>
  The bottom of the network stack: byte order (\<open>include/net/net.h\<close>), the pool of packet buffers and the internet
  checksum (\<open>net/net.c\<close>) and Ethernet frames (\<open>net/ethernet.c\<close>). A received packet is the memory its
  pointer leads to, a function from offsets to bytes, with a length; a packet to be sent is a list of bytes. The network
  card is a parameter: what it returns for a frame, given all frames so far. The frames
  handed to it are kept in \<open>sent\<close>. The contents of a pool buffer are read only by the function that
  allocated it, so only the table of used buffers is state. Log output is left out.
\<close>

section \<open>Bytes of packets\<close>

type_synonym pkt = "nat \<Rightarrow> u8"

definition ld16 :: "pkt \<Rightarrow> nat \<Rightarrow> u16" where
  "ld16 p i = ucast (p i) OR push_bit 8 (ucast (p (i + 1)))"

definition ld32 :: "pkt \<Rightarrow> nat \<Rightarrow> u32" where
  "ld32 p i = ucast (p i) OR push_bit 8 (ucast (p (i + 1))) OR push_bit 16 (ucast (p (i + 2))) OR push_bit 24 (ucast (p (i + 3)))"

definition st16 :: "u16 \<Rightarrow> u8 list" where
  "st16 x = [ucast x, ucast (drop_bit 8 x)]"

definition st32 :: "u32 \<Rightarrow> u8 list" where
  "st32 x = [ucast x, ucast (drop_bit 8 x), ucast (drop_bit 16 x), ucast (drop_bit 24 x)]"

definition htons :: "u16 \<Rightarrow> u16" where
  "htons x = drop_bit 8 x OR push_bit 8 x"

definition htonl :: "u32 \<Rightarrow> u32" where
  "htonl x = (drop_bit 24 x AND 0xFF) OR push_bit 8 (drop_bit 16 x AND 0xFF) OR push_bit 16 (drop_bit 8 x AND 0xFF)
     OR push_bit 24 (x AND 0xFF)"

definition ntohs :: "u16 \<Rightarrow> u16" where
  "ntohs x = htons x"

definition ntohl :: "u32 \<Rightarrow> u32" where
  "ntohl x = htonl x"

section \<open>State\<close>

record net_iface_t =
  if_mac :: "u8 list"
  if_ip :: u32
  if_netmask :: u32
  if_gateway :: u32
  if_up :: bool
  if_send :: bool
  if_poll :: bool

record net_st = kbase +
  net_iface :: net_iface_t
  buf_used :: "nat \<Rightarrow> bool"
  sent :: "u8 list list"

text \<open>
  The surroundings: \<open>nic\<close> is the result of the card for the last of these frames; \<open>irq k\<close> is what interrupts do to the
  state during the k-th turn of a waiting loop.
\<close>

record 's net_env =
  nic :: "u8 list list \<Rightarrow> int"
  irq :: "nat \<Rightarrow> 's \<Rightarrow> 's"

abbreviation (input) NET_BUF_COUNT :: nat where "NET_BUF_COUNT \<equiv> 64"
abbreviation (input) NET_BUF_SIZE :: nat where "NET_BUF_SIZE \<equiv> 2048"
abbreviation (input) ETH_HDR :: nat where "ETH_HDR \<equiv> 14"
abbreviation (input) ETH_TYPE_IP4 :: u16 where "ETH_TYPE_IP4 \<equiv> 0x0800"
abbreviation (input) ETH_TYPE_ARP :: u16 where "ETH_TYPE_ARP \<equiv> 0x0806"

definition IP4 :: "u8 \<Rightarrow> u8 \<Rightarrow> u8 \<Rightarrow> u8 \<Rightarrow> u32" where
  "IP4 a b c d = ucast a OR push_bit 8 (ucast b) OR push_bit 16 (ucast c) OR push_bit 24 (ucast d)"

definition net_iface0 :: net_iface_t where
  "net_iface0 = \<lparr>if_mac = [0, 0, 0, 0, 0, 0], if_ip = IP4 10 0 2 15, if_netmask = IP4 255 255 255 0, if_gateway = IP4 10 0 2 2,
     if_up = False, if_send = False, if_poll = False\<rparr>"

definition eth_broadcast :: "u8 list" where
  "eth_broadcast = [0xFF, 0xFF, 0xFF, 0xFF, 0xFF, 0xFF]"

section \<open>Buffers and checksum\<close>

definition net_alloc_buf :: "'a net_st_scheme \<Rightarrow> nat option \<times> 'a net_st_scheme" where
  "net_alloc_buf s =
     (case for_find (\<lambda>i. \<not> buf_used s i) 0 NET_BUF_COUNT of
        None \<Rightarrow> (None, s)
      | Some i \<Rightarrow> (Some i, s\<lparr>buf_used := (buf_used s)(i := True)\<rparr>))"

definition net_free_buf :: "nat \<Rightarrow> 'a net_st_scheme \<Rightarrow> 'a net_st_scheme" where
  "net_free_buf b s = (if b < NET_BUF_COUNT then s\<lparr>buf_used := (buf_used s)(b := False)\<rparr> else s)"

text \<open>The two loops of the checksum: adding the 16-bit words, and folding the carries.\<close>

fun sum_words :: "pkt \<Rightarrow> nat \<Rightarrow> nat \<Rightarrow> u32 \<Rightarrow> u32" where
  "sum_words p i len acc =
     (if len > 1 then sum_words p (i + 2) (len - 2) (acc + ucast (ld16 p i))
      else if len \<noteq> 0 then acc + ucast (p i) else acc)"

declare sum_words.simps [simp del]

function fold_carry :: "u32 \<Rightarrow> u32" where
  "fold_carry acc = (if drop_bit 16 acc \<noteq> 0 then fold_carry ((acc AND 0xFFFF) + drop_bit 16 acc) else acc)"
  by pat_completeness auto

lemma unat_split16: "unat (acc AND 0xFFFF :: u32) = unat acc mod 65536" "unat (drop_bit 16 acc :: u32) = unat acc div 65536"
proof -
  have "acc AND 0xFFFF = take_bit 16 acc" by (simp add: take_bit_eq_mask mask_eq_exp_minus_1)
  then show "unat (acc AND 0xFFFF :: u32) = unat acc mod 65536"
    by (simp add: take_bit_eq_mod unat_mod)
  show "unat (drop_bit 16 acc :: u32) = unat acc div 65536"
    by (simp add: drop_bit_eq_div unat_div)
qed

lemma unat_fold_step: "unat ((acc AND 0xFFFF) + drop_bit 16 acc :: u32) = unat acc mod 65536 + unat acc div 65536"
proof -
  have "unat acc < 2 ^ 32" by (rule unat_u32_less)
  then have "unat acc mod 65536 + unat acc div 65536 < 2 ^ 32" by (simp add: less_mult_imp_div_less add_less_le_mono)
  then show ?thesis unfolding unat_split16 [symmetric] by (subst unat_add_lem [THEN iffD1]) simp_all
qed

termination fold_carry
proof (relation "measure unat")
  fix acc :: u32
  assume "drop_bit 16 acc \<noteq> 0"
  then have "unat acc div 65536 \<noteq> 0" by (simp add: unat_split16(2) [symmetric] unat_eq_0)
  moreover have "unat acc = 65536 * (unat acc div 65536) + unat acc mod 65536" by simp
  ultimately show "((acc AND 0xFFFF) + drop_bit 16 acc, acc) \<in> measure unat"
    unfolding in_measure unat_fold_step by linarith
qed simp

declare fold_carry.simps [simp del]

definition net_checksum :: "pkt \<Rightarrow> nat \<Rightarrow> u16" where
  "net_checksum p len = NOT (ucast (fold_carry (sum_words p 0 len 0)))"

section \<open>Ethernet\<close>

definition net_send_raw :: "'s net_env \<Rightarrow> u8 list \<Rightarrow> 'a net_st_scheme \<Rightarrow> int \<times> 'a net_st_scheme" where
  "net_send_raw E fr s =
     (if \<not> if_up (net_iface s) \<or> \<not> if_send (net_iface s) then (-1, s)
      else (nic E (sent s @ [fr]), s\<lparr>sent := sent s @ [fr]\<rparr>))"

definition eth_send :: "'s net_env \<Rightarrow> u8 list \<Rightarrow> u16 \<Rightarrow> u8 list \<Rightarrow> 'a net_st_scheme \<Rightarrow> int \<times> 'a net_st_scheme" where
  "eth_send E dst ethertype payload s =
     (if \<not> if_up (net_iface s) \<or> \<not> if_send (net_iface s) then (-1, s)
      else if ETH_HDR + length payload > NET_BUF_SIZE then (-1, s)
      else
        (case net_alloc_buf s of
           (None, s1) \<Rightarrow> (-1, s1)
         | (Some b, s1) \<Rightarrow>
             (let fr = dst @ if_mac (net_iface s1) @ st16 (htons ethertype) @ payload;
                  (r, s2) = (nic E (sent s1 @ [fr]), s1\<lparr>sent := sent s1 @ [fr]\<rparr>)
              in (r, net_free_buf b s2))))"

section \<open>Byte order\<close>

lemma htons_htons [simp]: "ntohs (htons x) = x"
proof (rule bit_word_eqI)
  fix n assume "n < LENGTH(16)"
  then show "bit (ntohs (htons x)) n = bit x n"
    by (cases "n < 8") (auto simp: ntohs_def htons_def bit_or_iff bit_drop_bit_eq bit_push_bit_iff dest: bit_imp_le_length)
qed

lemma htonl_htonl [simp]: "ntohl (htonl x) = x"
proof (rule bit_word_eqI)
  fix n assume n: "n < LENGTH(32)"
  have t: "(w AND 0xFF :: u32) = take_bit 8 w" for w by (simp add: take_bit_eq_mask mask_eq_exp_minus_1)
  have h: "bit (htonl y) k \<longleftrightarrow> (if k < 8 then bit y (24 + k) else if k < 16 then bit y (k + 8)
      else if k < 24 then bit y (k - 8) else bit y (k - 24))" if "k < 32" for y k
    using that by (simp only: htonl_def t bit_or_iff bit_drop_bit_eq bit_push_bit_iff bit_take_bit_iff) (auto simp: add.commute)
  from n consider "n < 8" | "8 \<le> n" "n < 16" | "16 \<le> n" "n < 24" | "24 \<le> n" "n < 32" by force
  then show "bit (ntohl (htonl x)) n = bit x n" by cases (auto simp: ntohl_def h)
qed

lemma length_st [simp]: "length (st16 x) = 2" "length (st32 y) = 4"
  by (simp_all add: st16_def st32_def)

lemma ld16_st16: "p i = st16 x ! 0 \<Longrightarrow> p (i + 1) = st16 x ! 1 \<Longrightarrow> ld16 p i = x"
  unfolding ld16_def st16_def by (rule bit_word_eqI) (auto simp: bit_simps not_less)

lemma ld32_st32:
  assumes "p i = st32 x ! 0" "p (i + 1) = st32 x ! 1" "p (i + 2) = st32 x ! 2" "p (i + 3) = st32 x ! 3"
  shows "ld32 p i = x"
proof (rule bit_word_eqI)
  fix n assume "n < LENGTH(32)"
  then consider "n < 8" | "8 \<le> n" "n < 16" | "16 \<le> n" "n < 24" | "24 \<le> n" "n < 32" by force
  then show "bit (ld32 p i) n = bit x n" using assms by cases (auto simp: ld32_def st32_def bit_simps)
qed

section \<open>What the checksum is\<close>

text \<open>The folded sum is the sum modulo 65535, with 65535 in the place of 0 unless all words are 0.\<close>

lemma fold_carry_mod:
  "unat (fold_carry acc) < 65536 \<and> unat (fold_carry acc) mod 65535 = unat acc mod 65535 \<and> (fold_carry acc = 0 \<longleftrightarrow> acc = 0)"
proof (induction acc rule: fold_carry.induct)
  case (1 acc)
  show ?case
  proof (cases "drop_bit 16 acc \<noteq> 0")
    case True
    let ?a = "(acc AND 0xFFFF) + drop_bit 16 acc"
    have e: "unat acc = 65535 * (unat acc div 65536) + unat ?a" unfolding unat_fold_step using div_mult_mod_eq [of "unat acc" 65536] by simp
    then have "unat ?a mod 65535 = unat acc mod 65535" by (metis mod_mult_self4)
    moreover have "?a = 0 \<longleftrightarrow> acc = 0"
    proof -
      have "unat ?a = 0 \<longleftrightarrow> unat acc = 0" unfolding unat_fold_step using div_mult_mod_eq [of "unat acc" 65536] by auto
      then show ?thesis by (simp add: unat_eq_0)
    qed
    moreover have "fold_carry acc = fold_carry ?a" using True by (simp add: fold_carry.simps [of acc])
    ultimately show ?thesis using 1 [OF True] by metis
  next
    case False
    then have "unat acc div 65536 = 0" by (simp add: unat_split16(2) [symmetric])
    then show ?thesis using False by (simp add: fold_carry.simps [of acc] div_eq_0_iff)
  qed
qed

definition wsum :: "pkt \<Rightarrow> nat \<Rightarrow> nat \<Rightarrow> nat" where
  "wsum p i n = (\<Sum>k<n. unat (ld16 p (i + 2 * k)))"

lemma sum_words_even: "sum_words p i (2 * n) acc = acc + of_nat (wsum p i n)"
proof (induction n arbitrary: i acc)
  case 0
  then show ?case by (simp add: sum_words.simps wsum_def)
next
  case (Suc n)
  have "wsum p i (Suc n) = unat (ld16 p i) + wsum p (i + 2) n"
    unfolding wsum_def by (subst sum.lessThan_Suc_shift) (simp add: algebra_simps)
  moreover have "sum_words p i (2 * Suc n) acc = sum_words p (i + 2) (2 * n) (acc + ucast (ld16 p i))"
    by (simp add: sum_words.simps [of p i])
  moreover have "(ucast (ld16 p i) :: u32) = of_nat (unat (ld16 p i))" by (rule of_nat_unat [symmetric])
  ultimately show ?case using Suc.IH [of "i + 2" "acc + ucast (ld16 p i)"] by (simp only: of_nat_add add.assoc)
qed

lemma wsum_bound: "wsum p i n \<le> n * 65535"
proof -
  have "unat (ld16 p (i + 2 * k)) \<le> 65535" for k using unsigned_less [of "ld16 p (i + 2 * k)", where 'a = nat] by simp
  then have "(\<Sum>k<n. unat (ld16 p (i + 2 * k))) \<le> (\<Sum>k<n. 65535)" by (intro sum_mono) auto
  then show ?thesis by (simp add: wsum_def)
qed

text \<open>The checksum of n words, by the sum of the words.\<close>

lemma checksum_value:
  assumes "n \<le> 32768"
  shows "unat (net_checksum p (2 * n)) + unat (fold_carry (of_nat (wsum p 0 n))) = 65535"
    "unat (fold_carry (of_nat (wsum p 0 n))) mod 65535 = wsum p 0 n mod 65535"
    "fold_carry (of_nat (wsum p 0 n)) = 0 \<longleftrightarrow> wsum p 0 n = 0"
proof -
  let ?f = "fold_carry (of_nat (wsum p 0 n))"
  have "wsum p 0 n < 2 ^ 32" using wsum_bound [of p 0 n] assms by simp
  then have u: "unat (of_nat (wsum p 0 n) :: u32) = wsum p 0 n" by (rule unat_of_nat_u32)
  note f = fold_carry_mod [of "of_nat (wsum p 0 n)"]
  show "unat ?f mod 65535 = wsum p 0 n mod 65535" using f u by simp
  have "(of_nat (wsum p 0 n) :: u32) = 0 \<longleftrightarrow> wsum p 0 n = 0" using u by (metis unat_eq_0 unat_0)
  then show "?f = 0 \<longleftrightarrow> wsum p 0 n = 0" using f by blast
  have "unat (ucast ?f :: u16) = unat ?f" using f by (simp add: unsigned_ucast_eq take_bit_eq_mod)
  moreover have "net_checksum p (2 * n) = NOT (ucast ?f)" by (simp add: net_checksum_def sum_words_even)
  moreover have "unat (NOT w :: u16) = 65535 - unat w" for w
  proof -
    have "NOT w = - 1 - w" by (simp add: not_eq_complement)
    then have "unat (NOT w) = unat (- 1 :: u16) - unat w" by (simp only:) (rule unat_sub, rule word_n1_ge)
    then show ?thesis by (simp add: unsigned_minus_1_eq_mask mask_eq_exp_minus_1)
  qed
  ultimately show "unat (net_checksum p (2 * n)) + unat ?f = 65535" using f by simp
qed

text \<open>A packet that carries its own checksum has checksum 0.\<close>

lemma checksum_accepts:
  assumes n: "n \<le> 32768" "k < n" and z: "ld16 p (2 * k) = 0" and c: "ld16 q (2 * k) = net_checksum p (2 * n)"
    and same: "\<And>j. j < n \<Longrightarrow> j \<noteq> k \<Longrightarrow> ld16 q (2 * j) = ld16 p (2 * j)"
  shows "net_checksum q (2 * n) = 0"
proof -
  let ?c = "unat (net_checksum p (2 * n))"
  have rest: "(\<Sum>j\<in>{..<n} - {k}. unat (ld16 q (2 * j))) = (\<Sum>j\<in>{..<n} - {k}. unat (ld16 p (2 * j)))"
    by (rule sum.cong) (use same in auto)
  have "wsum q 0 n = ?c + (\<Sum>j\<in>{..<n} - {k}. unat (ld16 q (2 * j)))"
    unfolding wsum_def using n(2) c by (subst sum.remove [of _ k]) simp_all
  moreover have "wsum p 0 n = (\<Sum>j\<in>{..<n} - {k}. unat (ld16 p (2 * j)))"
    unfolding wsum_def using n(2) z by (subst sum.remove [of _ k]) simp_all
  ultimately have w: "wsum q 0 n = ?c + wsum p 0 n" using rest by simp
  note p = checksum_value [OF n(1), of p] and q = checksum_value [OF n(1), of q]
  let ?f = "unat (fold_carry (of_nat (wsum p 0 n)))" and ?g = "unat (fold_carry (of_nat (wsum q 0 n)))"
  have "(?c + wsum p 0 n) mod 65535 = (?c + ?f) mod 65535" using p(2) by (metis mod_add_right_eq)
  then have "?g mod 65535 = 0" using q(2) w p(1) by simp
  moreover have "?g \<noteq> 0"
  proof
    assume "?g = 0"
    then have "wsum q 0 n = 0" using q(3) by (simp add: unat_eq_0)
    then have "?c = 0" "wsum p 0 n = 0" using w by auto
    then show False using p(1,3) by (simp add: unat_eq_0)
  qed
  moreover have "?g \<le> 65535" using q(1) by simp
  ultimately have "?g = 65535" by (metis dvd_imp_le mod_0_imp_dvd le_antisym neq0_conv)
  then show ?thesis using q(1) by (simp add: unat_eq_0)
qed

section \<open>Buffers in use\<close>

definition free_bufs :: "'a net_st_scheme \<Rightarrow> nat" where
  "free_bufs s = cells (\<lambda>i. \<not> buf_used s i) NET_BUF_COUNT"

lemma alloc_buf_some:
  assumes "0 < free_bufs s"
  shows "\<exists>b<64. net_alloc_buf s = (Some b, s\<lparr>buf_used := (buf_used s)(b := True)\<rparr>) \<and> \<not> buf_used s b
    \<and> free_bufs (s\<lparr>buf_used := (buf_used s)(b := True)\<rparr>) = free_bufs s - 1"
proof -
  have "\<not> (\<forall>i<64. buf_used s i)" using assms cells_none [of 64 "\<lambda>i. \<not> buf_used s i"] by (auto simp: free_bufs_def)
  then obtain b where b: "for_find (\<lambda>i. \<not> buf_used s i) 0 64 = Some b" using for_find_ex [of _ 64 "\<lambda>i. \<not> buf_used s i"] by auto
  then have "b < 64" "\<not> buf_used s b" by (simp_all add: for_find_Some_iff)
  then show ?thesis
    using b cells_clear [of b 64 "\<lambda>i. \<not> buf_used s i" "\<lambda>i. \<not> ((buf_used s)(b := True)) i"]
    by (intro exI [of _ b]) (simp add: net_alloc_buf_def free_bufs_def)
qed

lemma free_buf_restores: "b < 64 \<Longrightarrow> \<not> f b \<Longrightarrow> buf_used s = f(b := True) \<Longrightarrow> buf_used (net_free_buf b s) = f"
  by (auto simp: net_free_buf_def fun_eq_iff)

lemma net_buf_frame [frame, simp]:
  "net_st.more (net_free_buf b s) = net_st.more s" "net_iface (net_free_buf b s) = net_iface s" "sent (net_free_buf b s) = sent s"
  "tick_count (net_free_buf b s) = tick_count s"
  "net_st.more (snd (net_alloc_buf s)) = net_st.more s" "net_iface (snd (net_alloc_buf s)) = net_iface s"
  "sent (snd (net_alloc_buf s)) = sent s" "tick_count (snd (net_alloc_buf s)) = tick_count s"
  by (simp_all add: net_free_buf_def net_alloc_buf_def split: option.splits)

lemma eth_send_frame [frame, simp]:
  "net_st.more (snd (eth_send E d t pl s)) = net_st.more s" "net_iface (snd (eth_send E d t pl s)) = net_iface s"
  "tick_count (snd (eth_send E d t pl s)) = tick_count s"
  by (auto simp: eth_send_def net_alloc_buf_def Let_def split: option.splits)

definition nic_ready :: "'a net_st_scheme \<Rightarrow> bool" where
  "nic_ready s \<longleftrightarrow> if_up (net_iface s) \<and> if_send (net_iface s)"

lemma eth_send_ok:
  fixes dst :: "u8 list" and ty :: u16
  assumes "nic_ready s" "length pl \<le> 2034" "0 < free_bufs s"
  defines "fr \<equiv> dst @ if_mac (net_iface s) @ st16 (htons ty) @ pl"
  shows "eth_send E dst ty pl s = (nic E (sent s @ [fr]), s\<lparr>sent := sent s @ [fr]\<rparr>)"
proof -
  obtain b where b: "b < 64" "net_alloc_buf s = (Some b, s\<lparr>buf_used := (buf_used s)(b := True)\<rparr>)" "\<not> buf_used s b"
    using alloc_buf_some [OF assms(3)] by blast
  have "(buf_used s)(b := False) = buf_used s" using b(3) by (auto simp: fun_eq_iff)
  then show ?thesis using assms(1,2) b by (simp add: eth_send_def nic_ready_def fr_def Let_def net_free_buf_def)
qed

end
