(* ===== verification/Ip.thy ===== *)
theory Ip
  imports Net
begin

unbundle bit_operations_syntax

text \<open>
  ARP, sending of IPv4 packets, and ICMP, from \<open>net/ip.c\<close>. A loop that waits for an ARP answer sees what the interrupts
  do between its turns, the parameter \<open>irq\<close>. The receiving side of IPv4, which calls the transport protocols, is in
  the theory of the whole stack.
\<close>

section \<open>State\<close>

record arp_entry =
  a_ip :: u32
  a_mac :: "u8 list"
  a_timestamp :: u32
  a_valid :: bool

record ip_st = net_st +
  arp_cache :: "nat \<Rightarrow> arp_entry"
  ip4_id :: u16
  g_icmp_reply_seq :: u16

abbreviation (input) ARP_CACHE_SIZE :: nat where "ARP_CACHE_SIZE \<equiv> 16"
abbreviation (input) PROTO_ICMP :: u8 where "PROTO_ICMP \<equiv> 1"
abbreviation (input) PROTO_TCP :: u8 where "PROTO_TCP \<equiv> 6"
abbreviation (input) PROTO_UDP :: u8 where "PROTO_UDP \<equiv> 17"
abbreviation (input) ICMP_ECHO_REQUEST :: u8 where "ICMP_ECHO_REQUEST \<equiv> 8"
abbreviation (input) ICMP_ECHO_REPLY :: u8 where "ICMP_ECHO_REPLY \<equiv> 0"
abbreviation (input) IP_HDR :: nat where "IP_HDR \<equiv> 20"

definition zero_arp :: arp_entry where
  "zero_arp = \<lparr>a_ip = 0, a_mac = replicate 6 0, a_timestamp = 0, a_valid = False\<rparr>"

definition arp_init :: "'a ip_st_scheme \<Rightarrow> 'a ip_st_scheme" where
  "arp_init s = s\<lparr>arp_cache := \<lambda>_. zero_arp\<rparr>"

definition ip4_init :: "'a ip_st_scheme \<Rightarrow> 'a ip_st_scheme" where
  "ip4_init s = s\<lparr>arp_cache := \<lambda>_. zero_arp, ip4_id := 1\<rparr>"

section \<open>ARP\<close>

definition arp_lookup :: "u32 \<Rightarrow> 'a ip_st_scheme \<Rightarrow> nat option" where
  "arp_lookup ip s = for_find (\<lambda>i. a_valid (arp_cache s i) \<and> a_ip (arp_cache s i) = ip) 0 ARP_CACHE_SIZE"

definition arp_cache_add :: "u32 \<Rightarrow> u8 list \<Rightarrow> 'a ip_st_scheme \<Rightarrow> 'a ip_st_scheme" where
  "arp_cache_add ip mac s =
     (case arp_lookup ip s of
        Some i \<Rightarrow> s\<lparr>arp_cache := (arp_cache s)(i := (arp_cache s i)\<lparr>a_mac := mac\<rparr>)\<rparr>
      | None \<Rightarrow>
          (let free_idx = (case for_find (\<lambda>i. \<not> a_valid (arp_cache s i)) 0 ARP_CACHE_SIZE of Some i \<Rightarrow> i | None \<Rightarrow> 0)
           in s\<lparr>arp_cache := (arp_cache s)(free_idx := (arp_cache s free_idx)\<lparr>a_ip := ip, a_mac := mac, a_valid := True\<rparr>)\<rparr>))"

definition arp_hdr :: "u16 \<Rightarrow> u8 list \<Rightarrow> u32 \<Rightarrow> u8 list \<Rightarrow> u32 \<Rightarrow> u8 list" where
  "arp_hdr oper sha spa tha tpa =
     st16 (htons 1) @ st16 (htons 0x0800) @ [6, 4] @ st16 (htons oper) @ sha @ st32 spa @ tha @ st32 tpa"

definition arp_send_request :: "'s net_env \<Rightarrow> u32 \<Rightarrow> 'a ip_st_scheme \<Rightarrow> 'a ip_st_scheme" where
  "arp_send_request E target_ip s =
     snd (eth_send E eth_broadcast ETH_TYPE_ARP
       (arp_hdr 1 (if_mac (net_iface s)) (if_ip (net_iface s)) (replicate 6 0) target_ip) s)"

definition arp_send_reply :: "'s net_env \<Rightarrow> u32 \<Rightarrow> u8 list \<Rightarrow> 'a ip_st_scheme \<Rightarrow> 'a ip_st_scheme" where
  "arp_send_reply E target_ip target_mac s =
     snd (eth_send E target_mac ETH_TYPE_ARP
       (arp_hdr 2 (if_mac (net_iface s)) (if_ip (net_iface s)) target_mac target_ip) s)"

definition arp_receive :: "'s net_env \<Rightarrow> pkt \<Rightarrow> nat \<Rightarrow> 'a ip_st_scheme \<Rightarrow> 'a ip_st_scheme" where
  "arp_receive E p len s =
     (if len < 28 then s
      else if ntohs (ld16 p 0) \<noteq> 1 \<or> ntohs (ld16 p 2) \<noteq> 0x0800 then s
      else
        (let sha = map p [8..<14]; spa = ld32 p 14; s1 = arp_cache_add spa sha s in
         if ntohs (ld16 p 6) = 1 \<and> ld32 p 24 = if_ip (net_iface s1) then arp_send_reply E spa sha s1 else s1))"

text \<open>The waiting loop of \<open>arp_resolve\<close>: n turns are left, k have been made.\<close>

primrec arp_wait :: "'a ip_st_scheme net_env \<Rightarrow> nat \<Rightarrow> nat \<Rightarrow> u32 \<Rightarrow> 'a ip_st_scheme \<Rightarrow> u8 list option \<times> 'a ip_st_scheme" where
  "arp_wait E 0 k ip s = (None, s)"
| "arp_wait E (Suc n) k ip s =
     (let s1 = irq E k s in
      case arp_lookup ip s1 of
        Some i \<Rightarrow> (Some (a_mac (arp_cache s1 i)), s1)
      | None \<Rightarrow> arp_wait E n (Suc k) ip s1)"

text \<open>None is the result -1.\<close>

definition arp_resolve :: "'a ip_st_scheme net_env \<Rightarrow> u32 \<Rightarrow> 'a ip_st_scheme \<Rightarrow> u8 list option \<times> 'a ip_st_scheme" where
  "arp_resolve E ip s =
     (if ip = 0xFFFFFFFF then (Some eth_broadcast, s)
      else (case arp_lookup ip s of
              Some i \<Rightarrow> (Some (a_mac (arp_cache s i)), s)
            | None \<Rightarrow> arp_wait E 100000 0 ip (arp_send_request E ip s)))"

definition arp_announce :: "'s net_env \<Rightarrow> 'a ip_st_scheme \<Rightarrow> 'a ip_st_scheme" where
  "arp_announce E s =
     snd (eth_send E eth_broadcast ETH_TYPE_ARP
       (arp_hdr 2 (if_mac (net_iface s)) (if_ip (net_iface s)) eth_broadcast (if_ip (net_iface s))) s)"

section \<open>Sending IPv4 packets\<close>

definition ip4_hdr :: "u16 \<Rightarrow> u16 \<Rightarrow> u8 \<Rightarrow> u16 \<Rightarrow> u32 \<Rightarrow> u32 \<Rightarrow> u8 list" where
  "ip4_hdr total_len ident protocol checksum src dst =
     [0x45, 0] @ st16 (htons total_len) @ st16 (htons ident) @ st16 0 @ [64, protocol] @ st16 checksum @ st32 src @ st32 dst"

definition ip4_send :: "'a ip_st_scheme net_env \<Rightarrow> u32 \<Rightarrow> u8 \<Rightarrow> u8 list \<Rightarrow> 'a ip_st_scheme \<Rightarrow> int \<times> 'a ip_st_scheme" where
  "ip4_send E dst_ip protocol payload s =
     (if \<not> if_up (net_iface s) then (-1, s)
      else
        (let pkt_len = IP_HDR + length payload in
         if pkt_len > NET_BUF_SIZE - ETH_HDR then (-1, s)
         else
           (case net_alloc_buf s of
              (None, s1) \<Rightarrow> (-1, s1)
            | (Some b, s1) \<Rightarrow>
                (let hdr = (\<lambda>c. ip4_hdr (of_nat pkt_len) (ip4_id s1) protocol c (if_ip (net_iface s1)) dst_ip);
                     cs = net_checksum (nth (hdr 0)) IP_HDR;
                     s2 = s1\<lparr>ip4_id := ip4_id s1 + 1\<rparr>;
                     next_hop = (if dst_ip AND if_netmask (net_iface s2) \<noteq> if_ip (net_iface s2) AND if_netmask (net_iface s2)
                                 then if_gateway (net_iface s2) else dst_ip)
                 in case arp_resolve E next_hop s2 of
                      (None, s3) \<Rightarrow> (-1, net_free_buf b s3)
                    | (Some dst_mac, s3) \<Rightarrow>
                        (let (r, s4) = eth_send E dst_mac ETH_TYPE_IP4 (hdr cs @ payload) s3 in (r, net_free_buf b s4))))))"

section \<open>ICMP\<close>

definition icmp_hdr :: "u8 \<Rightarrow> u16 \<Rightarrow> u16 \<Rightarrow> u16 \<Rightarrow> u8 list" where
  "icmp_hdr ty checksum ident sq = [ty, 0] @ st16 checksum @ st16 ident @ st16 sq"

definition icmp_ping :: "'a ip_st_scheme net_env \<Rightarrow> u32 \<Rightarrow> u16 \<Rightarrow> 'a ip_st_scheme \<Rightarrow> int \<times> 'a ip_st_scheme" where
  "icmp_ping E target sq s =
     (let body = map of_nat [0..<32];
          mk = (\<lambda>c. icmp_hdr ICMP_ECHO_REQUEST c (htons 0x1234) (htons sq) @ body)
      in ip4_send E target PROTO_ICMP (mk (net_checksum (nth (mk 0)) 40)) s)"

text \<open>The reply is built in a pool buffer; a request that does not fit is copied past its end.\<close>

definition icmp_receive :: "'a ip_st_scheme net_env \<Rightarrow> u32 \<Rightarrow> pkt \<Rightarrow> nat \<Rightarrow> 'a ip_st_scheme \<Rightarrow> 'a ip_st_scheme outcome" where
  "icmp_receive E src p len s =
     (if len < 8 then Done s
      else if p 0 = ICMP_ECHO_REQUEST then
        (case net_alloc_buf s of
           (None, s1) \<Rightarrow> Done s1
         | (Some b, s1) \<Rightarrow>
             if len > NET_BUF_SIZE then Panic
             else
               (let mk = (\<lambda>c. [ICMP_ECHO_REPLY, 0] @ st16 c @ map p [4..<len]);
                    s2 = snd (ip4_send E src PROTO_ICMP (mk (net_checksum (nth (mk 0)) len)) s1)
                in Done (net_free_buf b s2)))
      else if p 0 = ICMP_ECHO_REPLY then Done (s\<lparr>g_icmp_reply_seq := ntohs (ld16 p 6)\<rparr>)
      else Done s)"

section \<open>Configuration\<close>

definition ip_set_addr :: "u32 \<Rightarrow> 'a ip_st_scheme \<Rightarrow> 'a ip_st_scheme" where
  "ip_set_addr addr s = s\<lparr>net_iface := (net_iface s)\<lparr>if_ip := addr\<rparr>\<rparr>"

definition ip_set_gateway :: "u32 \<Rightarrow> 'a ip_st_scheme \<Rightarrow> 'a ip_st_scheme" where
  "ip_set_gateway gw s = s\<lparr>net_iface := (net_iface s)\<lparr>if_gateway := gw\<rparr>\<rparr>"

definition ip_set_netmask :: "u32 \<Rightarrow> 'a ip_st_scheme \<Rightarrow> 'a ip_st_scheme" where
  "ip_set_netmask m s = s\<lparr>net_iface := (net_iface s)\<lparr>if_netmask := m\<rparr>\<rparr>"

definition ip_get_addr :: "'a ip_st_scheme \<Rightarrow> u32" where
  "ip_get_addr s = if_ip (net_iface s)"

section \<open>What sending does\<close>

lemma length_ip4_hdr [simp]: "length (ip4_hdr n ident pr c src dst) = 20"
  by (simp add: ip4_hdr_def)

text \<open>
  Sending changes the state above IP only through interrupts: what these keep, sending keeps.
\<close>

lemma arp_wait_keeps:
  assumes "\<And>k s. Q (ip_st.more s) \<Longrightarrow> Q (ip_st.more (irq E k s))" "Q (ip_st.more s)"
  shows "Q (ip_st.more (snd (arp_wait E n k ip s)))"
  using assms(2)
proof (induction n arbitrary: k s)
  case 0
  then show ?case by simp
next
  case (Suc n)
  then show ?case using assms(1) by (simp add: Let_def split: option.splits)
qed

lemma more_ip: "net_st.more t = net_st.more s \<Longrightarrow> ip_st.more t = ip_st.more s"
  by (cases t; cases s) simp

lemma arp_resolve_keeps:
  assumes "\<And>k s. Q (ip_st.more s) \<Longrightarrow> Q (ip_st.more (irq E k s))" "Q (ip_st.more s)"
  shows "Q (ip_st.more (snd (arp_resolve E ip s)))"
proof -
  have "ip_st.more (arp_send_request E ip s) = ip_st.more s"
    by (rule more_ip) (simp add: arp_send_request_def)
  then show ?thesis using assms arp_wait_keeps [where Q = Q and E = E, OF assms(1)] by (simp add: arp_resolve_def split: option.splits)
qed

lemma ip4_send_keeps:
  assumes "\<And>k s. Q (ip_st.more s) \<Longrightarrow> Q (ip_st.more (irq E k s))" "Q (ip_st.more s)"
  shows "Q (ip_st.more (snd (ip4_send E dst pr pl s)))"
proof -
  have f: "ip_st.more (net_free_buf b t) = ip_st.more t" "ip_st.more (snd (eth_send E' d ty p t)) = ip_st.more t"
    "ip_st.more (snd (net_alloc_buf t)) = ip_st.more t" for b E' d ty p and t :: "'a ip_st_scheme"
    by (rule more_ip, simp)+
  show ?thesis
  proof (cases "net_alloc_buf s")
    case (Pair o1 s1)
    then have s1: "ip_st.more s1 = ip_st.more s" using f(3) [of s] by simp
    show ?thesis
    proof (cases o1)
      case None
      then show ?thesis using assms(2) Pair s1 by (simp add: ip4_send_def Let_def)
    next
      case (Some b)
      have r: "Q (ip_st.more (snd (arp_resolve E h (s1\<lparr>ip4_id := v\<rparr>))))" for h v
        by (rule arp_resolve_keeps [where Q = Q, OF assms(1)]) (use assms(2) s1 in simp_all)
      show ?thesis
        using assms(2) Pair Some r by (auto simp: ip4_send_def Let_def f split: prod.splits option.splits)
          (metis f(1,2) snd_conv)+
    qed
  qed
qed

lemma ip4_send_fits:
  assumes "fst (ip4_send E dst pr pl s) = 0"
  shows "length pl \<le> 2014"
proof (rule ccontr)
  assume "\<not> length pl \<le> 2014"
  then show False using assms by (simp add: ip4_send_def Let_def split: if_splits)
qed

text \<open>The route of a packet whose next hop is in the ARP cache, and the frame that is sent.\<close>

definition hop_mac :: "u32 \<Rightarrow> 'a ip_st_scheme \<Rightarrow> u8 list option" where
  "hop_mac dst s =
     (let hop = (if dst AND if_netmask (net_iface s) \<noteq> if_ip (net_iface s) AND if_netmask (net_iface s) then if_gateway (net_iface s) else dst)
      in if hop = 0xFFFFFFFF then Some eth_broadcast else map_option (\<lambda>i. a_mac (arp_cache s i)) (arp_lookup hop s))"

definition ip4_packet :: "u32 \<Rightarrow> u32 \<Rightarrow> u16 \<Rightarrow> u8 \<Rightarrow> u8 list \<Rightarrow> u8 list" where
  "ip4_packet src dst ident pr pl =
     (let hdr = (\<lambda>c. ip4_hdr (of_nat (20 + length pl)) ident pr c src dst) in hdr (net_checksum (nth (hdr 0)) 20) @ pl)"

lemma length_ip4_packet [simp]: "length (ip4_packet src dst ident pr pl) = 20 + length pl"
  by (simp add: ip4_packet_def Let_def)

definition ip_frame :: "u8 list \<Rightarrow> u32 \<Rightarrow> u8 \<Rightarrow> u8 list \<Rightarrow> 'a ip_st_scheme \<Rightarrow> u8 list" where
  "ip_frame mac dst pr pl s =
     mac @ if_mac (net_iface s) @ st16 (htons ETH_TYPE_IP4) @ ip4_packet (if_ip (net_iface s)) dst (ip4_id s) pr pl"

lemma ip4_send_ok:
  assumes "nic_ready s" "length pl \<le> 2014" "2 \<le> free_bufs s" "hop_mac dst s = Some mac"
  shows "ip4_send E dst pr pl s = (nic E (sent s @ [ip_frame mac dst pr pl s]),
     s\<lparr>ip4_id := ip4_id s + 1, sent := sent s @ [ip_frame mac dst pr pl s]\<rparr>)"
proof -
  have "0 < free_bufs s" using assms(3) by simp
  then obtain b where b: "b < 64" "net_alloc_buf s = (Some b, s\<lparr>buf_used := (buf_used s)(b := True)\<rparr>)" "\<not> buf_used s b"
    "free_bufs (s\<lparr>buf_used := (buf_used s)(b := True)\<rparr>) = free_bufs s - 1" using alloc_buf_some by blast
  define t where "t = s\<lparr>buf_used := (buf_used s)(b := True), ip4_id := ip4_id s + 1\<rparr>"
  define hop where "hop = (if dst AND if_netmask (net_iface s) \<noteq> if_ip (net_iface s) AND if_netmask (net_iface s)
    then if_gateway (net_iface s) else dst)"
  have "arp_lookup hop t = arp_lookup hop s" by (simp add: arp_lookup_def t_def)
  then have r: "arp_resolve E hop t = (Some mac, t)"
    using assms(4) by (auto simp: hop_mac_def hop_def [symmetric] Let_def arp_resolve_def t_def split: if_splits)
  let ?p = "ip4_packet (if_ip (net_iface s)) dst (ip4_id s) pr pl"
  have e: "eth_send E mac 0x0800 ?p t = (nic E (sent s @ [ip_frame mac dst pr pl s]), t\<lparr>sent := sent s @ [ip_frame mac dst pr pl s]\<rparr>)"
  proof -
    have "free_bufs t = free_bufs s - 1" using b(4) by (simp add: t_def free_bufs_def)
    then show ?thesis using eth_send_ok [of t ?p E mac "0x0800"] assms(1-3) by (simp add: ip_frame_def t_def nic_ready_def)
  qed
  have "(buf_used s)(b := False) = buf_used s" using b(3) by (auto simp: fun_eq_iff)
  then have "net_free_buf b (t\<lparr>sent := x\<rparr>) = s\<lparr>ip4_id := ip4_id s + 1, sent := x\<rparr>" for x
    using b(1) by (simp add: net_free_buf_def t_def)
  then show ?thesis
    using assms(1,2) b(2) r e unfolding hop_def t_def
    by (cases "dst AND if_netmask (net_iface s) = if_ip (net_iface s) AND if_netmask (net_iface s)")
      (simp_all add: ip4_send_def nic_ready_def ip4_packet_def Let_def)
qed

section \<open>The ARP cache\<close>

lemma arp_add_lookup:
  "\<exists>i. arp_lookup ip (arp_cache_add ip mac s) = Some i \<and> a_mac (arp_cache (arp_cache_add ip mac s) i) = mac"
proof (cases "arp_lookup ip s")
  case (Some i)
  then have i: "i < 16" "a_valid (arp_cache s i)" "a_ip (arp_cache s i) = ip" "\<forall>j<i. \<not> (a_valid (arp_cache s j) \<and> a_ip (arp_cache s j) = ip)"
    by (simp_all add: arp_lookup_def for_find_Some_iff)
  let ?t = "arp_cache_add ip mac s"
  have "arp_cache ?t = (arp_cache s)(i := (arp_cache s i)\<lparr>a_mac := mac\<rparr>)" using Some by (simp add: arp_cache_add_def)
  then show ?thesis using i by (intro exI [of _ i]) (auto simp: arp_lookup_def for_find_Some_iff)
next
  case None
  define k where "k = (case for_find (\<lambda>i. \<not> a_valid (arp_cache s i)) 0 16 of Some i \<Rightarrow> i | None \<Rightarrow> 0)"
  have k: "k < 16" by (auto simp: k_def for_find_Some_iff split: option.splits)
  have c: "arp_cache (arp_cache_add ip mac s) = (arp_cache s)(k := (arp_cache s k)\<lparr>a_ip := ip, a_mac := mac, a_valid := True\<rparr>)"
    using None by (simp add: arp_cache_add_def k_def Let_def)
  have "\<not> (a_valid (arp_cache s j) \<and> a_ip (arp_cache s j) = ip)" if "j < 16" for j
    using None that by (auto simp: arp_lookup_def for_find_None_iff)
  then show ?thesis using k by (intro exI [of _ k]) (auto simp: arp_lookup_def for_find_Some_iff c)
qed

end
