(* ===== verification/Udp.thy ===== *)
theory Udp
  imports Ip
begin

unbundle bit_operations_syntax

text \<open>
  UDP, \<open>net/udp.c\<close>: the table of listeners, sending, dispatch of received datagrams to the two callbacks of the
  file, and the blocking and the polling receiver. A callback is kept with its context, the index of its slot. The
  memory of a blocked caller is the list of bytes the callback has stored there.
\<close>

section \<open>State\<close>

datatype udp_cb = udp_blocking_cb nat | udp_poll_cb nat

record udp_listener =
  l_port :: u16
  l_cb :: "udp_cb option"

record udp_blocking_slot =
  k_port :: u16
  k_buf :: "u8 list"
  k_maxlen :: u16
  k_rxlen :: u16
  k_done :: bool

record udp_poll_slot =
  q_port :: u16
  q_used :: bool
  q_len :: int
  q_data :: "nat \<Rightarrow> u8"

record udp_st = ip_st +
  g_listeners :: "nat \<Rightarrow> udp_listener"
  g_blocking :: "nat \<Rightarrow> udp_blocking_slot"
  g_poll_slots :: "nat \<Rightarrow> udp_poll_slot"
  g_poll_init :: bool

abbreviation (input) UDP_MAX_LISTENERS :: nat where "UDP_MAX_LISTENERS \<equiv> 16"
abbreviation (input) UDP_BLOCKING_MAX :: nat where "UDP_BLOCKING_MAX \<equiv> 4"
abbreviation (input) UDP_POLL_SLOTS :: nat where "UDP_POLL_SLOTS \<equiv> 8"
abbreviation (input) UDP_POLL_BUF_SZ :: nat where "UDP_POLL_BUF_SZ \<equiv> 1500"
abbreviation (input) UDP_HDR :: nat where "UDP_HDR \<equiv> 8"

definition zero_listener :: udp_listener where
  "zero_listener = \<lparr>l_port = 0, l_cb = None\<rparr>"

definition zero_blocking :: udp_blocking_slot where
  "zero_blocking = \<lparr>k_port = 0, k_buf = [], k_maxlen = 0, k_rxlen = 0, k_done = False\<rparr>"

definition zero_poll :: udp_poll_slot where
  "zero_poll = \<lparr>q_port = 0, q_used = False, q_len = 0, q_data = \<lambda>_. 0\<rparr>"

definition upd_blocking :: "nat \<Rightarrow> (udp_blocking_slot \<Rightarrow> udp_blocking_slot) \<Rightarrow> 'a udp_st_scheme \<Rightarrow> 'a udp_st_scheme" where
  "upd_blocking i f s = s\<lparr>g_blocking := (g_blocking s)(i := f (g_blocking s i))\<rparr>"

definition upd_poll :: "nat \<Rightarrow> (udp_poll_slot \<Rightarrow> udp_poll_slot) \<Rightarrow> 'a udp_st_scheme \<Rightarrow> 'a udp_st_scheme" where
  "upd_poll i f s = s\<lparr>g_poll_slots := (g_poll_slots s)(i := f (g_poll_slots s i))\<rparr>"

definition udp_init :: "'a udp_st_scheme \<Rightarrow> 'a udp_st_scheme" where
  "udp_init s = s\<lparr>g_listeners := \<lambda>_. zero_listener, g_blocking := \<lambda>_. zero_blocking\<rparr>"

section \<open>Listeners\<close>

definition udp_listen :: "u16 \<Rightarrow> udp_cb option \<Rightarrow> 'a udp_st_scheme \<Rightarrow> int \<times> 'a udp_st_scheme" where
  "udp_listen port cb s =
     (case for_find (\<lambda>i. l_port (g_listeners s i) = port) 0 UDP_MAX_LISTENERS of
        Some i \<Rightarrow>
          (0, s\<lparr>g_listeners := (g_listeners s)(i :=
                (if cb = None then zero_listener else (g_listeners s i)\<lparr>l_cb := cb\<rparr>))\<rparr>)
      | None \<Rightarrow>
          if cb = None then (0, s)
          else (case for_find (\<lambda>i. l_port (g_listeners s i) = 0) 0 UDP_MAX_LISTENERS of
                  Some i \<Rightarrow> (0, s\<lparr>g_listeners := (g_listeners s)(i := \<lparr>l_port = port, l_cb = cb\<rparr>)\<rparr>)
                | None \<Rightarrow> (-1, s)))"

section \<open>Sending\<close>

definition udp_hdr :: "u16 \<Rightarrow> u16 \<Rightarrow> u16 \<Rightarrow> u8 list" where
  "udp_hdr src_port dst_port len = st16 (htons src_port) @ st16 (htons dst_port) @ st16 (htons len) @ st16 0"

definition udp_send :: "'a udp_st_scheme net_env \<Rightarrow> u32 \<Rightarrow> u16 \<Rightarrow> u16 \<Rightarrow> u8 list \<Rightarrow> 'a udp_st_scheme \<Rightarrow> int \<times> 'a udp_st_scheme" where
  "udp_send E dst_ip src_port dst_port bs s =
     (if \<not> if_up (net_iface s) then (-1, s)
      else
        (let udp_len = UDP_HDR + length bs in
         if udp_len > NET_BUF_SIZE then (-1, s)
         else ip4_send E dst_ip PROTO_UDP (udp_hdr src_port dst_port (of_nat udp_len) @ bs) s))"

section \<open>Receiving\<close>

text \<open>The two callbacks; d is the memory of the data, of the given length.\<close>

definition blocking_cb :: "nat \<Rightarrow> pkt \<Rightarrow> u16 \<Rightarrow> 'a udp_st_scheme \<Rightarrow> 'a udp_st_scheme" where
  "blocking_cb i d len s =
     (if k_done (g_blocking s i) then s
      else
        (let copy_len = (if len < k_maxlen (g_blocking s i) then len else k_maxlen (g_blocking s i))
         in upd_blocking i (\<lambda>k. k\<lparr>k_buf := map d [0..<unat copy_len], k_rxlen := copy_len, k_done := True\<rparr>) s))"

definition poll_cb :: "nat \<Rightarrow> pkt \<Rightarrow> u16 \<Rightarrow> 'a udp_st_scheme \<Rightarrow> 'a udp_st_scheme" where
  "poll_cb i d len s =
     (if q_used (g_poll_slots s i) then s
      else
        (let copy_len = (if unat len < UDP_POLL_BUF_SZ then unat len else UDP_POLL_BUF_SZ)
         in upd_poll i (\<lambda>q. q\<lparr>q_data := (\<lambda>j. if j < copy_len then d j else q_data q j), q_len := int copy_len, q_used := True\<rparr>) s))"

definition run_cb :: "udp_cb \<Rightarrow> pkt \<Rightarrow> u16 \<Rightarrow> 'a udp_st_scheme \<Rightarrow> 'a udp_st_scheme" where
  "run_cb cb d len s = (case cb of udp_blocking_cb i \<Rightarrow> blocking_cb i d len s | udp_poll_cb i \<Rightarrow> poll_cb i d len s)"

definition dispatch :: "u16 \<Rightarrow> pkt \<Rightarrow> u16 \<Rightarrow> nat \<Rightarrow> 'a udp_st_scheme \<Rightarrow> 'a udp_st_scheme" where
  "dispatch dst_port d len i s =
     (if l_port (g_listeners s i) = dst_port
      then (case l_cb (g_listeners s i) of None \<Rightarrow> s | Some cb \<Rightarrow> run_cb cb d len s)
      else s)"

definition udp_receive :: "pkt \<Rightarrow> nat \<Rightarrow> 'a udp_st_scheme \<Rightarrow> 'a udp_st_scheme" where
  "udp_receive p len s =
     (if len < UDP_HDR then s
      else
        (let dst_port = ntohs (ld16 p 2); udp_len = ntohs (ld16 p 4) in
         if unat udp_len < UDP_HDR \<or> unat udp_len > len then s
         else fold (dispatch dst_port (\<lambda>j. p (UDP_HDR + j)) (udp_len - of_nat UDP_HDR)) [0..<UDP_MAX_LISTENERS] s))"

section \<open>Waiting for a datagram\<close>

text \<open>True: a datagram came; False: the time is over; None: neither ever happens.\<close>

partial_function (option) blocking_wait ::
  "(nat \<Rightarrow> 'a udp_st_scheme \<Rightarrow> 'a udp_st_scheme) \<Rightarrow> nat \<Rightarrow> u32 \<Rightarrow> nat \<Rightarrow> 'a udp_st_scheme \<Rightarrow> (bool \<times> 'a udp_st_scheme) option" where
  "blocking_wait yield i deadline k s =
     (if k_done (g_blocking s i) then Some (True, s)
      else if tick_count s \<ge> ucast deadline then Some (False, s)
      else blocking_wait yield i deadline (Suc k) (yield k s))"

definition udp_recv_blocking ::
  "(nat \<Rightarrow> 'a udp_st_scheme \<Rightarrow> 'a udp_st_scheme) \<Rightarrow> u16 \<Rightarrow> u16 \<Rightarrow> u32 \<Rightarrow> 'a udp_st_scheme \<Rightarrow>
     ((int \<times> u8 list) \<times> 'a udp_st_scheme) option" where
  "udp_recv_blocking yield port maxlen timeout_ms s =
     (case for_find (\<lambda>i. k_port (g_blocking s i) = 0) 0 UDP_BLOCKING_MAX of
        None \<Rightarrow> Some ((-1, []), s)
      | Some i \<Rightarrow>
          (let s1 = upd_blocking i (\<lambda>_. \<lparr>k_port = port, k_buf = [], k_maxlen = maxlen, k_rxlen = 0, k_done = False\<rparr>) s;
               (r, s2) = udp_listen port (Some (udp_blocking_cb i)) s1
           in if r < 0 then Some ((-1, []), upd_blocking i (\<lambda>k. k\<lparr>k_port := 0\<rparr>) s2)
              else
                (let deadline = ucast (tick_count s2 + ucast (timeout_ms * 100 div 1000)) in
                 case blocking_wait yield i deadline 0 s2 of
                   None \<Rightarrow> None
                 | Some (ok, s3) \<Rightarrow>
                     (let s4 = snd (udp_listen port None s3);
                          res = (if ok then (int (unat (k_rxlen (g_blocking s4 i))), k_buf (g_blocking s4 i)) else (-1, []))
                      in Some (res, upd_blocking i (\<lambda>k. k\<lparr>k_port := 0\<rparr>) s4)))))"

text \<open>The slot of a port, made on the first call; a negative buffer size is taken as a huge length.\<close>

definition poll_slot :: "u16 \<Rightarrow> 'a udp_st_scheme \<Rightarrow> nat option \<times> 'a udp_st_scheme" where
  "poll_slot local_port s =
     (case for_find (\<lambda>i. q_port (g_poll_slots s i) = local_port) 0 UDP_POLL_SLOTS of
        Some i \<Rightarrow> (Some i, s)
      | None \<Rightarrow>
          (case for_find (\<lambda>i. q_port (g_poll_slots s i) = 0) 0 UDP_POLL_SLOTS of
             None \<Rightarrow> (None, s)
           | Some i \<Rightarrow>
               (Some i, snd (udp_listen local_port (Some (udp_poll_cb i))
                   (upd_poll i (\<lambda>q. q\<lparr>q_port := local_port, q_used := False\<rparr>) s)))))"

definition udp_recv_poll :: "u16 \<Rightarrow> int \<Rightarrow> 'a udp_st_scheme \<Rightarrow> ((int \<times> u8 list) \<times> 'a udp_st_scheme) outcome" where
  "udp_recv_poll local_port bufsz s =
     (let s1 = (if g_poll_init s then s else s\<lparr>g_poll_slots := \<lambda>_. zero_poll, g_poll_init := True\<rparr>) in
      case poll_slot local_port s1 of
        (None, s2) \<Rightarrow> Done ((-1, []), s2)
      | (Some i, s2) \<Rightarrow>
          if \<not> q_used (g_poll_slots s2 i) then Done ((-1, []), s2)
          else
            (let n = (if q_len (g_poll_slots s2 i) < bufsz then q_len (g_poll_slots s2 i) else bufsz) in
             if n < 0 then Panic
             else Done ((n, map (q_data (g_poll_slots s2 i)) [0..<nat n]), upd_poll i (\<lambda>q. q\<lparr>q_used := False\<rparr>) s2)))"

end
