(* ===== verification/Sock.thy ===== *)
theory Sock
  imports Udp
begin

unbundle bit_operations_syntax

text \<open>
  The socket table of \<open>net/socket.c\<close>, its ring buffers, and the two operations the transport protocols call. The
  operations for programs are in the theory Socket, above TCP. Padding of addresses is left out.
\<close>

section \<open>State\<close>

datatype sock_state =
  SOCK_STATE_FREE | SOCK_STATE_CREATED | SOCK_STATE_BOUND | SOCK_STATE_LISTENING | SOCK_STATE_CONNECTED
| SOCK_STATE_CLOSING | SOCK_STATE_CLOSED

record sockaddr_in =
  sin_family :: u16
  sin_port :: u16
  sin_addr :: u32

record sock =
  sk_used :: bool
  sk_domain :: int
  sk_type :: int
  sk_protocol :: int
  sk_state :: sock_state
  sk_local :: sockaddr_in
  sk_remote :: sockaddr_in
  sk_tcp_sock :: int
  sk_rxbuf :: "nat \<Rightarrow> u8"
  sk_rx_head :: u32
  sk_rx_tail :: u32
  sk_rcvtimeo_ms :: int
  sk_sndtimeo_ms :: int
  sk_reuseaddr :: bool
  sk_backlog :: "nat \<Rightarrow> nat"
  sk_backlog_head :: nat
  sk_backlog_tail :: nat
  sk_backlog_size :: int
  sk_err :: int
  sk_owner :: u32

record sock_st = udp_st +
  sock_table :: "nat \<Rightarrow> sock"
  next_port :: u16

abbreviation (input) NET_SOCK_MAX :: nat where "NET_SOCK_MAX \<equiv> 256"
abbreviation (input) SOCK_BACKLOG_MAX :: nat where "SOCK_BACKLOG_MAX \<equiv> 8"
abbreviation (input) SOCK_RXBUF_SIZE :: u32 where "SOCK_RXBUF_SIZE \<equiv> 8192"
abbreviation (input) AF_INET :: u16 where "AF_INET \<equiv> 2"
abbreviation (input) SOCK_STREAM :: int where "SOCK_STREAM \<equiv> 1"
abbreviation (input) SOCK_DGRAM :: int where "SOCK_DGRAM \<equiv> 2"

definition zero_addr :: sockaddr_in where
  "zero_addr = \<lparr>sin_family = 0, sin_port = 0, sin_addr = 0\<rparr>"

definition zero_sock :: sock where
  "zero_sock = \<lparr>sk_used = False, sk_domain = 0, sk_type = 0, sk_protocol = 0, sk_state = SOCK_STATE_FREE, sk_local = zero_addr,
     sk_remote = zero_addr, sk_tcp_sock = 0, sk_rxbuf = \<lambda>_. 0, sk_rx_head = 0, sk_rx_tail = 0, sk_rcvtimeo_ms = 0,
     sk_sndtimeo_ms = 0, sk_reuseaddr = False, sk_backlog = \<lambda>_. 0, sk_backlog_head = 0, sk_backlog_tail = 0, sk_backlog_size = 0,
     sk_err = 0, sk_owner = 0\<rparr>"

definition upd_sock :: "nat \<Rightarrow> (sock \<Rightarrow> sock) \<Rightarrow> 'a sock_st_scheme \<Rightarrow> 'a sock_st_scheme" where
  "upd_sock i f s = s\<lparr>sock_table := (sock_table s)(i := f (sock_table s i))\<rparr>"

section \<open>Helpers\<close>

definition socket_init :: "'a sock_st_scheme \<Rightarrow> 'a sock_st_scheme" where
  "socket_init s = s\<lparr>sock_table := \<lambda>_. zero_sock\<rparr>"

definition sock_get :: "int \<Rightarrow> 'a sock_st_scheme \<Rightarrow> nat option" where
  "sock_get sd s = (if sd < 0 \<or> sd \<ge> int NET_SOCK_MAX then None else if \<not> sk_used (sock_table s (nat sd)) then None else Some (nat sd))"

definition sock_alloc :: "'a sock_st_scheme \<Rightarrow> nat option" where
  "sock_alloc s = for_find (\<lambda>i. \<not> sk_used (sock_table s i)) 0 NET_SOCK_MAX"

definition sock_ephemeral_port :: "'a sock_st_scheme \<Rightarrow> u16 \<times> 'a sock_st_scheme" where
  "sock_ephemeral_port s =
     (let p = next_port s; n = p + 1 in (p, s\<lparr>next_port := (if n = 0 then 49152 else n)\<rparr>))"

definition rxbuf_available :: "sock \<Rightarrow> u32" where
  "rxbuf_available s =
     (if sk_rx_tail s \<ge> sk_rx_head s then sk_rx_tail s - sk_rx_head s else SOCK_RXBUF_SIZE - sk_rx_head s + sk_rx_tail s)"

definition rxbuf_push1 :: "u8 \<Rightarrow> sock \<Rightarrow> sock" where
  "rxbuf_push1 b s =
     (let s1 = s\<lparr>sk_rxbuf := (sk_rxbuf s)(unat (sk_rx_tail s) := b), sk_rx_tail := (sk_rx_tail s + 1) mod SOCK_RXBUF_SIZE\<rparr>
      in if sk_rx_tail s1 = sk_rx_head s1 then s1\<lparr>sk_rx_head := (sk_rx_head s1 + 1) mod SOCK_RXBUF_SIZE\<rparr> else s1)"

definition rxbuf_push :: "u8 list \<Rightarrow> sock \<Rightarrow> sock" where
  "rxbuf_push bs s = fold rxbuf_push1 bs s"

primrec rxbuf_take :: "nat \<Rightarrow> sock \<Rightarrow> u8 list \<times> sock" where
  "rxbuf_take 0 s = ([], s)"
| "rxbuf_take (Suc n) s =
     (let b = sk_rxbuf s (unat (sk_rx_head s)); (bs, s1) = rxbuf_take n (s\<lparr>sk_rx_head := (sk_rx_head s + 1) mod SOCK_RXBUF_SIZE\<rparr>)
      in (b # bs, s1))"

definition rxbuf_pop :: "nat \<Rightarrow> sock \<Rightarrow> u8 list \<times> sock" where
  "rxbuf_pop len s = rxbuf_take (min len (unat (rxbuf_available s))) s"

section \<open>Calls from the transport protocols\<close>

definition sock_deliver_udp :: "u32 \<Rightarrow> u16 \<Rightarrow> u16 \<Rightarrow> u8 list \<Rightarrow> 'a sock_st_scheme \<Rightarrow> 'a sock_st_scheme" where
  "sock_deliver_udp src_ip src_port dst_port bs s =
     (case for_find (\<lambda>i. sk_used (sock_table s i) \<and> sk_type (sock_table s i) = SOCK_DGRAM
          \<and> ntohs (sin_port (sk_local (sock_table s i))) = dst_port) 0 NET_SOCK_MAX of
        None \<Rightarrow> s
      | Some i \<Rightarrow> upd_sock i (\<lambda>k. (rxbuf_push bs k)\<lparr>sk_remote := \<lparr>sin_family = AF_INET, sin_port = htons src_port, sin_addr = src_ip\<rparr>\<rparr>) s)"

definition accept_sock :: "u32 \<Rightarrow> u16 \<Rightarrow> nat \<Rightarrow> sock \<Rightarrow> sock" where
  "accept_sock remote_ip remote_port tcp_sock_idx l =
     zero_sock\<lparr>sk_used := True, sk_domain := 2, sk_type := SOCK_STREAM, sk_state := SOCK_STATE_CONNECTED,
       sk_tcp_sock := int tcp_sock_idx,
       sk_remote := \<lparr>sin_family = AF_INET, sin_port = htons remote_port, sin_addr = remote_ip\<rparr>,
       sk_local := sk_local l, sk_owner := sk_owner l\<rparr>"

definition backlog_push :: "nat \<Rightarrow> sock \<Rightarrow> sock" where
  "backlog_push sd k =
     (let nxt = (sk_backlog_tail k + 1) mod SOCK_BACKLOG_MAX in
      if nxt \<noteq> sk_backlog_head k
      then k\<lparr>sk_backlog := (sk_backlog k)(sk_backlog_tail k := sd), sk_backlog_tail := nxt\<rparr>
      else k)"

definition sock_notify_accept :: "u16 \<Rightarrow> u32 \<Rightarrow> u16 \<Rightarrow> nat \<Rightarrow> 'a sock_st_scheme \<Rightarrow> 'a sock_st_scheme" where
  "sock_notify_accept port remote_ip remote_port tcp_sock_idx s =
     (case for_find (\<lambda>i. sk_used (sock_table s i) \<and> sk_state (sock_table s i) = SOCK_STATE_LISTENING
          \<and> ntohs (sin_port (sk_local (sock_table s i))) = port) 0 NET_SOCK_MAX of
        None \<Rightarrow> s
      | Some i \<Rightarrow>
          (case sock_alloc s of
             None \<Rightarrow> s
           | Some new_sd \<Rightarrow>
               upd_sock i (backlog_push new_sd)
                 (upd_sock new_sd (\<lambda>_. accept_sock remote_ip remote_port tcp_sock_idx (sock_table s i)) s)))"

end
