(* ===== verification/Tcp.thy ===== *)
theory Tcp
  imports Sock Fifo
begin

unbundle bit_operations_syntax

text \<open>
  TCP, \<open>net/tcp.c\<close>: the socket table, building and sending segments, the retransmission timer, and the state machine
  that \<open>tcp_receive\<close> runs for each segment. Segments are byte lists passed to \<open>ip4_send\<close>. A copy that does not fit into a pool
  buffer, and a segment length that has wrapped below zero, are crashes. \<open>poll\<close> and \<open>yield\<close> are what the driver and the
  other tasks do to the state in the k-th turn of the connecting loop. Log output is left out.
\<close>

section \<open>State\<close>

datatype tcp_state =
  TCP_CLOSED | TCP_LISTEN | TCP_SYN_RCVD | TCP_SYN_SENT | TCP_ESTABLISHED | TCP_FIN_WAIT | TCP_CLOSE_WAIT | TCP_TIME_WAIT

record tcp_socket =
  x_used :: bool
  x_state :: tcp_state
  x_local_ip :: u32
  x_remote_ip :: u32
  x_local_port :: u16
  x_remote_port :: u16
  x_tx_seq :: u32
  x_rx_seq :: u32
  x_rx_buf :: "nat \<Rightarrow> u8"
  x_rx_head :: u64
  x_rx_tail :: u64
  x_rtx_buf :: "nat \<Rightarrow> u8"
  x_rtx_len :: nat
  x_rtx_flags :: u8
  x_rtx_seq :: u32
  x_rtx_end_seq :: u32
  x_rtx_time :: u32
  x_rto :: u32
  x_rtx_count :: nat

record tcp_st = sock_st +
  sockets :: "nat \<Rightarrow> tcp_socket"
  ephemeral_port :: u16

abbreviation (input) TCP_MAX_SOCKETS :: nat where "TCP_MAX_SOCKETS \<equiv> 16"
abbreviation (input) TCP_HDR :: nat where "TCP_HDR \<equiv> 20"
abbreviation (input) TCP_RX_BUF :: nat where "TCP_RX_BUF \<equiv> 4096"
abbreviation (input) TCP_RTX_BUF :: nat where "TCP_RTX_BUF \<equiv> 2048"
abbreviation (input) TCP_RTO_INITIAL :: u32 where "TCP_RTO_INITIAL \<equiv> 300"
abbreviation (input) TCP_RTO_MAX :: u32 where "TCP_RTO_MAX \<equiv> 6000"
abbreviation (input) TCP_MAX_RETRIES :: nat where "TCP_MAX_RETRIES \<equiv> 5"
abbreviation (input) TCP_FIN :: u8 where "TCP_FIN \<equiv> 1"
abbreviation (input) TCP_SYN :: u8 where "TCP_SYN \<equiv> 2"
abbreviation (input) TCP_RST :: u8 where "TCP_RST \<equiv> 4"
abbreviation (input) TCP_PSH :: u8 where "TCP_PSH \<equiv> 8"
abbreviation (input) TCP_ACK :: u8 where "TCP_ACK \<equiv> 16"

definition zero_tcp :: tcp_socket where
  "zero_tcp = \<lparr>x_used = False, x_state = TCP_CLOSED, x_local_ip = 0, x_remote_ip = 0, x_local_port = 0, x_remote_port = 0,
     x_tx_seq = 0, x_rx_seq = 0, x_rx_buf = \<lambda>_. 0, x_rx_head = 0, x_rx_tail = 0, x_rtx_buf = \<lambda>_. 0, x_rtx_len = 0,
     x_rtx_flags = 0, x_rtx_seq = 0, x_rtx_end_seq = 0, x_rtx_time = 0, x_rto = 0, x_rtx_count = 0\<rparr>"

definition upd_tcp :: "nat \<Rightarrow> (tcp_socket \<Rightarrow> tcp_socket) \<Rightarrow> 'a tcp_st_scheme \<Rightarrow> 'a tcp_st_scheme" where
  "upd_tcp i f s = s\<lparr>sockets := (sockets s)(i := f (sockets s i))\<rparr>"

definition rand_seq :: "'a tcp_st_scheme \<Rightarrow> u32" where
  "rand_seq s = ucast ((tick_count s * 0xDEADBEEF) XOR 0x12345678)"

definition tcp_init :: "'a tcp_st_scheme \<Rightarrow> 'a tcp_st_scheme" where
  "tcp_init s = s\<lparr>sockets := \<lambda>_. zero_tcp, ephemeral_port := 49152\<rparr>"

definition get_socket :: "int \<Rightarrow> 'a tcp_st_scheme \<Rightarrow> nat option" where
  "get_socket sd s = (if sd < 0 \<or> sd \<ge> int TCP_MAX_SOCKETS then None else if \<not> x_used (sockets s (nat sd)) then None else Some (nat sd))"

definition free_socket :: "'a tcp_st_scheme \<Rightarrow> nat option" where
  "free_socket s = for_find (\<lambda>i. \<not> x_used (sockets s i)) 0 TCP_MAX_SOCKETS"

definition tcp_listen :: "u16 \<Rightarrow> 'a tcp_st_scheme \<Rightarrow> int \<times> 'a tcp_st_scheme" where
  "tcp_listen port s =
     (case for_find (\<lambda>i. x_used (sockets s i) \<and> x_state (sockets s i) = TCP_LISTEN \<and> x_local_port (sockets s i) = port) 0 TCP_MAX_SOCKETS of
        Some i \<Rightarrow> (int i, s)
      | None \<Rightarrow>
          (case free_socket s of
             None \<Rightarrow> (-1, s)
           | Some i \<Rightarrow>
               (int i, upd_tcp i (\<lambda>_. zero_tcp\<lparr>x_used := True, x_state := TCP_LISTEN, x_local_ip := if_ip (net_iface s),
                  x_local_port := port, x_remote_ip := 0, x_remote_port := 0\<rparr>) s)))"

section \<open>Segments\<close>

definition tcp_checksum :: "u32 \<Rightarrow> u32 \<Rightarrow> u8 \<Rightarrow> u8 list \<Rightarrow> u16" where
  "tcp_checksum src dst proto seg =
     (let pseudo = st32 src @ st32 dst @ [0, proto] @ st16 (htons (of_nat (length seg)));
          acc = sum_words (nth pseudo) 0 12 0
      in NOT (ucast (fold_carry (sum_words (nth seg) 0 (length seg) acc))))"

definition tcp_hdr :: "u16 \<Rightarrow> u16 \<Rightarrow> u32 \<Rightarrow> u32 \<Rightarrow> u8 \<Rightarrow> u16 \<Rightarrow> u8 list" where
  "tcp_hdr src_port dst_port sq ack flags checksum =
     st16 (htons src_port) @ st16 (htons dst_port) @ st32 (htonl sq) @ st32 ack @ [0x50, flags]
       @ st16 (htons 4096) @ st16 checksum @ st16 0"

definition tcp_segment :: "u32 \<Rightarrow> tcp_socket \<Rightarrow> u32 \<Rightarrow> u8 \<Rightarrow> u8 list \<Rightarrow> u8 list" where
  "tcp_segment ip x sq flags bs =
     (let mk = (\<lambda>c. tcp_hdr (x_local_port x) (x_remote_port x) sq (if flags AND TCP_ACK \<noteq> 0 then htonl (x_rx_seq x) else 0) flags c @ bs)
      in mk (tcp_checksum ip (x_remote_ip x) PROTO_TCP (mk 0)))"

text \<open>What is kept of a segment that was sent, for a later retransmission.\<close>

definition save_segment :: "u8 \<Rightarrow> u8 list \<Rightarrow> u32 \<Rightarrow> tcp_socket \<Rightarrow> tcp_socket" where
  "save_segment flags bs now x =
     (let x1 = (if length bs > 0 then x\<lparr>x_tx_seq := x_tx_seq x + of_nat (length bs)\<rparr> else x) in
      if flags AND (TCP_SYN OR TCP_FIN) \<noteq> 0 \<or> length bs > 0 then
        (let save_len = (if length bs < TCP_RTX_BUF then length bs else TCP_RTX_BUF);
             end_seq = x_tx_seq x1 + (if flags AND TCP_SYN \<noteq> 0 then 1 else 0) + (if flags AND TCP_FIN \<noteq> 0 then 1 else 0);
             x2 = x1\<lparr>x_rtx_seq := x_tx_seq x1 - of_nat (length bs), x_rtx_end_seq := end_seq, x_rtx_flags := flags, x_rtx_len := save_len,
               x_rtx_buf := (\<lambda>j. if j < save_len then bs ! j else x_rtx_buf x1 j)\<rparr>;
             x3 = (if x_rtx_count x2 = 0 then x2\<lparr>x_rto := TCP_RTO_INITIAL\<rparr> else x2)
         in x3\<lparr>x_rtx_time := now\<rparr>)
      else x1)"

definition tcp_send_segment ::
  "'a tcp_st_scheme net_env \<Rightarrow> nat \<Rightarrow> u8 \<Rightarrow> u8 list \<Rightarrow> 'a tcp_st_scheme \<Rightarrow> (int \<times> 'a tcp_st_scheme) outcome" where
  "tcp_send_segment E i flags bs s =
     (case net_alloc_buf s of
        (None, s1) \<Rightarrow> Done (-1, s1)
      | (Some b, s1) \<Rightarrow>
          if TCP_HDR + length bs > NET_BUF_SIZE then Panic
          else
            (let x = sockets s1 i;
                 (r, s2) = ip4_send E (x_remote_ip x) PROTO_TCP
                             (tcp_segment (if_ip (net_iface s1)) x (x_tx_seq x) flags bs) s1;
                 s3 = net_free_buf b s2
             in Done (r, if r = 0 then upd_tcp i (save_segment flags bs (ucast (tick_count s3))) s3 else s3)))"

definition tcp_rtx_send :: "'a tcp_st_scheme net_env \<Rightarrow> nat \<Rightarrow> 'a tcp_st_scheme \<Rightarrow> 'a tcp_st_scheme outcome" where
  "tcp_rtx_send E i s =
     (case net_alloc_buf s of
        (None, s1) \<Rightarrow> Done s1
      | (Some b, s1) \<Rightarrow>
          (let x = sockets s1 i in
           if TCP_HDR + x_rtx_len x > NET_BUF_SIZE then Panic
           else Done (net_free_buf b (snd (ip4_send E (x_remote_ip x) PROTO_TCP
                  (tcp_segment (if_ip (net_iface s1)) x (x_rtx_seq x) (x_rtx_flags x) (map (x_rtx_buf x) [0..<x_rtx_len x])) s1)))))"

section \<open>The retransmission timer\<close>

definition tick_one :: "'a tcp_st_scheme net_env \<Rightarrow> u32 \<Rightarrow> nat \<Rightarrow> 'a tcp_st_scheme \<Rightarrow> 'a tcp_st_scheme outcome" where
  "tick_one E now i s =
     (let x = sockets s i in
      if \<not> x_used x \<or> x_rtx_time x = 0 then Done s
      else if now - x_rtx_time x < x_rto x then Done s
      else if x_rtx_count x \<ge> TCP_MAX_RETRIES then
        Done (upd_tcp i (\<lambda>x. x\<lparr>x_rtx_time := 0, x_rtx_len := 0, x_rtx_count := 0, x_state := TCP_CLOSED, x_used := False\<rparr>) s)
      else
        tcp_rtx_send E i (upd_tcp i (\<lambda>x. x\<lparr>x_rtx_count := x_rtx_count x + 1,
            x_rto := (if x_rto x * 2 < TCP_RTO_MAX then x_rto x * 2 else TCP_RTO_MAX), x_rtx_time := now\<rparr>) s))"

primrec tick_all :: "'a tcp_st_scheme net_env \<Rightarrow> u32 \<Rightarrow> nat list \<Rightarrow> 'a tcp_st_scheme \<Rightarrow> 'a tcp_st_scheme outcome" where
  "tick_all E now [] s = Done s"
| "tick_all E now (i # is) s = (case tick_one E now i s of Panic \<Rightarrow> Panic | Done t \<Rightarrow> tick_all E now is t)"

definition tcp_tick :: "'a tcp_st_scheme net_env \<Rightarrow> 'a tcp_st_scheme \<Rightarrow> 'a tcp_st_scheme outcome" where
  "tcp_tick E s = tick_all E (ucast (tick_count s)) [0..<TCP_MAX_SOCKETS] s"

section \<open>Operations for the socket layer\<close>

text \<open>The connecting loop; None if neither an answer nor the end of the time ever comes.\<close>

partial_function (option) connect_wait ::
  "'a tcp_st_scheme net_env \<Rightarrow> (nat \<Rightarrow> 'a tcp_st_scheme \<Rightarrow> 'a tcp_st_scheme) \<Rightarrow> (nat \<Rightarrow> 'a tcp_st_scheme \<Rightarrow> 'a tcp_st_scheme) \<Rightarrow>
     nat \<Rightarrow> u32 \<Rightarrow> nat \<Rightarrow> 'a tcp_st_scheme \<Rightarrow> (int \<times> 'a tcp_st_scheme) outcome option" where
  "connect_wait E poll yield i start k s =
     (if tick_count s - ucast start < 500 then
        (let s1 = (if if_poll (net_iface s) then poll k s else s) in
         case tcp_tick E s1 of
           Panic \<Rightarrow> Some Panic
         | Done s2 \<Rightarrow>
             if x_state (sockets s2 i) = TCP_ESTABLISHED then Some (Done (int i, s2))
             else connect_wait E poll yield i start (Suc k) (yield k s2))
      else Some (Done (-1, upd_tcp i (\<lambda>x. x\<lparr>x_used := False\<rparr>) s)))"

text \<open>The socket of an active open and the SYN, before the waiting loop: None if the open has failed.\<close>

definition connect_start ::
  "'a tcp_st_scheme net_env \<Rightarrow> u32 \<Rightarrow> u16 \<Rightarrow> 'a tcp_st_scheme \<Rightarrow> (nat option \<times> 'a tcp_st_scheme) outcome" where
  "connect_start E ip port s =
     (case free_socket s of
        None \<Rightarrow> Done (None, s)
      | Some i \<Rightarrow>
          (let s1 = (upd_tcp i (\<lambda>_. zero_tcp\<lparr>x_used := True, x_state := TCP_SYN_SENT, x_local_ip := if_ip (net_iface s), x_remote_ip := ip,
                 x_local_port := ephemeral_port s, x_remote_port := port, x_tx_seq := rand_seq s\<rparr>) s)
               \<lparr>ephemeral_port := ephemeral_port s + 1\<rparr>
           in case tcp_send_segment E i TCP_SYN [] s1 of
                Panic \<Rightarrow> Panic
              | Done (r, s2) \<Rightarrow>
                  if r < 0 then Done (None, upd_tcp i (\<lambda>x. x\<lparr>x_used := False\<rparr>) s2)
                  else Done (Some i, upd_tcp i (\<lambda>x. x\<lparr>x_tx_seq := x_tx_seq x + 1\<rparr>) s2)))"

definition tcp_connect ::
  "'a tcp_st_scheme net_env \<Rightarrow> (nat \<Rightarrow> 'a tcp_st_scheme \<Rightarrow> 'a tcp_st_scheme) \<Rightarrow> (nat \<Rightarrow> 'a tcp_st_scheme \<Rightarrow> 'a tcp_st_scheme) \<Rightarrow>
     u32 \<Rightarrow> u16 \<Rightarrow> 'a tcp_st_scheme \<Rightarrow> (int \<times> 'a tcp_st_scheme) outcome option" where
  "tcp_connect E poll yield ip port s =
     (case connect_start E ip port s of
        Panic \<Rightarrow> Some Panic
      | Done (None, s1) \<Rightarrow> Some (Done (-1, s1))
      | Done (Some i, s1) \<Rightarrow> connect_wait E poll yield i (ucast (tick_count s1)) 0 s1)"

definition tcp_send :: "'a tcp_st_scheme net_env \<Rightarrow> int \<Rightarrow> u8 list \<Rightarrow> 'a tcp_st_scheme \<Rightarrow> (int \<times> 'a tcp_st_scheme) outcome" where
  "tcp_send E sd bs s =
     (case get_socket sd s of
        None \<Rightarrow> Done (-1, s)
      | Some i \<Rightarrow>
          if x_state (sockets s i) \<noteq> TCP_ESTABLISHED then Done (-1, s)
          else tcp_send_segment E i (TCP_ACK OR TCP_PSH) bs s)"

primrec rx_take :: "nat \<Rightarrow> tcp_socket \<Rightarrow> u8 list \<times> tcp_socket" where
  "rx_take 0 x = ([], x)"
| "rx_take (Suc n) x =
     (let b = x_rx_buf x (unat (x_rx_head x) mod TCP_RX_BUF); (bs, x1) = rx_take n (x\<lparr>x_rx_head := x_rx_head x + 1\<rparr>) in (b # bs, x1))"

definition tcp_recv :: "int \<Rightarrow> nat \<Rightarrow> 'a tcp_st_scheme \<Rightarrow> (int \<times> u8 list) \<times> 'a tcp_st_scheme" where
  "tcp_recv sd len s =
     (case get_socket sd s of
        None \<Rightarrow> ((-1, []), s)
      | Some i \<Rightarrow>
          (let x = sockets s i; available = unat ((x_rx_tail x - x_rx_head x + 4096) mod 4096) in
           if available = 0 then ((0, []), s)
           else
             (let to_read = (if available < len then available else len); (bs, x1) = rx_take to_read x
              in ((int to_read, bs), upd_tcp i (\<lambda>_. x1) s))))"

definition tcp_close :: "'a tcp_st_scheme net_env \<Rightarrow> int \<Rightarrow> 'a tcp_st_scheme \<Rightarrow> 'a tcp_st_scheme outcome" where
  "tcp_close E sd s =
     (case get_socket sd s of
        None \<Rightarrow> Done s
      | Some i \<Rightarrow>
          (case (if x_state (sockets s i) = TCP_ESTABLISHED
                 then (case tcp_send_segment E i (TCP_FIN OR TCP_ACK) [] s of
                         Panic \<Rightarrow> Panic
                       | Done (_, s1) \<Rightarrow> Done (upd_tcp i (\<lambda>x. x\<lparr>x_tx_seq := x_tx_seq x + 1, x_state := TCP_FIN_WAIT\<rparr>) s1))
                 else Done s) of
             Panic \<Rightarrow> Panic
           | Done s2 \<Rightarrow> Done (upd_tcp i (\<lambda>x. x\<lparr>x_rtx_time := 0, x_rtx_len := 0, x_used := False, x_state := TCP_CLOSED\<rparr>) s2)))"

section \<open>Receiving\<close>

definition tcp_rtx_clear_if_acked :: "u32 \<Rightarrow> tcp_socket \<Rightarrow> tcp_socket" where
  "tcp_rtx_clear_if_acked ack_num x =
     (if x_rtx_time x = 0 then x
      else if ack_num < x_rtx_end_seq x then x
      else x\<lparr>x_rtx_time := 0, x_rtx_len := 0, x_rtx_count := 0\<rparr>)"

definition rx_push :: "u8 \<Rightarrow> tcp_socket \<Rightarrow> tcp_socket" where
  "rx_push b x =
     (if (unat (x_rx_tail x) + 1) mod TCP_RX_BUF \<noteq> unat (x_rx_head x) mod TCP_RX_BUF
      then x\<lparr>x_rx_buf := (x_rx_buf x)(unat (x_rx_tail x) mod TCP_RX_BUF := b), x_rx_tail := x_rx_tail x + 1\<rparr>
      else x)"

text \<open>A SYN for a listening port: the new socket and the SYN-ACK.\<close>

definition tcp_passive_open ::
  "'a tcp_st_scheme net_env \<Rightarrow> u32 \<Rightarrow> u16 \<Rightarrow> u16 \<Rightarrow> u32 \<Rightarrow> u8 \<Rightarrow> 'a tcp_st_scheme \<Rightarrow> 'a tcp_st_scheme outcome" where
  "tcp_passive_open E src src_port dst_port sq flags s =
     (if flags AND TCP_SYN = 0 then Done s
      else if flags AND TCP_ACK \<noteq> 0 then Done s
      else
        (case for_find (\<lambda>i. x_used (sockets s i) \<and> x_state (sockets s i) = TCP_LISTEN \<and> x_local_port (sockets s i) = dst_port) 0 TCP_MAX_SOCKETS of
           None \<Rightarrow> Done s
         | Some _ \<Rightarrow>
             (case free_socket s of
                None \<Rightarrow> Done s
              | Some i \<Rightarrow>
                  (let s1 = upd_tcp i (\<lambda>_. zero_tcp\<lparr>x_used := True, x_state := TCP_SYN_RCVD, x_local_ip := if_ip (net_iface s),
                         x_local_port := dst_port, x_remote_ip := src, x_remote_port := src_port, x_rx_seq := sq + 1,
                         x_tx_seq := rand_seq s\<rparr>) s
                   in case tcp_send_segment E i (TCP_SYN OR TCP_ACK) [] s1 of
                        Panic \<Rightarrow> Panic
                      | Done (_, s2) \<Rightarrow> Done (upd_tcp i (\<lambda>x. x\<lparr>x_tx_seq := x_tx_seq x + 1\<rparr>) s2)))))"

text \<open>The states of the machine. The result of sending is not tested.\<close>

definition send_then :: "'a tcp_st_scheme net_env \<Rightarrow> nat \<Rightarrow> u8 \<Rightarrow> 'a tcp_st_scheme \<Rightarrow> 'a tcp_st_scheme outcome" where
  "send_then E i flags s = (case tcp_send_segment E i flags [] s of Panic \<Rightarrow> Panic | Done (_, t) \<Rightarrow> Done t)"

definition tcp_established ::
  "'a tcp_st_scheme net_env \<Rightarrow> nat \<Rightarrow> u32 \<Rightarrow> u32 \<Rightarrow> u8 \<Rightarrow> pkt \<Rightarrow> nat \<Rightarrow> 'a tcp_st_scheme \<Rightarrow> 'a tcp_st_scheme outcome" where
  "tcp_established E i sq ack flags d data_len s =
     (if flags AND TCP_RST \<noteq> 0 then Done (upd_tcp i (\<lambda>x. x\<lparr>x_state := TCP_CLOSED, x_used := False\<rparr>) s)
      else if flags AND TCP_FIN \<noteq> 0 then
        (case send_then E i TCP_ACK (upd_tcp i (\<lambda>x. x\<lparr>x_rx_seq := sq + 1, x_state := TCP_CLOSE_WAIT\<rparr>) s) of
           Panic \<Rightarrow> Panic
         | Done s1 \<Rightarrow>
             (case send_then E i (TCP_FIN OR TCP_ACK) s1 of
                Panic \<Rightarrow> Panic
              | Done s2 \<Rightarrow> Done (upd_tcp i (\<lambda>x. x\<lparr>x_tx_seq := x_tx_seq x + 1, x_state := TCP_TIME_WAIT\<rparr>) s2)))
      else
        (let s1 = (if flags AND TCP_ACK \<noteq> 0 \<and> x_rtx_time (sockets s i) \<noteq> 0 then upd_tcp i (tcp_rtx_clear_if_acked ack) s else s) in
         if data_len > 0 \<and> sq = x_rx_seq (sockets s1 i) then
           (if data_len \<ge> 2 ^ 63 then Panic
            else send_then E i TCP_ACK (upd_tcp i (\<lambda>x. (fold rx_push (map d [0..<data_len]) x)\<lparr>x_rx_seq := x_rx_seq x + of_nat data_len\<rparr>) s1))
         else Done s1))"

definition tcp_segment_arrives ::
  "'a tcp_st_scheme net_env \<Rightarrow> nat \<Rightarrow> u32 \<Rightarrow> u32 \<Rightarrow> u8 \<Rightarrow> pkt \<Rightarrow> nat \<Rightarrow> 'a tcp_st_scheme \<Rightarrow> 'a tcp_st_scheme outcome" where
  "tcp_segment_arrives E i sq ack flags d data_len s =
     (let x = sockets s i in
      case x_state x of
        TCP_SYN_RCVD \<Rightarrow>
          if flags AND TCP_RST \<noteq> 0
          then Done (upd_tcp i (\<lambda>x. x\<lparr>x_rtx_time := 0, x_used := False, x_state := TCP_CLOSED\<rparr>) s)
          else if flags AND TCP_ACK \<noteq> 0 \<and> ack = x_tx_seq x
          then Done (sock_notify_accept (x_local_port x) (x_remote_ip x) (x_remote_port x) i
                 (upd_tcp i (\<lambda>x. (tcp_rtx_clear_if_acked ack x)\<lparr>x_state := TCP_ESTABLISHED\<rparr>) s))
          else Done s
      | TCP_SYN_SENT \<Rightarrow>
          if flags AND (TCP_SYN OR TCP_ACK) = TCP_SYN OR TCP_ACK \<and> ack = x_tx_seq x
          then send_then E i TCP_ACK (upd_tcp i (\<lambda>x. (tcp_rtx_clear_if_acked ack x)\<lparr>x_rx_seq := sq + 1, x_state := TCP_ESTABLISHED\<rparr>) s)
          else Done s
      | TCP_ESTABLISHED \<Rightarrow> tcp_established E i sq ack flags d data_len s
      | TCP_FIN_WAIT \<Rightarrow> Done (if flags AND TCP_ACK \<noteq> 0 then upd_tcp i (\<lambda>x. x\<lparr>x_state := TCP_TIME_WAIT\<rparr>) s else s)
      | TCP_TIME_WAIT \<Rightarrow> Done (upd_tcp i (\<lambda>x. x\<lparr>x_state := TCP_CLOSED, x_used := False\<rparr>) s)
      | _ \<Rightarrow> Done s)"

definition tcp_match :: "u32 \<Rightarrow> u16 \<Rightarrow> u16 \<Rightarrow> 'a tcp_st_scheme \<Rightarrow> nat option" where
  "tcp_match src src_port dst_port s =
     for_find (\<lambda>i. x_used (sockets s i) \<and> x_local_port (sockets s i) = dst_port \<and> x_remote_port (sockets s i) = src_port
       \<and> x_remote_ip (sockets s i) = src) 0 TCP_MAX_SOCKETS"

definition tcp_receive :: "'a tcp_st_scheme net_env \<Rightarrow> u32 \<Rightarrow> pkt \<Rightarrow> nat \<Rightarrow> 'a tcp_st_scheme \<Rightarrow> 'a tcp_st_scheme outcome" where
  "tcp_receive E src p len s =
     (if len < TCP_HDR then Done s
      else
        (let dst_port = ntohs (ld16 p 2); src_port = ntohs (ld16 p 0); sq = ntohl (ld32 p 4); ack = ntohl (ld32 p 8); flags = p 13 in
         case tcp_match src src_port dst_port s of
           None \<Rightarrow> tcp_passive_open E src src_port dst_port sq flags s
         | Some i \<Rightarrow>
             (let data_off = unat (drop_bit 4 (p 12)) * 4 in
              tcp_segment_arrives E i sq ack flags (\<lambda>j. p (data_off + j)) (if data_off \<le> len then len - data_off else 0) s)))"

section \<open>The receive ring\<close>

definition rx_count :: "tcp_socket \<Rightarrow> nat" where
  "rx_count x = unat (x_rx_tail x - x_rx_head x)"

definition rx_ok :: "tcp_socket \<Rightarrow> bool" where
  "rx_ok x \<longleftrightarrow> rx_count x < 4096"

definition rx_bytes :: "tcp_socket \<Rightarrow> u8 list" where
  "rx_bytes x = ring_list 4096 (x_rx_buf x) (unat (x_rx_head x) mod 4096) (rx_count x)"

definition rx_deq :: "tcp_socket \<Rightarrow> u8 option \<times> tcp_socket" where
  "rx_deq x = (if rx_count x = 0 then (None, x) else case rx_take 1 x of (bs, x1) \<Rightarrow> (Some (hd bs), x1))"

lemma length_rx_bytes [simp]: "length (rx_bytes x) = rx_count x"
  by (simp add: rx_bytes_def)

lemma unat_add_mod_4096: "unat (a + b :: u64) mod 4096 = (unat a + unat b) mod 4096"
  by (simp add: unat_word_ariths mod_mod_cancel)

lemma rx_tail_index: "unat (x_rx_tail x) mod 4096 = (unat (x_rx_head x) mod 4096 + rx_count x) mod 4096"
proof -
  have "x_rx_tail x = x_rx_head x + (x_rx_tail x - x_rx_head x)" by simp
  then have "unat (x_rx_tail x) mod 4096 = (unat (x_rx_head x) + rx_count x) mod 4096"
    unfolding rx_count_def by (metis unat_add_mod_4096)
  then show ?thesis by (simp add: mod_add_left_eq)
qed

lemma rx_push_guard:
  assumes "rx_ok x"
  shows "(unat (x_rx_tail x) + 1) mod 4096 \<noteq> unat (x_rx_head x) mod 4096 \<longleftrightarrow> rx_count x < 4095"
proof -
  have e: "(unat (x_rx_tail x) + 1) mod 4096 = (unat (x_rx_head x) mod 4096 + Suc (rx_count x)) mod 4096"
    using rx_tail_index [of x] by (metis Suc_eq_plus1 add_Suc_right mod_add_left_eq)
  show ?thesis
  proof (cases "rx_count x < 4095")
    case True
    then have "(unat (x_rx_head x) mod 4096 + 0) mod 4096 \<noteq> (unat (x_rx_head x) mod 4096 + Suc (rx_count x)) mod 4096"
      by (intro ring_index_inj) simp_all
    then show ?thesis using e True by simp
  next
    case False
    then have "Suc (rx_count x) = 4096" using assms by (simp add: rx_ok_def)
    then show ?thesis using e False by simp
  qed
qed

lemma rx_push_room:
  assumes "rx_ok x" "rx_count x < 4095"
  shows "rx_push b x = x\<lparr>x_rx_buf := (x_rx_buf x)(unat (x_rx_tail x) mod 4096 := b), x_rx_tail := x_rx_tail x + 1\<rparr>"
    "rx_count (rx_push b x) = Suc (rx_count x)" "rx_bytes (rx_push b x) = rx_bytes x @ [b]"
proof -
  show p: "rx_push b x = x\<lparr>x_rx_buf := (x_rx_buf x)(unat (x_rx_tail x) mod 4096 := b), x_rx_tail := x_rx_tail x + 1\<rparr>"
    using rx_push_guard [OF assms(1)] assms(2) by (simp add: rx_push_def)
  have "x_rx_tail x - x_rx_head x \<noteq> - 1"
  proof
    assume "x_rx_tail x - x_rx_head x = - 1"
    then have "rx_count x = 2 ^ 64 - 1" by (simp add: rx_count_def unsigned_minus_1_eq_mask mask_eq_exp_minus_1)
    then show False using assms(2) by simp
  qed
  then have "unat (x_rx_tail x - x_rx_head x + 1) = Suc (rx_count x)" unfolding rx_count_def by (rule unat_Suc_no_wrap)
  then show c: "rx_count (rx_push b x) = Suc (rx_count x)" by (simp add: p rx_count_def algebra_simps)
  show "rx_bytes (rx_push b x) = rx_bytes x @ [b]"
    using ring_list_push [of "rx_count x" 4096 "x_rx_buf x" "unat (x_rx_head x) mod 4096" b] assms(2) c rx_tail_index [of x]
    by (simp add: rx_bytes_def p)
qed

lemma rx_push_full: "rx_ok x \<Longrightarrow> rx_count x = 4095 \<Longrightarrow> rx_push b x = x"
  using rx_push_guard [of x] by (simp add: rx_push_def)

lemma rx_take_one:
  assumes "rx_ok x" "rx_bytes x = c # cs"
  shows "x_rx_buf x (unat (x_rx_head x) mod 4096) = c" "rx_ok (x\<lparr>x_rx_head := x_rx_head x + 1\<rparr>)"
    "rx_bytes (x\<lparr>x_rx_head := x_rx_head x + 1\<rparr>) = cs"
proof -
  let ?y = "x\<lparr>x_rx_head := x_rx_head x + 1\<rparr>"
  have n: "0 < rx_count x" using arg_cong [OF assms(2), of length] by simp
  then have "x_rx_tail x - x_rx_head x \<noteq> 0" by (auto simp: rx_count_def)
  then have "unat (x_rx_tail x - x_rx_head x - 1) = rx_count x - 1" unfolding rx_count_def by (rule unat_minus_1)
  then have c: "rx_count ?y = rx_count x - 1" by (simp add: rx_count_def algebra_simps)
  have h: "unat (x_rx_head x + 1) mod 4096 = Suc (unat (x_rx_head x) mod 4096) mod 4096"
    using unat_add_mod_4096 [of "x_rx_head x" 1] by (simp add: mod_Suc_eq)
  have "rx_bytes x = x_rx_buf x (unat (x_rx_head x) mod 4096) # rx_bytes ?y"
    using ring_list_pop [of "unat (x_rx_head x) mod 4096" 4096 "rx_count x" "x_rx_buf x"] n c h by (simp add: rx_bytes_def)
  then show "x_rx_buf x (unat (x_rx_head x) mod 4096) = c" "rx_bytes ?y = cs" using assms(2) by simp_all
  show "rx_ok ?y" using assms(1) c by (simp add: rx_ok_def)
qed

interpretation tcpq: bounded_fifo rx_bytes 4095 rx_ok rx_push rx_deq
proof unfold_locales
  fix x :: tcp_socket and b
  assume x: "rx_ok x"
  show "length (rx_bytes x) \<le> 4095" using x by (simp add: rx_ok_def)
  show "rx_ok (rx_push b x)"
  proof (cases "rx_count x < 4095")
    case True
    then show ?thesis using rx_push_room(2) [OF x True] by (simp add: rx_ok_def)
  next
    case False
    then show ?thesis using x rx_push_full [OF x] by (simp add: rx_ok_def)
  qed
  show "rx_bytes (rx_push b x) = rx_bytes x @ [b]" if "length (rx_bytes x) < 4095" using rx_push_room(3) [OF x] that by simp
  show "rx_bytes (rx_push b x) = rx_bytes x" if "length (rx_bytes x) = 4095" using rx_push_full [OF x] that by simp
  show "rx_ok (snd (rx_deq x))"
  proof (cases "rx_bytes x")
    case Nil
    then have "rx_count x = 0" by (metis length_rx_bytes list.size(3))
    then show ?thesis using x by (simp add: rx_deq_def)
  next
    case (Cons c cs)
    then show ?thesis using x rx_take_one(2) [OF x Cons] by (simp add: rx_deq_def)
  qed
  show "fst (rx_deq x) = None \<and> rx_bytes (snd (rx_deq x)) = []" if "rx_bytes x = []"
  proof -
    have "rx_count x = 0" using that by (metis length_rx_bytes list.size(3))
    then show ?thesis using that by (simp add: rx_deq_def)
  qed
  show "fst (rx_deq x) = Some c \<and> rx_bytes (snd (rx_deq x)) = cs" if "rx_bytes x = c # cs" for c cs
  proof -
    have "rx_count x \<noteq> 0" using arg_cong [OF that, of length] by simp
    then show ?thesis using rx_take_one [OF x that] by (simp add: rx_deq_def)
  qed
qed

lemma rx_take_bytes:
  "rx_ok x \<Longrightarrow> n \<le> rx_count x \<Longrightarrow> \<exists>y. rx_take n x = (take n (rx_bytes x), y) \<and> rx_ok y \<and> rx_bytes y = drop n (rx_bytes x)
     \<and> y\<lparr>x_rx_head := x_rx_head x\<rparr> = x"
proof (induction n arbitrary: x)
  case 0
  then show ?case by simp
next
  case (Suc n)
  then obtain c cs where cs: "rx_bytes x = c # cs" by (metis length_rx_bytes list.exhaust list.size(3) not_less_eq_eq zero_le)
  let ?x = "x\<lparr>x_rx_head := x_rx_head x + 1\<rparr>"
  note o = rx_take_one [OF Suc.prems(1) cs]
  have "n \<le> rx_count ?x" using Suc.prems(2) arg_cong [OF cs, of length] arg_cong [OF o(3), of length] by simp
  then obtain y where y: "rx_take n ?x = (take n cs, y)" "rx_ok y" "rx_bytes y = drop n cs" "y\<lparr>x_rx_head := x_rx_head ?x\<rparr> = ?x"
    using Suc.IH [OF o(2)] o(3) by metis
  have "y\<lparr>x_rx_head := x_rx_head x\<rparr> = x"
  proof -
    have "(y\<lparr>x_rx_head := x_rx_head ?x\<rparr>)\<lparr>x_rx_head := x_rx_head x\<rparr> = ?x\<lparr>x_rx_head := x_rx_head x\<rparr>" using y(4) by simp
    then show ?thesis by simp
  qed
  then show ?case using y cs o(1) by simp
qed

lemma rx_push_all:
  assumes "rx_ok x"
  shows "rx_ok (fold rx_push bs x)" "rx_bytes (fold rx_push bs x) = rx_bytes x @ take (4095 - rx_count x) bs"
proof -
  have "fold rx_push bs x = tcpq.enq_all bs x" for bs x by (induction bs arbitrary: x) simp_all
  then show "rx_ok (fold rx_push bs x)" "rx_bytes (fold rx_push bs x) = rx_bytes x @ take (4095 - rx_count x) bs"
    using tcpq.inv_enq_all [OF assms] tcpq.enq_all_content [OF assms] by simp_all
qed

section \<open>The invariant of the socket table\<close>

text \<open>
  A socket in use is neither closed nor waiting for the answer to its FIN; what is saved for retransmission fits into a
  packet; the timer is bounded; and the receive ring never holds more than its size.
\<close>

definition tcp_sock_ok :: "tcp_socket \<Rightarrow> bool" where
  "tcp_sock_ok x \<longleftrightarrow> (x_used x \<longrightarrow> x_state x \<noteq> TCP_CLOSED \<and> x_state x \<noteq> TCP_FIN_WAIT) \<and> x_rtx_len x \<le> 1994
     \<and> x_rto x \<le> TCP_RTO_MAX \<and> x_rtx_count x \<le> TCP_MAX_RETRIES \<and> rx_ok x"

definition tcp_ok :: "'a tcp_st_scheme \<Rightarrow> bool" where
  "tcp_ok s \<longleftrightarrow> (\<forall>i<TCP_MAX_SOCKETS. tcp_sock_ok (sockets s i))"

definition irq_keeps :: "'a tcp_st_scheme net_env \<Rightarrow> bool" where
  "irq_keeps E \<longleftrightarrow> (\<forall>k s. tcp_ok s \<longrightarrow> tcp_ok (irq E k s))"

lemma more_sockets: "ip_st.more t = ip_st.more s \<Longrightarrow> sockets t = sockets s" "net_st.more t = net_st.more s \<Longrightarrow> sockets t = sockets s"
  by (cases t; cases s; simp)+

lemma tcp_ok_cong: "sockets t = sockets s \<Longrightarrow> tcp_ok t = tcp_ok s"
  by (simp add: tcp_ok_def)

lemma tcp_ok_upd: "tcp_ok s \<Longrightarrow> (tcp_sock_ok (sockets s i) \<Longrightarrow> tcp_sock_ok (f (sockets s i))) \<Longrightarrow> tcp_ok (upd_tcp i f s)"
  by (auto simp: tcp_ok_def upd_tcp_def)

lemma sockets_buf [simp]:
  "sockets (net_free_buf b s) = sockets s" "sockets (snd (net_alloc_buf s)) = sockets s"
  by (rule more_sockets(2); simp)+

lemma tcp_ok_sockets [simp]:
  "tcp_ok (net_free_buf b s) = tcp_ok s" "tcp_ok (snd (net_alloc_buf s)) = tcp_ok s" "tcp_ok (s\<lparr>ephemeral_port := v\<rparr>) = tcp_ok s"
  by (rule tcp_ok_cong; simp)+

lemma ip4_send_tcp_ok:
  fixes s :: "'a tcp_st_scheme"
  assumes "irq_keeps E" "tcp_ok s"
  shows "tcp_ok (snd (ip4_send E dst pr pl s))"
proof -
  define Q where "Q m \<longleftrightarrow> (\<forall>t :: 'a tcp_st_scheme. ip_st.more t = m \<longrightarrow> tcp_ok t)" for m
  have q: "Q (ip_st.more t) \<longleftrightarrow> tcp_ok t" for t unfolding Q_def using more_sockets(1) tcp_ok_cong by blast
  show ?thesis using ip4_send_keeps [of Q E s dst pr pl] assms unfolding q irq_keeps_def by blast
qed

lemma save_segment_ok: "tcp_sock_ok x \<Longrightarrow> length bs \<le> 1994 \<Longrightarrow> tcp_sock_ok (save_segment fl bs now x)"
  by (auto simp: save_segment_def Let_def tcp_sock_ok_def rx_ok_def rx_count_def)

lemma length_tcp_segment [simp]: "length (tcp_segment ip x sq fl bs) = 20 + length bs"
  by (simp add: tcp_segment_def tcp_hdr_def Let_def)

lemma send_segment_ok:
  assumes E: "irq_keeps E" and s: "tcp_ok s" and d: "tcp_send_segment E i fl bs s = Done (r, t)"
  shows "tcp_ok t"
proof (cases "net_alloc_buf s")
  case (Pair o1 s1)
  then have s1: "tcp_ok s1" using s tcp_ok_sockets(2) [of s] by simp
  show ?thesis
  proof (cases o1)
    case None
    then show ?thesis using d Pair s1 by (simp add: tcp_send_segment_def)
  next
    case (Some b)
    define seg where "seg = tcp_segment (if_ip (net_iface s1)) (sockets s1 i) (x_tx_seq (sockets s1 i)) fl bs"
    define u where "u = net_free_buf b (snd (ip4_send E (x_remote_ip (sockets s1 i)) PROTO_TCP seg s1))"
    have u: "tcp_ok u" using ip4_send_tcp_ok [OF E s1] by (simp add: u_def)
    have t: "t = (if r = 0 then upd_tcp i (save_segment fl bs (ucast (tick_count u))) u else u)"
      "r = fst (ip4_send E (x_remote_ip (sockets s1 i)) PROTO_TCP seg s1)"
      using d Pair Some by (auto simp: tcp_send_segment_def Let_def split_beta u_def seg_def split: if_splits)
    have "length bs \<le> 1994" if "r = 0"
      using ip4_send_fits [of E "x_remote_ip (sockets s1 i)" 6 seg s1] t(2) that by (simp add: seg_def)
    then show ?thesis using u t(1) save_segment_ok tcp_ok_upd [OF u] by auto
  qed
qed

lemma rtx_send_ok:
  assumes "irq_keeps E" "tcp_ok s" "i < 16"
  shows "\<exists>t. tcp_rtx_send E i s = Done t \<and> tcp_ok t"
proof (cases "net_alloc_buf s")
  case (Pair o1 s1)
  then have s1: "tcp_ok s1" using assms(2) tcp_ok_sockets(2) [of s] by simp
  then have "x_rtx_len (sockets s1 i) \<le> 1994" using assms(3) by (simp add: tcp_ok_def tcp_sock_ok_def)
  then show ?thesis using Pair s1 ip4_send_tcp_ok [OF assms(1) s1] by (cases o1) (simp_all add: tcp_rtx_send_def Let_def)
qed

lemma tick_one_ok:
  assumes "irq_keeps E" "tcp_ok s" "i < 16"
  shows "\<exists>t. tick_one E now i s = Done t \<and> tcp_ok t"
proof (cases "x_used (sockets s i) \<and> x_rtx_time (sockets s i) \<noteq> 0 \<and> \<not> now - x_rtx_time (sockets s i) < x_rto (sockets s i)
    \<and> x_rtx_count (sockets s i) < 5")
  case True
  let ?f = "\<lambda>x. x\<lparr>x_rtx_count := x_rtx_count x + 1, x_rto := (if x_rto x * 2 < TCP_RTO_MAX then x_rto x * 2 else TCP_RTO_MAX), x_rtx_time := now\<rparr>"
  have "tcp_ok (upd_tcp i ?f s)"
    by (rule tcp_ok_upd [OF assms(2)]) (use True in \<open>auto simp: tcp_sock_ok_def rx_ok_def rx_count_def\<close>)
  from rtx_send_ok [OF assms(1) this assms(3)] show ?thesis using True by (simp add: tick_one_def Let_def)
next
  case False
  have "tcp_ok (upd_tcp i (\<lambda>x. x\<lparr>x_rtx_time := 0, x_rtx_len := 0, x_rtx_count := 0, x_state := TCP_CLOSED, x_used := False\<rparr>) s)"
    by (rule tcp_ok_upd [OF assms(2)]) (auto simp: tcp_sock_ok_def rx_ok_def rx_count_def)
  then show ?thesis using False assms(2) by (auto simp: tick_one_def Let_def)
qed

lemma tick_ok:
  assumes "irq_keeps E" "tcp_ok s"
  shows "\<exists>t. tcp_tick E s = Done t \<and> tcp_ok t"
proof -
  have "\<exists>t. tick_all E now is s = Done t \<and> tcp_ok t" if "set is \<subseteq> {..<16}" "tcp_ok s" for now "is" s
    using that
  proof (induction "is" arbitrary: s)
    case Nil
    then show ?case by simp
  next
    case (Cons i "is")
    then obtain u where "tick_one E now i s = Done u" "tcp_ok u" using tick_one_ok [OF assms(1), of s i now] by auto
    then show ?case using Cons by simp
  qed
  then show ?thesis using assms(2) unfolding tcp_tick_def by (simp add: subset_iff)
qed

lemma listen_ok: "tcp_ok s \<Longrightarrow> tcp_ok (snd (tcp_listen port s))"
  by (auto simp: tcp_listen_def tcp_sock_ok_def zero_tcp_def rx_ok_def rx_count_def intro!: tcp_ok_upd split: option.splits)

lemma connect_start_ok:
  assumes E: "irq_keeps E" and s: "tcp_ok s" and d: "connect_start E ip port s = Done (r, t)"
  shows "tcp_ok t"
proof (cases "free_socket s")
  case None
  then show ?thesis using d s by (simp add: connect_start_def)
next
  case (Some i)
  define s1 where "s1 = (upd_tcp i (\<lambda>_. zero_tcp\<lparr>x_used := True, x_state := TCP_SYN_SENT, x_local_ip := if_ip (net_iface s), x_remote_ip := ip,
    x_local_port := ephemeral_port s, x_remote_port := port, x_tx_seq := rand_seq s\<rparr>) s)\<lparr>ephemeral_port := ephemeral_port s + 1\<rparr>"
  have s1: "tcp_ok s1" unfolding s1_def tcp_ok_sockets
    by (rule tcp_ok_upd [OF s]) (simp add: tcp_sock_ok_def zero_tcp_def rx_ok_def rx_count_def)
  obtain q s2 where s2: "tcp_send_segment E i TCP_SYN [] s1 = Done (q, s2)"
    "t = (if q < 0 then upd_tcp i (\<lambda>x. x\<lparr>x_used := False\<rparr>) s2 else upd_tcp i (\<lambda>x. x\<lparr>x_tx_seq := x_tx_seq x + 1\<rparr>) s2)"
    using d Some by (auto simp: connect_start_def Let_def s1_def split: outcome.splits prod.splits if_splits)
  have "tcp_ok s2" by (rule send_segment_ok [OF E s1 s2(1)])
  then show ?thesis unfolding s2(2) by (auto intro!: tcp_ok_upd simp: tcp_sock_ok_def rx_ok_def rx_count_def)
qed

lemma recv_ok: "tcp_ok s \<Longrightarrow> tcp_ok (snd (tcp_recv sd len s))"
proof -
  assume s: "tcp_ok s"
  have "tcp_ok (upd_tcp i (\<lambda>_. snd (rx_take n (sockets s i))) s)" if "n \<le> unat ((x_rx_tail (sockets s i) - x_rx_head (sockets s i) + 4096) mod 4096)" for i n
  proof (rule tcp_ok_upd [OF s])
    assume x: "tcp_sock_ok (sockets s i)"
    then have ok: "rx_ok (sockets s i)" by (simp add: tcp_sock_ok_def)
    have "n \<le> rx_count (sockets s i)"
    proof -
      have "unat ((x_rx_tail (sockets s i) - x_rx_head (sockets s i) + 4096) mod 4096) = (rx_count (sockets s i) + 4096) mod 4096"
        by (simp add: unat_mod unat_add_mod_4096 rx_count_def)
      then show ?thesis using that ok by (simp add: rx_ok_def)
    qed
    from rx_take_bytes [OF ok this] obtain y where y: "rx_take n (sockets s i) = (take n (rx_bytes (sockets s i)), y)" "rx_ok y"
      "y\<lparr>x_rx_head := x_rx_head (sockets s i)\<rparr> = sockets s i" by blast
    have e: "x_used y = x_used (sockets s i)" "x_state y = x_state (sockets s i)" "x_rtx_len y = x_rtx_len (sockets s i)"
      "x_rto y = x_rto (sockets s i)" "x_rtx_count y = x_rtx_count (sockets s i)" by (subst y(3) [symmetric], simp)+
    then show "tcp_sock_ok (snd (rx_take n (sockets s i)))" using y(1,2) x by (simp add: tcp_sock_ok_def)
  qed
  then show ?thesis using s by (auto simp: tcp_recv_def Let_def split_beta split: option.splits)
qed

lemma send_ok: "irq_keeps E \<Longrightarrow> tcp_ok s \<Longrightarrow> tcp_send E sd bs s = Done (r, t) \<Longrightarrow> tcp_ok t"
  by (auto simp: tcp_send_def dest: send_segment_ok split: option.splits if_splits)

lemma close_ok:
  assumes E: "irq_keeps E" and s: "tcp_ok s" and d: "tcp_close E sd s = Done t"
  shows "tcp_ok t"
proof (cases "get_socket sd s")
  case None
  then show ?thesis using d s by (simp add: tcp_close_def)
next
  case (Some i)
  let ?f = "\<lambda>x. x\<lparr>x_rtx_time := 0, x_rtx_len := 0, x_used := False, x_state := TCP_CLOSED\<rparr>"
  let ?g = "\<lambda>x. x\<lparr>x_tx_seq := x_tx_seq x + 1, x_state := TCP_FIN_WAIT\<rparr>"
  have f: "tcp_ok (upd_tcp i ?f u)" if "tcp_ok u" for u
    by (rule tcp_ok_upd [OF that]) (simp add: tcp_sock_ok_def rx_ok_def rx_count_def)
  have "tcp_ok (upd_tcp i ?f (upd_tcp i ?g u))" if "tcp_ok u" for u
  proof -
    have "upd_tcp i ?f (upd_tcp i ?g u) = upd_tcp i (?f \<circ> ?g) u" by (simp add: upd_tcp_def)
    then show ?thesis using tcp_ok_upd [OF that, of i "?f \<circ> ?g"] by (simp add: tcp_sock_ok_def rx_ok_def rx_count_def)
  qed
  then show ?thesis
    using d Some s f send_segment_ok [OF E s] by (auto simp: tcp_close_def split: if_splits outcome.splits prod.splits) blast
qed

lemma send_then_ok: "irq_keeps E \<Longrightarrow> tcp_ok s \<Longrightarrow> send_then E i fl s = Done t \<Longrightarrow> tcp_ok t"
  by (auto simp: send_then_def dest: send_segment_ok split: outcome.splits prod.splits)

lemma clear_ok: "tcp_sock_ok x \<Longrightarrow> tcp_sock_ok (tcp_rtx_clear_if_acked a x)"
  by (simp add: tcp_rtx_clear_if_acked_def tcp_sock_ok_def rx_ok_def rx_count_def)

lemma fold_push_same:
  "x_used (fold rx_push bs x) = x_used x" "x_state (fold rx_push bs x) = x_state x" "x_rtx_len (fold rx_push bs x) = x_rtx_len x"
  "x_rto (fold rx_push bs x) = x_rto x" "x_rtx_count (fold rx_push bs x) = x_rtx_count x"
  by (induction bs arbitrary: x) (simp_all add: rx_push_def)

lemma passive_open_ok:
  assumes E: "irq_keeps E" and s: "tcp_ok s" and d: "tcp_passive_open E src sp dp sq fl s = Done t"
  shows "tcp_ok t"
proof -
  have "tcp_ok (upd_tcp i (\<lambda>_. zero_tcp\<lparr>x_used := True, x_state := TCP_SYN_RCVD, x_local_ip := if_ip (net_iface s),
      x_local_port := dp, x_remote_ip := src, x_remote_port := sp, x_rx_seq := sq + 1, x_tx_seq := rand_seq s\<rparr>) s)" for i
    by (rule tcp_ok_upd [OF s]) (simp add: tcp_sock_ok_def zero_tcp_def rx_ok_def rx_count_def)
  moreover have "tcp_ok (upd_tcp i (\<lambda>x. x\<lparr>x_tx_seq := x_tx_seq x + 1\<rparr>) u)" if "tcp_ok u" for i u
    by (rule tcp_ok_upd [OF that]) (simp add: tcp_sock_ok_def rx_ok_def rx_count_def)
  moreover have "t = s \<or> (\<exists>i q u. tcp_send_segment E i (TCP_SYN OR TCP_ACK) [] (upd_tcp i (\<lambda>_. zero_tcp\<lparr>x_used := True, x_state := TCP_SYN_RCVD,
      x_local_ip := if_ip (net_iface s), x_local_port := dp, x_remote_ip := src, x_remote_port := sp, x_rx_seq := sq + 1, x_tx_seq := rand_seq s\<rparr>) s)
      = Done (q, u) \<and> t = upd_tcp i (\<lambda>x. x\<lparr>x_tx_seq := x_tx_seq x + 1\<rparr>) u)"
    using d by (auto simp: tcp_passive_open_def Let_def split: if_splits option.splits outcome.splits prod.splits)
  ultimately show ?thesis using s send_segment_ok [OF E] by blast
qed

lemma established_ok:
  assumes E: "irq_keeps E" and s: "tcp_ok s" and d: "tcp_established E i sq ack fl dat n s = Done t"
  shows "tcp_ok t"
proof -
  have a: "tcp_ok (upd_tcp i (\<lambda>x. x\<lparr>x_state := TCP_CLOSED, x_used := False\<rparr>) s)"
    "tcp_ok (upd_tcp i (\<lambda>x. x\<lparr>x_rx_seq := sq + 1, x_state := TCP_CLOSE_WAIT\<rparr>) s)" "tcp_ok (upd_tcp i (tcp_rtx_clear_if_acked ack) s)"
    by (rule tcp_ok_upd [OF s], auto simp: tcp_sock_ok_def tcp_rtx_clear_if_acked_def rx_ok_def rx_count_def)+
  have b: "tcp_ok (upd_tcp i (\<lambda>x. x\<lparr>x_tx_seq := x_tx_seq x + 1, x_state := TCP_TIME_WAIT\<rparr>) u)"
    "tcp_ok (upd_tcp i (\<lambda>x. (fold rx_push bs x)\<lparr>x_rx_seq := x_rx_seq x + of_nat m\<rparr>) u)" if "tcp_ok u" for u bs and m :: nat
  proof -
    show "tcp_ok (upd_tcp i (\<lambda>x. x\<lparr>x_tx_seq := x_tx_seq x + 1, x_state := TCP_TIME_WAIT\<rparr>) u)"
      by (rule tcp_ok_upd [OF that]) (auto simp: tcp_sock_ok_def rx_ok_def rx_count_def)
    show "tcp_ok (upd_tcp i (\<lambda>x. (fold rx_push bs x)\<lparr>x_rx_seq := x_rx_seq x + of_nat m\<rparr>) u)"
    proof (rule tcp_ok_upd [OF that])
      assume x: "tcp_sock_ok (sockets u i)"
      then have "rx_ok (fold rx_push bs (sockets u i))" by (intro rx_push_all(1)) (simp add: tcp_sock_ok_def)
      then show "tcp_sock_ok ((fold rx_push bs (sockets u i))\<lparr>x_rx_seq := x_rx_seq (sockets u i) + of_nat m\<rparr>)"
        using x by (simp add: tcp_sock_ok_def fold_push_same rx_ok_def rx_count_def)
    qed
  qed
  consider "fl AND TCP_RST \<noteq> 0" | "fl AND TCP_RST = 0" "fl AND TCP_FIN \<noteq> 0" | "fl AND TCP_RST = 0" "fl AND TCP_FIN = 0" by blast
  then show ?thesis
  proof cases
    case 1
    then show ?thesis using d a by (simp add: tcp_established_def)
  next
    case 2
    then obtain u v where u: "send_then E i TCP_ACK (upd_tcp i (\<lambda>x. x\<lparr>x_rx_seq := sq + 1, x_state := TCP_CLOSE_WAIT\<rparr>) s) = Done u"
      "send_then E i (TCP_FIN OR TCP_ACK) u = Done v" "t = upd_tcp i (\<lambda>x. x\<lparr>x_tx_seq := x_tx_seq x + 1, x_state := TCP_TIME_WAIT\<rparr>) v"
      using d by (auto simp: tcp_established_def split: outcome.splits)
    have "tcp_ok v" by (rule send_then_ok [OF E send_then_ok [OF E a(2) u(1)] u(2)])
    then show ?thesis unfolding u(3) by (rule b(1))
  next
    case 3
    define s1 where "s1 = (if fl AND TCP_ACK \<noteq> 0 \<and> x_rtx_time (sockets s i) \<noteq> 0 then upd_tcp i (tcp_rtx_clear_if_acked ack) s else s)"
    have "tcp_ok s1" using a(3) s by (simp add: s1_def)
    moreover have "(if n > 0 \<and> sq = x_rx_seq (sockets s1 i) then if n \<ge> 2 ^ 63 then Panic
        else send_then E i TCP_ACK (upd_tcp i (\<lambda>x. (fold rx_push (map dat [0..<n]) x)\<lparr>x_rx_seq := x_rx_seq x + of_nat n\<rparr>) s1)
      else Done s1) = Done t"
      using d 3 unfolding tcp_established_def s1_def Let_def by (simp only: if_True if_False simp_thms)
    moreover have "tcp_ok t" if "send_then E i TCP_ACK (upd_tcp i (\<lambda>x. (fold rx_push (map dat [0..<n]) x)\<lparr>x_rx_seq := x_rx_seq x + of_nat n\<rparr>) s1) = Done t"
      by (rule send_then_ok [OF E b(2) [OF \<open>tcp_ok s1\<close>] that])
    ultimately show ?thesis by (auto split: if_splits)
  qed
qed

lemma sockets_notify [simp]: "sockets (sock_notify_accept p a q i s) = sockets s"
  by (simp add: sock_notify_accept_def upd_sock_def split: option.splits)

lemma receive_ok:
  assumes E: "irq_keeps E" and s: "tcp_ok s" and d: "tcp_receive E src p len s = Done t"
  shows "tcp_ok t"
proof -
  have "tcp_ok u" if u: "tcp_segment_arrives E i sq ack fl dat n s = Done u" for i sq ack fl dat n u
  proof -
    have a: "tcp_ok (upd_tcp i (\<lambda>x. x\<lparr>x_rtx_time := 0, x_used := False, x_state := TCP_CLOSED\<rparr>) s)"
      "tcp_ok (upd_tcp i (\<lambda>x. (tcp_rtx_clear_if_acked ack x)\<lparr>x_state := TCP_ESTABLISHED\<rparr>) s)"
      "tcp_ok (upd_tcp i (\<lambda>x. (tcp_rtx_clear_if_acked ack x)\<lparr>x_rx_seq := sq + 1, x_state := TCP_ESTABLISHED\<rparr>) s)"
      "tcp_ok (upd_tcp i (\<lambda>x. x\<lparr>x_state := TCP_TIME_WAIT\<rparr>) s)"
      "tcp_ok (upd_tcp i (\<lambda>x. x\<lparr>x_state := TCP_CLOSED, x_used := False\<rparr>) s)"
      by (rule tcp_ok_upd [OF s], auto simp: tcp_sock_ok_def tcp_rtx_clear_if_acked_def rx_ok_def rx_count_def)+
    have n: "tcp_ok (sock_notify_accept pp aa qq ii v) = tcp_ok v" for pp aa qq ii v by (rule tcp_ok_cong) simp
    show ?thesis
      using u a s established_ok [OF E s] send_then_ok [OF E a(3)]
      by (cases "x_state (sockets s i)") (auto simp: tcp_segment_arrives_def Let_def n split: if_splits)
  qed
  then show ?thesis
    using d s passive_open_ok [OF E s] by (auto simp: tcp_receive_def Let_def split: if_splits option.splits)
qed

section \<open>Runs\<close>

text \<open>
  Every sequence of operations on the table, with time passing and other parts of the system running in between.
  Giving up is the last step of a connecting loop that was not answered.
\<close>

inductive tcp_run :: "'a tcp_st_scheme net_env \<Rightarrow> 'a tcp_st_scheme \<Rightarrow> bool" for E where
  init: "tcp_run E (tcp_init s)"
| listen: "tcp_run E s \<Longrightarrow> tcp_run E (snd (tcp_listen port s))"
| connect: "tcp_run E s \<Longrightarrow> connect_start E ip port s = Done (r, t) \<Longrightarrow> tcp_run E t"
| give_up: "tcp_run E s \<Longrightarrow> tcp_run E (upd_tcp i (\<lambda>x. x\<lparr>x_used := False\<rparr>) s)"
| send: "tcp_run E s \<Longrightarrow> tcp_send E sd bs s = Done (r, t) \<Longrightarrow> tcp_run E t"
| recv: "tcp_run E s \<Longrightarrow> tcp_run E (snd (tcp_recv sd n s))"
| close: "tcp_run E s \<Longrightarrow> tcp_close E sd s = Done t \<Longrightarrow> tcp_run E t"
| tick: "tcp_run E s \<Longrightarrow> tcp_tick E s = Done t \<Longrightarrow> tcp_run E t"
| receive: "tcp_run E s \<Longrightarrow> tcp_receive E src p len s = Done t \<Longrightarrow> tcp_run E t"
| other: "tcp_run E s \<Longrightarrow> sockets t = sockets s \<Longrightarrow> tcp_run E t"

lemma tcp_run_ok:
  assumes "tcp_run E s" "irq_keeps E"
  shows "tcp_ok s"
  using assms(1)
proof (induction rule: tcp_run.induct)
  case (init s)
  then show ?case by (simp add: tcp_ok_def tcp_init_def tcp_sock_ok_def zero_tcp_def rx_ok_def rx_count_def)
next
  case (listen s port)
  then show ?case by (intro listen_ok)
next
  case (connect s ip port r t)
  show ?case by (rule connect_start_ok [OF assms(2) connect(3,2)])
next
  case (give_up s i)
  show ?case by (rule tcp_ok_upd [OF give_up(2)]) (auto simp: tcp_sock_ok_def rx_ok_def rx_count_def)
next
  case (send s sd bs r t)
  show ?case by (rule send_ok [OF assms(2) send(3,2)])
next
  case (recv s sd n)
  show ?case by (rule recv_ok [OF recv(2)])
next
  case (close s sd t)
  show ?case by (rule close_ok [OF assms(2) close(3,2)])
next
  case (tick s t)
  then show ?case using tick_ok [OF assms(2) tick(3)] by auto
next
  case (receive s src p len t)
  show ?case by (rule receive_ok [OF assms(2) receive(3,2)])
next
  case (other s t)
  show ?case using other tcp_ok_cong [OF other(2)] by simp
qed

definition tcp_demo :: tcp_st where
  "tcp_demo = \<lparr>tick_count = 0, net_iface = net_iface0\<lparr>if_up := True, if_send := True\<rparr>, buf_used = \<lambda>_. False, sent = [],
     arp_cache = \<lambda>_. zero_arp, ip4_id = 1, g_icmp_reply_seq = 0, g_listeners = \<lambda>_. zero_listener, g_blocking = \<lambda>_. zero_blocking,
     g_poll_slots = \<lambda>_. zero_poll, g_poll_init = False, sock_table = \<lambda>_. zero_sock, next_port = 49152,
     sockets = \<lambda>_. zero_tcp, ephemeral_port = 49152\<rparr>"

definition calm :: "'s net_env" where
  "calm = \<lparr>nic = \<lambda>_. 0, irq = \<lambda>_ s. s\<rparr>"

lemma calm_keeps: "irq_keeps calm"
  by (simp add: irq_keeps_def calm_def)

text \<open>
  C15: the TCP socket table stays consistent, whatever segments arrive. In every state reached by operations, arriving segments
  and timer ticks, provided interrupts taken while a packet waits for ARP keep the table consistent too,
  no socket in use is in the state CLOSED or FIN_WAIT, the retransmission timeout is at most 60 s and the retry count at most 5, a saved
  segment fits into a packet, and the receive ring holds fewer than 4096 bytes; therefore the retransmission
  timer never writes past a packet buffer.
\<close>

theorem tcp_table_safe:
  assumes "tcp_run E s" "irq_keeps E" "i < TCP_MAX_SOCKETS"
  shows "(x_used (sockets s i) \<longrightarrow> x_state (sockets s i) \<noteq> TCP_CLOSED \<and> x_state (sockets s i) \<noteq> TCP_FIN_WAIT)
    \<and> x_rtx_len (sockets s i) \<le> 1994 \<and> x_rto (sockets s i) \<le> TCP_RTO_MAX \<and> x_rtx_count (sockets s i) \<le> TCP_MAX_RETRIES
    \<and> unat (x_rx_tail (sockets s i) - x_rx_head (sockets s i)) < TCP_RX_BUF \<and> (\<exists>t. tcp_tick E s = Done t)"
proof -
  have ok: "tcp_ok s" by (rule tcp_run_ok [OF assms(1,2)])
  then have "tcp_sock_ok (sockets s i)" using assms(3) unfolding tcp_ok_def by blast
  moreover obtain t where "tcp_tick E s = Done t" using tick_ok [OF assms(2) ok] by blast
  ultimately show ?thesis unfolding tcp_sock_ok_def rx_ok_def rx_count_def by blast
qed

theorem tcp_table_safe_witness:
  "x_used (sockets (snd (tcp_listen 80 (tcp_init tcp_demo))) 0)
    \<and> x_state (sockets (snd (tcp_listen 80 (tcp_init tcp_demo))) 0) \<noteq> TCP_CLOSED
    \<and> (\<exists>t. tcp_tick calm (snd (tcp_listen 80 (tcp_init tcp_demo))) = Done t)"
proof -
  have "tcp_run calm (snd (tcp_listen 80 (tcp_init tcp_demo)))" by (rule tcp_run.listen [OF tcp_run.init])
  note tcp_table_safe [OF this calm_keeps, of 0]
  moreover have "x_used (sockets (snd (tcp_listen 80 (tcp_init tcp_demo))) 0)"
    by (simp add: tcp_listen_def tcp_init_def free_socket_def for_find.simps zero_tcp_def upd_tcp_def loop_eval)
  ultimately show ?thesis by simp
qed

end
