(* ===== verification/Netstack.thy ===== *)
theory Netstack
  imports Tcp
begin

unbundle bit_operations_syntax

text \<open>
  The receiving side of the network stack, from the frame a driver hands over up to the transport protocols: \<open>net_receive\<close>
  and \<open>net_init\<close> of \<open>net/net.c\<close>, \<open>eth_receive\<close> of \<open>net/ethernet.c\<close> and \<open>ip4_receive\<close> of \<open>net/ip.c\<close>. Then what the layers do together:
  datagrams and byte streams from one host to another, each host a state of its own.
\<close>

section \<open>Receiving frames\<close>

text \<open>The length of the payload is computed in \<open>int\<close> and converted to \<open>size_t\<close>.\<close>

definition ip4_receive :: "'a tcp_st_scheme net_env \<Rightarrow> pkt \<Rightarrow> nat \<Rightarrow> 'a tcp_st_scheme \<Rightarrow> 'a tcp_st_scheme outcome" where
  "ip4_receive E p len s =
     (if len < IP_HDR then Done s
      else
        (let ihl = unat (p 0 AND 0x0F) * 4 in
         if ihl < 20 \<or> ihl > len then Done s
         else if net_checksum p ihl \<noteq> 0 then Done s
         else if ld32 p 16 \<noteq> if_ip (net_iface s) \<and> ld32 p 16 \<noteq> 0xFFFFFFFF then Done s
         else
           (let src = ld32 p 12; payload = (\<lambda>j. p (ihl + j));
                payload_len = unat (word_of_int (int (unat (ntohs (ld16 p 2))) - int ihl) :: u64)
            in if p 9 = PROTO_ICMP then icmp_receive E src payload payload_len s
               else if p 9 = PROTO_TCP then tcp_receive E src payload payload_len s
               else if p 9 = PROTO_UDP then Done (udp_receive payload payload_len s)
               else Done s)))"

definition eth_receive :: "'a tcp_st_scheme net_env \<Rightarrow> pkt \<Rightarrow> nat \<Rightarrow> 'a tcp_st_scheme \<Rightarrow> 'a tcp_st_scheme outcome" where
  "eth_receive E p len s =
     (if len < ETH_HDR then Done s
      else
        (let etype = ntohs (ld16 p 12); payload = (\<lambda>j. p (ETH_HDR + j)); payload_len = len - ETH_HDR in
         if etype = ETH_TYPE_IP4 then ip4_receive E payload payload_len s
         else if etype = ETH_TYPE_ARP then Done (arp_receive E payload payload_len s)
         else Done s))"

definition net_receive :: "'a tcp_st_scheme net_env \<Rightarrow> pkt \<Rightarrow> nat \<Rightarrow> 'a tcp_st_scheme \<Rightarrow> 'a tcp_st_scheme outcome" where
  "net_receive E p len s = eth_receive E p len s"

definition net_init :: "'a tcp_st_scheme \<Rightarrow> 'a tcp_st_scheme" where
  "net_init s = socket_init (udp_init (tcp_init (ip4_init (arp_init (s\<lparr>buf_used := \<lambda>_. False\<rparr>)))))"

section \<open>Packets in memory\<close>

definition holds :: "pkt \<Rightarrow> u8 list \<Rightarrow> bool" where
  "holds p xs \<longleftrightarrow> (\<forall>j<length xs. p j = xs ! j)"

lemma holds_nth: "holds (nth xs) xs"
  by (simp add: holds_def)

lemma holds_append: "holds p (xs @ ys) \<Longrightarrow> holds (\<lambda>j. p (length xs + j)) ys"
  by (simp add: holds_def nth_append)

lemma holds_appendD: "holds p (xs @ ys) \<Longrightarrow> holds p xs"
  by (auto simp: holds_def nth_append)

lemma holds_map: "holds p xs \<Longrightarrow> map p [0..<length xs] = xs"
  by (auto simp: holds_def intro: nth_equalityI)

lemma holds_nthD: "holds p xs \<Longrightarrow> j < length xs \<Longrightarrow> p j = xs ! j"
  by (simp add: holds_def)

text \<open>The fields of a frame and of a packet that was sent by \<open>ip4_send\<close>.\<close>

lemma eth_deliver:
  assumes h: "holds p (mac @ smac @ st16 (htons 0x0800) @ pl)" and n: "length mac = 6" "length smac = 6"
  shows "eth_receive E p (14 + length pl) s = ip4_receive E (\<lambda>j. p (14 + j)) (length pl) s"
    "holds (\<lambda>j. p (14 + j)) pl"
proof -
  have "holds (\<lambda>j. p (12 + j)) (st16 (htons 0x0800) @ pl)"
    using holds_append [of p "mac @ smac" "st16 (htons 0x0800) @ pl"] h n by simp
  then have "p 12 = st16 (htons 0x0800) ! 0" "p 13 = st16 (htons 0x0800) ! 1"
    using holds_nthD [of "\<lambda>j. p (12 + j)" "st16 (htons 0x0800) @ pl" 0] holds_nthD [of "\<lambda>j. p (12 + j)" "st16 (htons 0x0800) @ pl" 1]
    by (simp_all add: st16_def)
  then have "ld16 p 12 = htons 0x0800" by (intro ld16_st16) simp_all
  then show "eth_receive E p (14 + length pl) s = ip4_receive E (\<lambda>j. p (14 + j)) (length pl) s"
    by (simp add: eth_receive_def Let_def)
  show "holds (\<lambda>j. p (14 + j)) pl" using holds_append [of p "mac @ smac @ st16 (htons 0x0800)" pl] h n by simp
qed

lemma ip4_hdr_list:
  "ip4_hdr n ident pr c src dst = [0x45, 0, st16 (htons n) ! 0, st16 (htons n) ! 1, st16 (htons ident) ! 0, st16 (htons ident) ! 1, 0, 0, 64, pr,
     st16 c ! 0, st16 c ! 1, st32 src ! 0, st32 src ! 1, st32 src ! 2, st32 src ! 3, st32 dst ! 0, st32 dst ! 1, st32 dst ! 2, st32 dst ! 3]"
  by (simp add: ip4_hdr_def st16_def st32_def)

lemma ip4_checksum_good:
  assumes "holds q (ip4_packet src dst ident pr pl)"
  shows "net_checksum q 20 = 0"
proof -
  define m :: u16 where "m = of_nat (20 + length pl)"
  define hd0 where "hd0 = ip4_hdr m ident pr 0 src dst"
  define c where "c = net_checksum (nth hd0) 20"
  have q: "q j = ip4_hdr m ident pr c src dst ! j" if "j < 20" for j
    using holds_nthD [OF holds_appendD [OF assms [unfolded ip4_packet_def Let_def]], of j] that by (simp add: c_def hd0_def m_def)
  have e: "ip4_hdr m ident pr c src dst ! j = hd0 ! j" if "j < 20" "j \<noteq> 10" "j \<noteq> 11" for j
  proof -
    have "ip4_hdr m ident pr c src dst = hd0[10 := st16 c ! 0, 11 := st16 c ! 1]"
      by (simp add: hd0_def ip4_hdr_list)
    then show ?thesis using that by simp
  qed
  have "net_checksum q (2 * 10) = 0"
  proof (rule checksum_accepts [of 10 5 "nth hd0"])
    show "ld16 ((!) hd0) (2 * 5) = 0" by (simp add: hd0_def ip4_hdr_list ld16_def st16_def)
    show "ld16 q (2 * 5) = net_checksum ((!) hd0) (2 * 10)"
      unfolding mult_numeral_1 by (rule ld16_st16) (simp_all add: q ip4_hdr_list c_def)
    show "ld16 q (2 * j) = ld16 ((!) hd0) (2 * j)" if "j < 10" "j \<noteq> 5" for j
    proof -
      have "2 * j \<noteq> 11" "2 * j + 1 \<noteq> 10" by presburger+
      then have "q (2 * j) = hd0 ! (2 * j)" "q (2 * j + 1) = hd0 ! (2 * j + 1)" using that by (simp_all add: q e)
      then show ?thesis by (simp add: ld16_def)
    qed
  qed simp_all
  then show ?thesis by simp
qed

lemma ip4_deliver:
  assumes h: "holds q (ip4_packet src dst ident pr pl)" and n: "length pl \<le> 2014"
    and d: "dst = if_ip (net_iface s) \<or> dst = 0xFFFFFFFF"
  shows "ip4_receive E q (20 + length pl) s =
     (if pr = PROTO_ICMP then icmp_receive E src (\<lambda>j. q (20 + j)) (length pl) s
      else if pr = PROTO_TCP then tcp_receive E src (\<lambda>j. q (20 + j)) (length pl) s
      else if pr = PROTO_UDP then Done (udp_receive (\<lambda>j. q (20 + j)) (length pl) s) else Done s)"
    "holds (\<lambda>j. q (20 + j)) pl"
proof -
  let ?c = "net_checksum (nth (ip4_hdr (of_nat (20 + length pl)) ident pr 0 src dst)) 20"
  let ?h = "ip4_hdr (of_nat (20 + length pl)) ident pr ?c src dst"
  have h': "holds q (?h @ pl)" using h by (simp add: ip4_packet_def Let_def)
  show "holds (\<lambda>j. q (20 + j)) pl" using holds_append [OF h'] by simp
  have q: "q j = ?h ! j" if "j < 20" for j using holds_nthD [OF holds_appendD [OF h'], of j] that by simp
  have l: "ld16 q 2 = htons (of_nat (20 + length pl))"
    by (rule ld16_st16) (simp_all add: q ip4_hdr_list)
  have m: "ld32 q 12 = src" "ld32 q 16 = dst" by (rule ld32_st32; simp add: q ip4_hdr_list)+
  have b: "q 0 = 0x45" "q 9 = pr" by (simp_all add: q ip4_hdr_list)
  have u: "unat (of_nat (20 + length pl) :: u16) = 20 + length pl" using n by (simp add: unsigned_of_nat take_bit_nat_eq_self del: of_nat_add)
  have w: "unat (of_nat (20 + length pl) - 20 :: u64) = length pl"
    using n by (simp add: unsigned_of_nat take_bit_nat_eq_self)
  have d': "(dst \<noteq> if_ip (net_iface s) \<and> dst \<noteq> 0xFFFFFFFF) = False" using d by blast
  have "(0x45 AND 0x0F :: u8) = 5" by simp
  then show "ip4_receive E q (20 + length pl) s =
     (if pr = PROTO_ICMP then icmp_receive E src (\<lambda>j. q (20 + j)) (length pl) s
      else if pr = PROTO_TCP then tcp_receive E src (\<lambda>j. q (20 + j)) (length pl) s
      else if pr = PROTO_UDP then Done (udp_receive (\<lambda>j. q (20 + j)) (length pl) s) else Done s)"
    using ip4_checksum_good [OF h] w by (simp add: ip4_receive_def Let_def b m l u d' del: of_nat_add)
qed

section \<open>Datagrams\<close>

definition online :: "u32 \<Rightarrow> 'a ip_st_scheme \<Rightarrow> bool" where
  "online dst s \<longleftrightarrow> nic_ready s \<and> 3 \<le> free_bufs s \<and> length (if_mac (net_iface s)) = 6
     \<and> (case hop_mac dst s of None \<Rightarrow> False | Some mac \<Rightarrow> length mac = 6)"

lemma hop_mac_cong: "net_iface t = net_iface s \<Longrightarrow> arp_cache t = arp_cache s \<Longrightarrow> hop_mac d t = hop_mac d s"
  by (simp only: hop_mac_def arp_lookup_def)

lemma online_cong:
  "net_iface t = net_iface s \<Longrightarrow> arp_cache t = arp_cache s \<Longrightarrow> buf_used t = buf_used s \<Longrightarrow> online d t = online d s"
  using hop_mac_cong [of t s d] by (simp add: online_def nic_ready_def free_bufs_def)

lemma udp_hdr_list:
  "udp_hdr sp dp n = [st16 (htons sp) ! 0, st16 (htons sp) ! 1, st16 (htons dp) ! 0, st16 (htons dp) ! 1,
     st16 (htons n) ! 0, st16 (htons n) ! 1, 0, 0]"
  by (simp add: udp_hdr_def st16_def)

text \<open>A frame that a host has sent, arriving at the host it was sent to.\<close>

lemma frame_deliver:
  assumes o: "online dst a" and mac: "hop_mac dst a = Some mac" and n: "length pl \<le> 2014"
    and d: "dst = if_ip (net_iface b) \<or> dst = 0xFFFFFFFF"
  shows "\<exists>q. holds q pl \<and> net_receive E (nth (ip_frame mac dst pr pl a)) (length (ip_frame mac dst pr pl a)) b =
     (if pr = PROTO_ICMP then icmp_receive E (if_ip (net_iface a)) q (length pl) b
      else if pr = PROTO_TCP then tcp_receive E (if_ip (net_iface a)) q (length pl) b
      else if pr = PROTO_UDP then Done (udp_receive q (length pl) b) else Done b)"
proof -
  let ?pk = "ip4_packet (if_ip (net_iface a)) dst (ip4_id a) pr pl"
  let ?f = "ip_frame mac dst pr pl a"
  have f: "?f = mac @ if_mac (net_iface a) @ st16 (htons 0x0800) @ ?pk" by (simp add: ip_frame_def)
  have l: "length mac = 6" "length (if_mac (net_iface a)) = 6" using o mac by (simp_all add: online_def)
  have h: "holds (nth ?f) (mac @ if_mac (net_iface a) @ st16 (htons 0x0800) @ ?pk)" unfolding f by (rule holds_nth)
  note e = eth_deliver(1) [OF h l, of E b]
  note i = ip4_deliver(1) [OF eth_deliver(2) [OF h l] n d, of E]
  have "length ?f = 14 + length ?pk" using l by (simp add: f)
  then have "net_receive E (nth ?f) (length ?f) b = ip4_receive E (\<lambda>j. ?f ! (14 + j)) (20 + length pl) b"
    using e by (simp only: net_receive_def length_ip4_packet)
  then show ?thesis unfolding i by (intro exI conjI) (rule ip4_deliver(2) [OF eth_deliver(2) [OF h l] n d])
qed

text \<open>A port that is polled: its slot is empty, and the port has one listener, the callback of the slot.\<close>

definition polls :: "u16 \<Rightarrow> nat \<Rightarrow> 'a udp_st_scheme \<Rightarrow> bool" where
  "polls port k s \<longleftrightarrow> g_poll_init s \<and> for_find (\<lambda>i. q_port (g_poll_slots s i) = port) 0 UDP_POLL_SLOTS = Some k
     \<and> \<not> q_used (g_poll_slots s k)
     \<and> (\<exists>i<16. l_cb (g_listeners s i) = Some (udp_poll_cb k) \<and> (\<forall>j<16. l_port (g_listeners s j) = port \<longleftrightarrow> j = i))"

lemma dispatch_none: "\<forall>j\<in>set js. l_port (g_listeners s j) \<noteq> port \<Longrightarrow> fold (dispatch port d n) js s = s"
  by (induction js) (simp_all add: dispatch_def)

lemma run_cb_listeners [simp]: "g_listeners (run_cb cb d n s) = g_listeners s"
  by (simp add: run_cb_def blocking_cb_def poll_cb_def upd_blocking_def upd_poll_def Let_def split: udp_cb.splits)

lemma dispatch_one:
  assumes "i < 16" "l_cb (g_listeners s i) = Some cb" "\<forall>j<16. l_port (g_listeners s j) = port \<longleftrightarrow> j = i"
  shows "fold (dispatch port d n) [0..<16] s = run_cb cb d n s"
proof -
  have "[0..<16] = [0..<i] @ i # [Suc i..<16]" using assms(1) upt_add_eq_append [of 0 i "16 - i"] by (simp add: upt_conv_Cons)
  moreover have "fold (dispatch port d n) [0..<i] s = s" by (rule dispatch_none) (use assms(1,3) in auto)
  moreover have "dispatch port d n i s = run_cb cb d n s" using assms by (simp add: dispatch_def)
  moreover have "fold (dispatch port d n) [Suc i..<16] (run_cb cb d n s) = run_cb cb d n s" by (rule dispatch_none) (use assms(3) in auto)
  ultimately show ?thesis by simp
qed

lemma udp_deliver:
  assumes h: "holds q (udp_hdr sp port (of_nat (8 + length bs)) @ bs)" and n: "length bs \<le> 2006" and p: "polls port k s"
  shows "udp_receive q (8 + length bs) s = run_cb (udp_poll_cb k) (\<lambda>j. q (8 + j)) (of_nat (length bs)) s"
    "holds (\<lambda>j. q (8 + j)) bs"
proof -
  let ?h = "udp_hdr sp port (of_nat (8 + length bs))"
  have q: "q j = ?h ! j" if "j < 8" for j using holds_nthD [OF holds_appendD [OF h], of j] that by (simp add: udp_hdr_def)
  have "ld16 q 2 = htons port" "ld16 q 4 = htons (of_nat (8 + length bs))"
    by (rule ld16_st16; simp add: q udp_hdr_list del: of_nat_add)+
  moreover have "unat (of_nat (8 + length bs) :: u16) = 8 + length bs"
    using n by (simp add: unsigned_of_nat take_bit_nat_eq_self del: of_nat_add)
  moreover obtain i where "i < 16" "l_cb (g_listeners s i) = Some (udp_poll_cb k)" "\<forall>j<16. l_port (g_listeners s j) = port \<longleftrightarrow> j = i"
    using p by (auto simp: polls_def)
  note dispatch_one [OF this, of "\<lambda>j. q (8 + j)" "of_nat (length bs)"]
  ultimately show "udp_receive q (8 + length bs) s = run_cb (udp_poll_cb k) (\<lambda>j. q (8 + j)) (of_nat (length bs)) s"
    by (simp add: udp_receive_def Let_def)
  show "holds (\<lambda>j. q (8 + j)) bs" using holds_append [OF h] by (simp add: udp_hdr_def)
qed

lemma poll_after:
  assumes p: "polls port k s" and d: "holds d bs" and n: "length bs \<le> 2006"
  shows "\<exists>t. udp_recv_poll port (int m) (run_cb (udp_poll_cb k) d (of_nat (length bs)) s) =
     Done ((int (min m (min 1500 (length bs))), take (min m 1500) bs), t) \<and> polls port k t"
proof -
  define c where "c = min 1500 (length bs)"
  let ?s = "run_cb (udp_poll_cb k) d (of_nat (length bs)) s"
  have u: "unat (of_nat (length bs) :: u16) = length bs" using n by (simp add: unsigned_of_nat take_bit_nat_eq_self)
  have s1: "?s = upd_poll k (\<lambda>q. q\<lparr>q_data := (\<lambda>j. if j < c then d j else q_data q j), q_len := int c, q_used := True\<rparr>) s"
    using p u by (simp add: run_cb_def blocking_cb_def poll_cb_def polls_def c_def Let_def min_def)
  define f where "f q = (q_port q = port)" for q :: udp_poll_slot
  have f: "for_find (\<lambda>i. f (g_poll_slots (upd_poll k g s) i)) 0 8 = Some k" if "\<And>q. q_port (g q) = q_port q" for g
    using p that by (auto simp: polls_def f_def upd_poll_def for_find_Some_iff)
  have "poll_slot port ?s = (Some k, ?s)" using f unfolding s1 poll_slot_def f_def by simp
  moreover have "map (q_data (g_poll_slots ?s k)) [0..<min m c] = take (min m 1500) bs"
    using d by (intro nth_equalityI) (auto simp: s1 upd_poll_def c_def holds_def)
  ultimately have "udp_recv_poll port (int m) ?s = Done ((int (min m c), take (min m 1500) bs), upd_poll k (\<lambda>q. q\<lparr>q_used := False\<rparr>) ?s)"
  proof -
    assume ps: "poll_slot port ?s = (Some k, ?s)" and mp: "map (q_data (g_poll_slots ?s k)) [0..<min m c] = take (min m 1500) bs"
    have v: "g_poll_init ?s" "q_used (g_poll_slots ?s k)" "q_len (g_poll_slots ?s k) = int c" using p by (simp_all add: s1 upd_poll_def polls_def)
    have "(if int c < int m then int c else int m) = int (min m c)" by simp
    then show ?thesis using ps mp v by (cases "c < m") (simp_all add: udp_recv_poll_def Let_def not_less min.absorb1 min.absorb2 less_imp_le)
  qed
  moreover have "polls port k (upd_poll k (\<lambda>q. q\<lparr>q_used := False\<rparr>) ?s)"
    using p by (auto simp: s1 polls_def upd_poll_def for_find_Some_iff)
  ultimately show ?thesis unfolding c_def by blast
qed

lemma udp_send_sends:
  assumes "online dst a" "length bs \<le> 2006"
  shows "\<exists>mac. hop_mac dst a = Some mac \<and> (let fr = ip_frame mac dst 17 (udp_hdr sp dp (of_nat (8 + length bs)) @ bs) a in
     udp_send E dst sp dp bs a = (nic E (sent a @ [fr]), a\<lparr>ip4_id := ip4_id a + 1, sent := sent a @ [fr]\<rparr>))"
proof -
  obtain mac where mac: "hop_mac dst a = Some mac" using assms(1) by (auto simp: online_def split: option.splits)
  have "nic_ready a" "2 \<le> free_bufs a" using assms(1) by (simp_all add: online_def)
  moreover have "length (udp_hdr sp dp (of_nat (8 + length bs)) @ bs) \<le> 2014" using assms(2) by (simp add: udp_hdr_def)
  ultimately have "ip4_send E dst 17 (udp_hdr sp dp (of_nat (8 + length bs)) @ bs) a = (nic E (sent a @ [ip_frame mac dst 17 (udp_hdr sp dp (of_nat (8 + length bs)) @ bs) a]),
     a\<lparr>ip4_id := ip4_id a + 1, sent := sent a @ [ip_frame mac dst 17 (udp_hdr sp dp (of_nat (8 + length bs)) @ bs) a]\<rparr>)"
    using ip4_send_ok [OF _ _ _ mac] by blast
  then show ?thesis using mac assms by (simp add: udp_send_def online_def nic_ready_def Let_def del: of_nat_add)
qed

text \<open>
  C14: a UDP datagram of at most 2006 bytes sent by one host, once its frame arrives at the host it is addressed to, is what the
  next poll of its port there returns, cut to 1500 bytes and to the size of the caller's buffer, and the port can
  then take the next datagram.
\<close>

theorem udp_datagram:
  assumes "online dst a" "length bs \<le> 2006" "dst = if_ip (net_iface b) \<or> dst = 0xFFFFFFFF" "polls port k b"
  shows "\<exists>a' fr b' b''. udp_send E dst sp port bs a = (nic E (sent a @ [fr]), a') \<and> sent a' = sent a @ [fr]
    \<and> net_receive E (nth fr) (length fr) b = Done b'
    \<and> udp_recv_poll port (int m) b' = Done ((int (min m (min 1500 (length bs))), take (min m 1500) bs), b'') \<and> polls port k b''"
proof -
  let ?pl = "udp_hdr sp port (of_nat (8 + length bs)) @ bs"
  obtain mac where mac: "hop_mac dst a = Some mac" and snd: "udp_send E dst sp port bs a = (nic E (sent a @ [ip_frame mac dst 17 ?pl a]),
     a\<lparr>ip4_id := ip4_id a + 1, sent := sent a @ [ip_frame mac dst 17 ?pl a]\<rparr>)"
    using udp_send_sends [OF assms(1,2), of sp port E] by (auto simp: Let_def)
  have l: "length ?pl = 8 + length bs" by (simp add: udp_hdr_def)
  then obtain q where q: "holds q ?pl" "net_receive E (nth (ip_frame mac dst 17 ?pl a)) (length (ip_frame mac dst 17 ?pl a)) b = Done (udp_receive q (8 + length bs) b)"
    using frame_deliver [OF assms(1) mac _ assms(3), of ?pl E 17] assms(2) by auto
  note u = udp_deliver [OF q(1) assms(2,4)]
  obtain t where t: "udp_recv_poll port (int m) (udp_receive q (8 + length bs) b) = Done ((int (min m (min 1500 (length bs))), take (min m 1500) bs), t)" "polls port k t"
    using poll_after [OF assms(4) u(2) assms(2)] unfolding u(1) by blast
  show ?thesis by (intro exI conjI, rule snd, simp, rule q(2), rule t(1), rule t(2))
qed

section \<open>Frames of any content\<close>

lemma send_empty: "\<exists>r t. tcp_send_segment E i fl [] s = Done (r, t)"
  by (auto simp: tcp_send_segment_def Let_def split: prod.splits option.splits)

lemma send_then_done: "\<exists>t. send_then E i fl s = Done t"
  using send_empty [of E i fl s] by (auto simp: send_then_def)

lemma established_done: "n < 2 ^ 63 \<Longrightarrow> \<exists>t. tcp_established E i sq ack fl d n s = Done t"
proof -
  assume n: "n < 2 ^ 63"
  obtain u where u: "send_then E i TCP_ACK (upd_tcp i (\<lambda>x. x\<lparr>x_rx_seq := sq + 1, x_state := TCP_CLOSE_WAIT\<rparr>) s) = Done u"
    using send_then_done by blast
  obtain v where v: "send_then E i (TCP_FIN OR TCP_ACK) u = Done v" using send_then_done by blast
  have "\<exists>t. send_then E i TCP_ACK w = Done t" for w by (rule send_then_done)
  then show ?thesis using n u v by (auto simp: tcp_established_def Let_def)
qed

lemma passive_open_done: "\<exists>t. tcp_passive_open E src sp dp sq fl s = Done t"
proof (cases "free_socket s")
  case None
  then show ?thesis by (simp add: tcp_passive_open_def split: option.splits)
next
  case (Some i)
  obtain r t where "tcp_send_segment E i (TCP_SYN OR TCP_ACK) [] (upd_tcp i (\<lambda>_. zero_tcp\<lparr>x_used := True, x_state := TCP_SYN_RCVD,
      x_local_ip := if_ip (net_iface s), x_local_port := dp, x_remote_ip := src, x_remote_port := sp, x_rx_seq := sq + 1, x_tx_seq := rand_seq s\<rparr>) s) = Done (r, t)"
    using send_empty by blast
  then show ?thesis using Some by (simp add: tcp_passive_open_def split: option.splits)
qed

lemma segment_arrives_done: "n < 2 ^ 63 \<Longrightarrow> \<exists>t. tcp_segment_arrives E i sq ack fl d n s = Done t"
  using established_done [of n E i sq ack fl d s] send_then_done [of E i TCP_ACK]
  by (cases "x_state (sockets s i)") (simp_all add: tcp_segment_arrives_def Let_def)

lemma receive_done:
  assumes "len < 2 ^ 63"
  shows "\<exists>t. tcp_receive E src p len s = Done t"
proof (cases "len < 20")
  case True
  then show ?thesis by (simp add: tcp_receive_def)
next
  case False
  define k n where "k = unat (drop_bit 4 (p 12)) * 4" and "n = (if k \<le> len then len - k else 0)"
  have n: "n < 2 ^ 63" using assms unfolding n_def by (cases "k \<le> len") simp_all
  show ?thesis
  proof (cases "tcp_match src (ntohs (ld16 p 0)) (ntohs (ld16 p 2)) s")
    case None
    then have "tcp_receive E src p len s = tcp_passive_open E src (ntohs (ld16 p 0)) (ntohs (ld16 p 2)) (ntohl (ld32 p 4)) (p 13) s"
      using False by (simp add: tcp_receive_def)
    then show ?thesis using passive_open_done by simp
  next
    case (Some i)
    then have "tcp_receive E src p len s = tcp_segment_arrives E i (ntohl (ld32 p 4)) (ntohl (ld32 p 8)) (p 13) (\<lambda>j. p (k + j)) n s"
      using False by (simp only: tcp_receive_def Let_def k_def n_def if_False option.case)
    then show ?thesis using segment_arrives_done [OF n] by simp
  qed
qed

lemma udp_receive_sockets [simp]: "sockets (udp_receive p n s) = sockets s"
proof -
  have "sockets (run_cb cb d k t) = sockets t" for cb d k and t :: "'a tcp_st_scheme"
    by (simp add: run_cb_def blocking_cb_def poll_cb_def upd_blocking_def upd_poll_def Let_def split: udp_cb.splits)
  then have "sockets (dispatch port d k i t) = sockets t" for port d k i and t :: "'a tcp_st_scheme"
    by (simp add: dispatch_def split: option.splits)
  then have "sockets (fold (dispatch port d k) js t) = sockets t" for port d k js and t :: "'a tcp_st_scheme"
    by (induction js arbitrary: t) simp_all
  then show ?thesis by (simp add: udp_receive_def Let_def)
qed

lemma arp_receive_sockets [simp]:
  fixes s :: "'b tcp_st_scheme"
  shows "sockets (arp_receive E p n s) = sockets s"
proof -
  have "sockets (arp_cache_add ip mac t) = sockets t" for ip mac and t :: "'b tcp_st_scheme"
    by (simp add: arp_cache_add_def Let_def split: option.splits)
  moreover have "sockets (arp_send_reply E ip mac t) = sockets t" for ip mac and t :: "'b tcp_st_scheme"
    unfolding arp_send_reply_def by (rule more_sockets(2)) simp
  ultimately show ?thesis by (simp add: arp_receive_def Let_def)
qed

lemma icmp_receive_ok:
  assumes "irq_keeps E" "tcp_ok s" "n \<le> 2048"
  shows "\<exists>t. icmp_receive E src p n s = Done t \<and> tcp_ok t"
proof (cases "net_alloc_buf s")
  case (Pair o1 s1)
  then have "tcp_ok s1" using assms(2) tcp_ok_sockets(2) [of s] by simp
  note ip4_send_tcp_ok [OF assms(1) this]
  moreover have "tcp_ok (s\<lparr>g_icmp_reply_seq := v\<rparr>)" for v using assms(2) by (simp add: tcp_ok_def)
  ultimately show ?thesis using Pair assms(2,3) \<open>tcp_ok s1\<close> by (cases o1) (auto simp: icmp_receive_def Let_def)
qed

text \<open>The total length an IPv4 packet claims is at least that of its header, and the rest fits into a packet buffer.\<close>

definition sane_length :: "pkt \<Rightarrow> bool" where
  "sane_length p \<longleftrightarrow> unat (p 0 AND 0x0F) * 4 \<le> unat (ntohs (ld16 p 2)) \<and> unat (ntohs (ld16 p 2)) \<le> unat (p 0 AND 0x0F) * 4 + 2048"

lemma payload_length:
  assumes "h \<le> m" "m < 65536"
  shows "unat (word_of_int (int m - int h) :: u64) = m - h"
proof -
  have "(word_of_int (int m - int h) :: u64) = of_nat (m - h)"
    unfolding of_nat_diff [OF assms(1), symmetric] by (rule of_int_of_nat_eq)
  moreover have "m - h < 2 ^ 64" using assms(2) by simp
  ultimately show ?thesis by (simp only: unat_of_nat_u64)
qed


text \<open>
  C39: the condition on the lengths cannot be dropped: one ping whose IPv4 header claims a total length below that of the
  header itself, with an otherwise valid header, makes the stack copy past a packet buffer.
\<close>

theorem ip4_short_length_crashes:
  assumes "20 \<le> len" "p 0 = 0x45" "net_checksum p 20 = 0" "ld32 p 16 = if_ip (net_iface s)" "p 9 = PROTO_ICMP" "p 20 = ICMP_ECHO_REQUEST"
    "unat (ntohs (ld16 p 2)) < 20" "0 < free_bufs s"
  shows "ip4_receive E p len s = Panic"
proof -
  define m where "m = unat (ntohs (ld16 p 2))"
  have m: "m < 20" using assms(7) by (simp add: m_def)
  then have "(of_nat (2 ^ 64 - (20 - m)) :: u64) = of_nat (2 ^ 64) - of_nat (20 - m)" by (intro of_nat_diff) simp
  also have "(of_nat (20 - m) :: u64) = 20 - of_nat m" using m by (simp add: of_nat_diff)
  also have "of_nat (2 ^ 64) - (20 - of_nat m) = (of_nat m - 20 :: u64)" by simp
  also have "\<dots> = word_of_int (int m - 20)" by simp
  finally have "(word_of_int (int m - 20) :: u64) = of_nat (2 ^ 64 - (20 - m))" by (rule sym)
  moreover have "unat (of_nat (2 ^ 64 - (20 - m)) :: u64) = 2 ^ 64 - (20 - m)" by (rule unat_of_nat_u64) (use m in simp)
  moreover have "2048 < 2 ^ 64 - (20 - m)" by simp
  ultimately have l: "2048 < unat (word_of_int (int m - 20) :: u64)" by (simp only:)
  obtain b where "net_alloc_buf s = (Some b, s\<lparr>buf_used := (buf_used s)(b := True)\<rparr>)" using alloc_buf_some [OF assms(8)] by blast
  then have "icmp_receive E src (\<lambda>j. p (20 + j)) (unat (word_of_int (int m - 20) :: u64)) s = Panic" for src
    using l assms(6) by (simp add: icmp_receive_def)
  then show ?thesis using assms by (simp add: ip4_receive_def Let_def m_def [symmetric])
qed

section \<open>Byte streams\<close>

lemma send_segment_exact:
  fixes s :: "'a tcp_st_scheme" and fl :: u8
  assumes o: "online (x_remote_ip (sockets s i)) s" and mac: "hop_mac (x_remote_ip (sockets s i)) s = Some mac" and n: "length bs \<le> 1994"
  defines "fr \<equiv> ip_frame mac (x_remote_ip (sockets s i)) 6 (tcp_segment (if_ip (net_iface s)) (sockets s i) (x_tx_seq (sockets s i)) fl bs) s"
  defines "u \<equiv> s\<lparr>ip4_id := ip4_id s + 1, sent := sent s @ [fr]\<rparr>"
  shows "tcp_send_segment E i fl bs s =
     Done (nic E (sent s @ [fr]), if nic E (sent s @ [fr]) = 0 then upd_tcp i (save_segment fl bs (ucast (tick_count s))) u else u)"
proof -
  have "0 < free_bufs s" using o by (simp add: online_def)
  then obtain b where b: "b < 64" "net_alloc_buf s = (Some b, s\<lparr>buf_used := (buf_used s)(b := True)\<rparr>)" "\<not> buf_used s b"
    "free_bufs (s\<lparr>buf_used := (buf_used s)(b := True)\<rparr>) = free_bufs s - 1" using alloc_buf_some by blast
  define s1 where "s1 = s\<lparr>buf_used := (buf_used s)(b := True)\<rparr>"
  define seg where "seg = tcp_segment (if_ip (net_iface s)) (sockets s i) (x_tx_seq (sockets s i)) fl bs"
  have "hop_mac (x_remote_ip (sockets s i)) s1 = Some mac" using mac hop_mac_cong [of s1 s] by (simp add: s1_def)
  moreover have "nic_ready s1" "2 \<le> free_bufs s1" using o b(4) by (auto simp: online_def s1_def nic_ready_def)
  moreover have "length seg \<le> 2014" using n by (simp add: seg_def)
  ultimately have "ip4_send E (x_remote_ip (sockets s i)) 6 seg s1 = (nic E (sent s1 @ [ip_frame mac (x_remote_ip (sockets s i)) 6 seg s1]),
      s1\<lparr>ip4_id := ip4_id s1 + 1, sent := sent s1 @ [ip_frame mac (x_remote_ip (sockets s i)) 6 seg s1]\<rparr>)"
    by (intro ip4_send_ok)
  then have snd: "ip4_send E (x_remote_ip (sockets s i)) 6 seg s1 = (nic E (sent s @ [fr]), s1\<lparr>ip4_id := ip4_id s + 1, sent := sent s @ [fr]\<rparr>)"
    by (simp add: s1_def fr_def ip_frame_def seg_def)
  have "(buf_used s)(b := False) = buf_used s" using b(3) by (auto simp: fun_eq_iff)
  then have f: "net_free_buf b (s1\<lparr>ip4_id := ip4_id s + 1, sent := sent s @ [fr]\<rparr>) = u"
    using b(1) by (simp add: net_free_buf_def s1_def u_def)
  have a: "net_alloc_buf s = (Some b, s1)" "sockets s1 = sockets s" "net_iface s1 = net_iface s" "tick_count u = tick_count s"
    using b(2) by (simp_all add: s1_def u_def)
  show ?thesis using n unfolding tcp_send_segment_def a
    by (simp add: Let_def a f snd [unfolded seg_def])
qed

lemma tcp_hdr_list:
  "tcp_hdr sp dp sq ack fl c = [st16 (htons sp) ! 0, st16 (htons sp) ! 1, st16 (htons dp) ! 0, st16 (htons dp) ! 1,
     st32 (htonl sq) ! 0, st32 (htonl sq) ! 1, st32 (htonl sq) ! 2, st32 (htonl sq) ! 3,
     st32 ack ! 0, st32 ack ! 1, st32 ack ! 2, st32 ack ! 3, 0x50, fl, st16 (htons 4096) ! 0, st16 (htons 4096) ! 1, st16 c ! 0, st16 c ! 1, 0, 0]"
  by (simp add: tcp_hdr_def st16_def st32_def)

lemma seg_fields:
  assumes h: "holds q (tcp_segment ip x sq fl bs)"
  shows "ntohs (ld16 q 0) = x_local_port x" "ntohs (ld16 q 2) = x_remote_port x" "ntohl (ld32 q 4) = sq" "q 12 = 0x50" "q 13 = fl"
    "fl AND TCP_ACK \<noteq> 0 \<Longrightarrow> ntohl (ld32 q 8) = x_rx_seq x" "holds (\<lambda>j. q (20 + j)) bs"
proof -
  define ack where "ack = (if fl AND TCP_ACK \<noteq> 0 then htonl (x_rx_seq x) else 0)"
  obtain c where c: "tcp_segment ip x sq fl bs = tcp_hdr (x_local_port x) (x_remote_port x) sq ack fl c @ bs"
    by (simp add: tcp_segment_def Let_def ack_def)
  let ?h = "tcp_hdr (x_local_port x) (x_remote_port x) sq ack fl c"
  have h': "holds q (?h @ bs)" using h c by simp
  have q: "q j = ?h ! j" if "j < 20" for j using holds_nthD [OF holds_appendD [OF h'], of j] that by (simp add: tcp_hdr_def)
  have "ld16 q 0 = htons (x_local_port x)" "ld16 q 2 = htons (x_remote_port x)"
    by (rule ld16_st16; simp add: q tcp_hdr_list)+
  then show "ntohs (ld16 q 0) = x_local_port x" "ntohs (ld16 q 2) = x_remote_port x" by simp_all
  have "ld32 q 4 = htonl sq" "ld32 q 8 = ack" by (rule ld32_st32; simp add: q tcp_hdr_list)+
  then show "ntohl (ld32 q 4) = sq" "fl AND TCP_ACK \<noteq> 0 \<Longrightarrow> ntohl (ld32 q 8) = x_rx_seq x" by (simp_all add: ack_def)
  show "q 12 = 0x50" "q 13 = fl" by (simp_all add: q tcp_hdr_list)
  show "holds (\<lambda>j. q (20 + j)) bs" using holds_append [OF h'] by (simp add: tcp_hdr_def)
qed

lemma receive_segment:
  assumes h: "holds q (tcp_segment ip x sq fl bs)" and m: "tcp_match src (x_local_port x) (x_remote_port x) s = Some i"
  shows "tcp_receive E src q (20 + length bs) s = tcp_segment_arrives E i sq (ntohl (ld32 q 8)) fl (\<lambda>j. q (20 + j)) (length bs) s"
proof -
  have "unat (drop_bit 4 (q 12)) * 4 = 20" unfolding seg_fields(4) [OF h] by simp
  then show ?thesis using m by (simp add: tcp_receive_def Let_def seg_fields(1-3,5) [OF h])
qed

text \<open>
  One direction of a connection between two hosts: socket i of a is established with socket j of b, which expects the
  bytes a sends next. Both can send without waiting for ARP.
\<close>

definition tcp_pair :: "nat \<Rightarrow> 'a tcp_st_scheme \<Rightarrow> nat \<Rightarrow> 'a tcp_st_scheme \<Rightarrow> bool" where
  "tcp_pair i a j b \<longleftrightarrow> get_socket (int i) a = Some i \<and> x_state (sockets a i) = TCP_ESTABLISHED
     \<and> x_remote_ip (sockets a i) = if_ip (net_iface b) \<and> online (x_remote_ip (sockets a i)) a
     \<and> tcp_match (if_ip (net_iface a)) (x_local_port (sockets a i)) (x_remote_port (sockets a i)) b = Some j
     \<and> x_state (sockets b j) = TCP_ESTABLISHED \<and> x_rx_seq (sockets b j) = x_tx_seq (sockets a i) \<and> rx_ok (sockets b j)
     \<and> online (x_remote_ip (sockets b j)) b"

text \<open>Sending some bytes, and the arrival of the frame at the other host; then a whole sequence of such steps.\<close>

definition transfer ::
  "'a tcp_st_scheme net_env \<Rightarrow> nat \<Rightarrow> u8 list \<Rightarrow> 'a tcp_st_scheme \<times> 'a tcp_st_scheme \<Rightarrow> ('a tcp_st_scheme \<times> 'a tcp_st_scheme) outcome" where
  "transfer E i bs ab =
     (case tcp_send E (int i) bs (fst ab) of
        Panic \<Rightarrow> Panic
      | Done (_, a) \<Rightarrow>
          (case net_receive E (nth (last (sent a))) (length (last (sent a))) (snd ab) of
             Panic \<Rightarrow> Panic
           | Done b \<Rightarrow> Done (a, b)))"

primrec stream ::
  "'a tcp_st_scheme net_env \<Rightarrow> nat \<Rightarrow> u8 list list \<Rightarrow> 'a tcp_st_scheme \<times> 'a tcp_st_scheme \<Rightarrow> ('a tcp_st_scheme \<times> 'a tcp_st_scheme) outcome" where
  "stream E i [] ab = Done ab"
| "stream E i (bs # bss) ab = (case transfer E i bs ab of Panic \<Rightarrow> Panic | Done ab1 \<Rightarrow> stream E i bss ab1)"

lemma save_ack [simp]: "save_segment TCP_ACK [] now x = x"
  by (simp add: save_segment_def)

lemma upd_tcp_sockets [simp]:
  "sockets (upd_tcp i f s) = (sockets s)(i := f (sockets s i))" "net_iface (upd_tcp i f s) = net_iface s"
  "arp_cache (upd_tcp i f s) = arp_cache s" "buf_used (upd_tcp i f s) = buf_used s" "sent (upd_tcp i f s) = sent s"
  "sock_table (upd_tcp i f s) = sock_table s"
  by (simp_all add: upd_tcp_def)

text \<open>What a step leaves alone.\<close>

definition quiet :: "'a tcp_st_scheme \<Rightarrow> 'a tcp_st_scheme \<Rightarrow> bool" where
  "quiet t s \<longleftrightarrow> net_iface t = net_iface s \<and> arp_cache t = arp_cache s \<and> buf_used t = buf_used s \<and> sock_table t = sock_table s"

lemma quiet_online: "quiet t s \<Longrightarrow> online d t = online d s"
  by (rule online_cong) (simp_all add: quiet_def)

lemma send_then_ack:
  fixes s :: "'a tcp_st_scheme"
  assumes o: "online (x_remote_ip (sockets s i)) s"
  shows "\<exists>t. send_then E i TCP_ACK s = Done t \<and> sockets t = sockets s \<and> quiet t s"
proof -
  obtain mac where "hop_mac (x_remote_ip (sockets s i)) s = Some mac" using o by (auto simp: online_def split: option.splits)
  note send_segment_exact [OF o this, of "[]" E TCP_ACK]
  then show ?thesis by (auto simp: send_then_def quiet_def upd_tcp_def)
qed

definition same_end :: "tcp_socket \<Rightarrow> tcp_socket \<Rightarrow> bool" where
  "same_end y x \<longleftrightarrow> x_used y = x_used x \<and> x_state y = x_state x \<and> x_local_port y = x_local_port x \<and> x_remote_port y = x_remote_port x
     \<and> x_remote_ip y = x_remote_ip x"

lemma fold_push_end:
  "x_local_port (fold rx_push bs x) = x_local_port x" "x_remote_port (fold rx_push bs x) = x_remote_port x"
  "x_remote_ip (fold rx_push bs x) = x_remote_ip x" "x_rx_seq (fold rx_push bs x) = x_rx_seq x"
  by (induction bs arbitrary: x) (simp_all add: rx_push_def)

lemma clear_same:
  "same_end (tcp_rtx_clear_if_acked ack x) x" "x_rx_seq (tcp_rtx_clear_if_acked ack x) = x_rx_seq x"
  "rx_bytes (tcp_rtx_clear_if_acked ack x) = rx_bytes x" "rx_ok (tcp_rtx_clear_if_acked ack x) = rx_ok x"
  "rx_count (tcp_rtx_clear_if_acked ack x) = rx_count x"
  by (simp_all add: tcp_rtx_clear_if_acked_def same_end_def rx_bytes_def rx_ok_def rx_count_def)

lemma established_data:
  fixes s :: "'a tcp_st_scheme"
  assumes x: "rx_ok (sockets s j)" "online (x_remote_ip (sockets s j)) s" and d: "holds d bs" "bs \<noteq> []" "length bs < 2 ^ 63"
  shows "\<exists>t y. tcp_established E j (x_rx_seq (sockets s j)) ack 0x18 d (length bs) s = Done t \<and> sockets t = (sockets s)(j := y)
     \<and> same_end y (sockets s j) \<and> rx_ok y \<and> rx_bytes y = take 4095 (rx_bytes (sockets s j) @ bs)
     \<and> x_rx_seq y = x_rx_seq (sockets s j) + of_nat (length bs) \<and> quiet t s"
proof -
  define s1 where "s1 = (if x_rtx_time (sockets s j) \<noteq> 0 then upd_tcp j (tcp_rtx_clear_if_acked ack) s else s)"
  define x1 where "x1 = sockets s1 j"
  have x1: "same_end x1 (sockets s j)" "x_rx_seq x1 = x_rx_seq (sockets s j)" "rx_bytes x1 = rx_bytes (sockets s j)" "rx_ok x1" "rx_count x1 = rx_count (sockets s j)"
    and s1: "sockets s1 = (sockets s)(j := x1)" "quiet s1 s"
    using x(1) clear_same [of ack "sockets s j"] by (auto simp: s1_def x1_def same_end_def fun_eq_iff quiet_def)
  define y where "y = (fold rx_push bs x1)\<lparr>x_rx_seq := x_rx_seq x1 + of_nat (length bs)\<rparr>"
  define s2 where "s2 = upd_tcp j (\<lambda>x. (fold rx_push bs x)\<lparr>x_rx_seq := x_rx_seq x + of_nat (length bs)\<rparr>) s1"
  have s2: "sockets s2 = (sockets s)(j := y)" "quiet s2 s"
    using s1(2) fun_upd_upd [of "sockets s" j x1 y] unfolding s1(1) [symmetric] by (simp_all add: s2_def y_def x1_def quiet_def)
  have y: "same_end y (sockets s j)" "rx_bytes y = rx_bytes (fold rx_push bs x1)" "rx_ok y = rx_ok (fold rx_push bs x1)"
    using x1(1) by (simp_all add: y_def same_end_def fold_push_same fold_push_end rx_bytes_def rx_ok_def rx_count_def)
  have "online (x_remote_ip (sockets s2 j)) s2"
    using x(2) y(1) quiet_online [OF s2(2)] s2(1) by (simp add: same_end_def)
  then obtain t where t: "send_then E j TCP_ACK s2 = Done t" "sockets t = sockets s2" "quiet t s2" using send_then_ack by blast
  have "tcp_established E j (x_rx_seq (sockets s j)) ack 0x18 d (length bs) s = send_then E j TCP_ACK s2"
    using d x1(2) unfolding s2_def s1_def x1_def by (simp add: tcp_established_def Let_def holds_map split del: if_split)
  moreover have "rx_bytes y = take 4095 (rx_bytes (sockets s j) @ bs)"
    using rx_push_all(2) [OF x1(4), of bs] x(1) unfolding y(2) x1(3,5) by (simp add: rx_ok_def)
  moreover have "rx_ok y" using rx_push_all(1) [OF x1(4)] y(3) by simp
  moreover have "x_rx_seq y = x_rx_seq (sockets s j) + of_nat (length bs)" by (simp add: y_def x1(2))
  moreover have "quiet t s" using t(3) s2(2) by (simp add: quiet_def)
  ultimately show ?thesis using t s2 y(1) by (intro exI [of _ t] exI [of _ y]) simp
qed

lemma recv_bytes:
  assumes "get_socket (int j) s = Some j" "rx_ok (sockets s j)"
  shows "fst (tcp_recv (int j) n s) = (int (min n (length (rx_bytes (sockets s j)))), take n (rx_bytes (sockets s j)))"
proof -
  let ?x = "sockets s j"
  have av: "unat ((x_rx_tail ?x - x_rx_head ?x + 4096) mod 4096) = rx_count ?x"
    using assms(2) by (simp add: unat_mod unat_add_mod_4096 rx_count_def rx_ok_def)
  show ?thesis
  proof (cases "rx_count ?x = 0")
    case True
    then have "rx_bytes ?x = []" by (metis length_0_conv length_rx_bytes)
    then show ?thesis using assms(1) av True by (simp add: tcp_recv_def Let_def)
  next
    case False
    define m where "m = (if rx_count ?x < n then rx_count ?x else n)"
    have "m \<le> rx_count ?x" by (simp add: m_def)
    from rx_take_bytes [OF assms(2) this] obtain y where "rx_take m ?x = (take m (rx_bytes ?x), y)" by blast
    then have "fst (tcp_recv (int j) n s) = (int m, take m (rx_bytes ?x))"
      using assms(1) av False by (cases "rx_count ?x < n") (simp_all add: tcp_recv_def Let_def m_def)
    moreover have "take m (rx_bytes ?x) = take n (rx_bytes ?x)" "m = min n (rx_count ?x)" by (auto simp: m_def)
    ultimately show ?thesis by simp
  qed
qed

lemma match_cong:
  assumes "sockets t = (sockets s)(j := y)" "same_end y (sockets s j)"
  shows "tcp_match src sp dp t = tcp_match src sp dp s"
  unfolding tcp_match_def using assms by (intro arg_cong [where f = "\<lambda>P. for_find P 0 16"]) (auto simp: fun_eq_iff same_end_def)

lemma save_same:
  "same_end (save_segment fl bs now x) x" "x_tx_seq (save_segment fl bs now x) = x_tx_seq x + of_nat (length bs)"
  by (cases "length bs > 0"; simp add: save_segment_def same_end_def Let_def)+

text \<open>A segment that is sent, and its arrival at the host it is addressed to.\<close>

lemma segment_goes:
  fixes s :: "'a tcp_st_scheme" and fl :: u8
  assumes o: "online (x_remote_ip (sockets s i)) s" and E: "\<And>l. nic E l = 0" and n: "length bs \<le> 1994"
  defines "seg \<equiv> tcp_segment (if_ip (net_iface s)) (sockets s i) (x_tx_seq (sockets s i)) fl bs"
  shows "\<exists>fr. tcp_send_segment E i fl bs s =
       Done (0, upd_tcp i (save_segment fl bs (ucast (tick_count s))) (s\<lparr>ip4_id := ip4_id s + 1, sent := sent s @ [fr]\<rparr>))
     \<and> (\<forall>b. if_ip (net_iface b) = x_remote_ip (sockets s i) \<longrightarrow> (\<exists>q. holds q seg
         \<and> net_receive E (nth fr) (length fr) b = tcp_receive E (if_ip (net_iface s)) q (20 + length bs) b))"
proof -
  obtain mac where mac: "hop_mac (x_remote_ip (sockets s i)) s = Some mac" using o by (auto simp: online_def split: option.splits)
  define fr where "fr = ip_frame mac (x_remote_ip (sockets s i)) 6 seg s"
  have l: "length seg = 20 + length bs" by (simp add: seg_def)
  have "\<exists>q. holds q seg \<and> net_receive E (nth fr) (length fr) b = tcp_receive E (if_ip (net_iface s)) q (20 + length bs) b"
    if "if_ip (net_iface b) = x_remote_ip (sockets s i)" for b
    using frame_deliver [OF o mac, of seg b E 6] that l n unfolding fr_def by auto
  moreover have "tcp_send_segment E i fl bs s =
       Done (0, upd_tcp i (save_segment fl bs (ucast (tick_count s))) (s\<lparr>ip4_id := ip4_id s + 1, sent := sent s @ [fr]\<rparr>))"
    using send_segment_exact [OF o mac n, of E fl] by (simp only: E fr_def seg_def refl if_True)
  ultimately show ?thesis by blast
qed

lemma transfer_ok:
  fixes a b :: "'a tcp_st_scheme"
  assumes p: "tcp_pair i a j b" and E: "\<And>l. nic E l = 0" and bs: "bs \<noteq> []" "length bs \<le> 1994"
  shows "\<exists>a' b'. transfer E i bs (a, b) = Done (a', b') \<and> tcp_pair i a' j b'
     \<and> rx_bytes (sockets b' j) = take 4095 (rx_bytes (sockets b j) @ bs) \<and> quiet b' b"
proof -
  let ?x = "sockets a i"
  note p' = p [unfolded tcp_pair_def]
  define seg where "seg = tcp_segment (if_ip (net_iface a)) ?x (x_tx_seq ?x) 0x18 bs"
  have o: "online (x_remote_ip ?x) a" "online (if_ip (net_iface b)) a" "if_ip (net_iface b) = x_remote_ip ?x" using p' by metis+
  obtain fr q where fr: "tcp_send_segment E i 0x18 bs a =
       Done (0, upd_tcp i (save_segment 0x18 bs (ucast (tick_count a))) (a\<lparr>ip4_id := ip4_id a + 1, sent := sent a @ [fr]\<rparr>))"
    and q: "holds q seg" "net_receive E (nth fr) (length fr) b = tcp_receive E (if_ip (net_iface a)) q (20 + length bs) b"
    using segment_goes [OF o(1) E bs(2), of "0x18"] o(3) unfolding seg_def by blast
  define a' where "a' = upd_tcp i (save_segment 0x18 bs (ucast (tick_count a))) (a\<lparr>ip4_id := ip4_id a + 1, sent := sent a @ [fr]\<rparr>)"
  have "tcp_send E (int i) bs a = tcp_send_segment E i 0x18 bs a" using p' by (simp add: tcp_send_def)
  then have snd: "tcp_send E (int i) bs a = Done (0, a')" unfolding a'_def fr .
  have a': "sockets a' = (sockets a)(i := save_segment 0x18 bs (ucast (tick_count a)) ?x)" "net_iface a' = net_iface a"
    "arp_cache a' = arp_cache a" "buf_used a' = buf_used a" "last (sent a') = fr" by (simp_all add: a'_def)
  have m: "tcp_match (if_ip (net_iface a)) (x_local_port ?x) (x_remote_port ?x) b = Some j" using p' by blast
  note rs = receive_segment [OF q(1) [unfolded seg_def] m, of E]
  obtain b' y where b': "tcp_established E j (x_rx_seq (sockets b j)) (ntohl (ld32 q 8)) 0x18 (\<lambda>j. q (20 + j)) (length bs) b = Done b'"
    "sockets b' = (sockets b)(j := y)" "same_end y (sockets b j)" "rx_ok y" "rx_bytes y = take 4095 (rx_bytes (sockets b j) @ bs)"
    "x_rx_seq y = x_rx_seq (sockets b j) + of_nat (length bs)" "quiet b' b"
    using established_data [of b j "\<lambda>j. q (20 + j)" bs E "ntohl (ld32 q 8)"] seg_fields(7) [OF q(1) [unfolded seg_def]] p' bs by auto
  have "net_receive E (nth fr) (length fr) b = Done b'"
    using q(2) rs b'(1) p' by (simp add: tcp_segment_arrives_def Let_def)
  then have "transfer E i bs (a, b) = Done (a', b')" using snd a'(5) by (simp add: transfer_def)
  moreover have "tcp_pair i a' j b'"
    using p' o(2) save_same [of "0x18" bs "ucast (tick_count a)" ?x] b'(2-6) b'(7) [unfolded quiet_def] a'
      match_cong [OF b'(2,3)] online_cong [OF a'(2-4)] quiet_online [OF b'(7)]
    by (simp add: tcp_pair_def same_end_def get_socket_def split: if_splits)
  ultimately show ?thesis using b'(2,5,7) by auto
qed

lemma stream_bytes:
  fixes a b :: "'a tcp_st_scheme"
  assumes "tcp_pair i a j b" "\<And>l. nic E l = 0" "\<forall>bs\<in>set bss. bs \<noteq> [] \<and> length bs \<le> 1994"
  shows "\<exists>a' b'. stream E i bss (a, b) = Done (a', b') \<and> tcp_pair i a' j b'
    \<and> rx_bytes (sockets b' j) = take 4095 (rx_bytes (sockets b j) @ concat bss) \<and> quiet b' b"
  using assms(1,3)
proof (induction bss arbitrary: a b)
  case Nil
  then have "length (rx_bytes (sockets b j)) < 4096" by (simp add: tcp_pair_def rx_ok_def)
  then show ?case using Nil by (simp add: quiet_def)
next
  case (Cons bs bss)
  then obtain a1 b1 where t: "transfer E i bs (a, b) = Done (a1, b1)" "tcp_pair i a1 j b1"
    "rx_bytes (sockets b1 j) = take 4095 (rx_bytes (sockets b j) @ bs)" "quiet b1 b" using transfer_ok [OF Cons.prems(1) assms(2), of bs] by auto
  from Cons.IH [OF t(2)] Cons.prems(2) obtain a2 b2 where u: "stream E i bss (a1, b1) = Done (a2, b2)" "tcp_pair i a2 j b2"
    "rx_bytes (sockets b2 j) = take 4095 (rx_bytes (sockets b1 j) @ concat bss)" "quiet b2 b1" by auto
  have "take 4095 (take 4095 xs @ ys) = take 4095 (xs @ ys)" for xs ys :: "u8 list" by (cases "length xs \<le> 4095") simp_all
  then have "rx_bytes (sockets b2 j) = take 4095 (rx_bytes (sockets b j) @ concat (bs # bss))"
    unfolding u(3) t(3) by (simp only: concat.simps append_assoc [symmetric])
  moreover have "quiet b2 b" using t(4) u(4) by (simp add: quiet_def)
  ultimately show ?case using t(1) u(1,2) by (auto simp del: concat.simps)
qed

lemma pair_recv:
  assumes "tcp_pair i a j b"
  shows "fst (tcp_recv (int j) n b) = (int (min n (length (rx_bytes (sockets b j)))), take n (rx_bytes (sockets b j)))"
  by (rule recv_bytes) (use assms in \<open>auto simp: tcp_pair_def tcp_match_def for_find_Some_iff get_socket_def\<close>)


section \<open>Opening a connection\<close>

text \<open>The last frame sent by a arrives at b; then the three segments that open a connection from a to a port of b.\<close>

definition arrive :: "'a tcp_st_scheme net_env \<Rightarrow> 'a tcp_st_scheme \<Rightarrow> 'a tcp_st_scheme \<Rightarrow> 'a tcp_st_scheme outcome" where
  "arrive E a b = net_receive E (nth (last (sent a))) (length (last (sent a))) b"

definition handshake ::
  "'a tcp_st_scheme net_env \<Rightarrow> u32 \<Rightarrow> u16 \<Rightarrow> 'a tcp_st_scheme \<Rightarrow> 'a tcp_st_scheme \<Rightarrow> (nat option \<times> 'a tcp_st_scheme \<times> 'a tcp_st_scheme) outcome" where
  "handshake E ip port a b =
     (case connect_start E ip port a of
        Panic \<Rightarrow> Panic
      | Done (None, a1) \<Rightarrow> Done (None, a1, b)
      | Done (Some i, a1) \<Rightarrow>
          (case arrive E a1 b of
             Panic \<Rightarrow> Panic
           | Done b1 \<Rightarrow>
               (case arrive E b1 a1 of
                  Panic \<Rightarrow> Panic
                | Done a2 \<Rightarrow> (case arrive E a2 b1 of Panic \<Rightarrow> Panic | Done b2 \<Rightarrow> Done (Some i, a2, b2)))))"

text \<open>The frame a step sends.\<close>

definition brings ::
  "'a tcp_st_scheme net_env \<Rightarrow> 'a tcp_st_scheme \<Rightarrow> tcp_socket \<Rightarrow> u32 \<Rightarrow> u8 \<Rightarrow> bool" where
  "brings E t x sq fl \<longleftrightarrow> (\<forall>b. if_ip (net_iface b) = x_remote_ip x \<longrightarrow> (\<exists>q. holds q (tcp_segment (if_ip (net_iface t)) x sq fl [])
     \<and> arrive E t b = tcp_receive E (if_ip (net_iface t)) q 20 b))"

lemma segment_brings:
  fixes s :: "'a tcp_st_scheme"
  assumes o: "online (x_remote_ip (sockets s i)) s" and E: "\<And>l. nic E l = 0"
  shows "\<exists>t. tcp_send_segment E i fl [] s = Done (0, t) \<and> sockets t = (sockets s)(i := save_segment fl [] (ucast (tick_count s)) (sockets s i))
    \<and> quiet t s \<and> brings E t (sockets s i) (x_tx_seq (sockets s i)) fl \<and> ephemeral_port t = ephemeral_port s"
proof -
  obtain fr where fr: "tcp_send_segment E i fl [] s =
       Done (0, upd_tcp i (save_segment fl [] (ucast (tick_count s))) (s\<lparr>ip4_id := ip4_id s + 1, sent := sent s @ [fr]\<rparr>))"
    "\<forall>b. if_ip (net_iface b) = x_remote_ip (sockets s i) \<longrightarrow> (\<exists>q. holds q (tcp_segment (if_ip (net_iface s)) (sockets s i) (x_tx_seq (sockets s i)) fl [])
         \<and> net_receive E (nth fr) (length fr) b = tcp_receive E (if_ip (net_iface s)) q 20 b)"
    using segment_goes [OF o E, of "[]" fl] by auto
  define t where "t = upd_tcp i (save_segment fl [] (ucast (tick_count s))) (s\<lparr>ip4_id := ip4_id s + 1, sent := sent s @ [fr]\<rparr>)"
  have t: "net_iface t = net_iface s" "last (sent t) = fr" by (simp_all add: t_def)
  have "brings E t (sockets s i) (x_tx_seq (sockets s i)) fl" unfolding brings_def arrive_def t by (rule fr(2))
  moreover have "quiet t s" "sockets t = (sockets s)(i := save_segment fl [] (ucast (tick_count s)) (sockets s i))" "ephemeral_port t = ephemeral_port s"
    by (simp_all add: t_def quiet_def upd_tcp_def)
  ultimately show ?thesis by (intro exI [of _ t] conjI) (simp_all only: fr(1) t_def)
qed

lemma brings_cong: "brings E t x sq fl \<Longrightarrow> net_iface u = net_iface t \<Longrightarrow> sent u = sent t \<Longrightarrow> brings E u x sq fl"
  by (simp add: brings_def arrive_def)

lemma match_new:
  assumes "tcp_match src sp dp s = None" "i < 16" "sockets t = (sockets s)(i := y)" "x_used y" "x_local_port y = dp" "x_remote_port y = sp" "x_remote_ip y = src"
  shows "tcp_match src sp dp t = Some i"
  using assms by (auto simp: tcp_match_def for_find_None_iff for_find_Some_iff)

lemma free_socket_less: "free_socket s = Some i \<Longrightarrow> i < 16"
  by (simp add: free_socket_def for_find_Some_iff)

definition fresh_end :: "tcp_socket \<Rightarrow> tcp_state \<Rightarrow> u32 \<Rightarrow> u16 \<Rightarrow> u16 \<Rightarrow> u32 \<Rightarrow> u32 \<Rightarrow> bool" where
  "fresh_end x st ip lp rp tx rx \<longleftrightarrow> x_used x \<and> x_state x = st \<and> x_remote_ip x = ip \<and> x_local_port x = lp \<and> x_remote_port x = rp
     \<and> x_tx_seq x = tx \<and> x_rx_seq x = rx \<and> rx_ok x \<and> rx_bytes x = []"

lemma save_end: "fresh_end (save_segment fl [] now x) st ip lp rp tx rx = fresh_end x st ip lp rp tx rx"
  by (simp add: fresh_end_def save_segment_def Let_def rx_ok_def rx_bytes_def rx_count_def)

lemma end_tx: "fresh_end x st ip lp rp tx rx \<Longrightarrow> fresh_end (x\<lparr>x_tx_seq := v\<rparr>) st ip lp rp v rx"
  by (simp add: fresh_end_def rx_ok_def rx_bytes_def rx_count_def)

lemma connect_sends:
  fixes a :: "'a tcp_st_scheme"
  assumes i: "free_socket a = Some i" and o: "online ip a" and E: "\<And>l. nic E l = 0"
  shows "\<exists>a1 x x0. connect_start E ip port a = Done (Some i, a1) \<and> sockets a1 = (sockets a)(i := x) \<and> quiet a1 a
    \<and> fresh_end x TCP_SYN_SENT ip (ephemeral_port a) port (rand_seq a + 1) 0
    \<and> fresh_end x0 TCP_SYN_SENT ip (ephemeral_port a) port (rand_seq a) 0 \<and> brings E a1 x0 (rand_seq a) TCP_SYN"
proof -
  define x0 where "x0 = zero_tcp\<lparr>x_used := True, x_state := TCP_SYN_SENT, x_local_ip := if_ip (net_iface a), x_remote_ip := ip,
    x_local_port := ephemeral_port a, x_remote_port := port, x_tx_seq := rand_seq a\<rparr>"
  define s1 where "s1 = (upd_tcp i (\<lambda>_. x0) a)\<lparr>ephemeral_port := ephemeral_port a + 1\<rparr>"
  have x0: "fresh_end x0 TCP_SYN_SENT ip (ephemeral_port a) port (rand_seq a) 0"
    by (simp add: fresh_end_def x0_def zero_tcp_def rx_ok_def rx_bytes_def rx_count_def)
  have s1: "quiet s1 a" "sockets s1 = (sockets a)(i := x0)" by (simp_all add: s1_def quiet_def upd_tcp_def)
  then have "online (x_remote_ip (sockets s1 i)) s1" using o x0 quiet_online [OF s1(1)] by (simp add: fresh_end_def)
  from segment_brings [OF this E, of TCP_SYN] obtain t where t: "tcp_send_segment E i TCP_SYN [] s1 = Done (0, t)"
    "sockets t = (sockets s1)(i := save_segment TCP_SYN [] (ucast (tick_count s1)) (sockets s1 i))" "quiet t s1" "brings E t x0 (rand_seq a) TCP_SYN"
    using x0 s1(2) by (auto simp: fresh_end_def)
  define a1 where "a1 = upd_tcp i (\<lambda>x. x\<lparr>x_tx_seq := x_tx_seq x + 1\<rparr>) t"
  have "connect_start E ip port a = Done (Some i, a1)"
    using i t(1) by (simp add: connect_start_def Let_def s1_def x0_def a1_def)
  moreover define x1 where "x1 = save_segment TCP_SYN [] (ucast (tick_count s1)) x0"
  have x1: "fresh_end x1 TCP_SYN_SENT ip (ephemeral_port a) port (rand_seq a) 0" unfolding x1_def save_end by (rule x0)
  have "sockets a1 = (sockets a)(i := x1\<lparr>x_tx_seq := rand_seq a + 1\<rparr>)"
    using t(2) s1(2) x1 by (simp add: a1_def x1_def [symmetric] fresh_end_def)
  moreover have "fresh_end (x1\<lparr>x_tx_seq := rand_seq a + 1\<rparr>) TCP_SYN_SENT ip (ephemeral_port a) port (rand_seq a + 1) 0"
    by (rule end_tx [OF x1])
  moreover have "quiet a1 a" using t(3) s1(1) by (simp add: quiet_def a1_def upd_tcp_def)
  moreover have "brings E a1 x0 (rand_seq a) TCP_SYN" using brings_cong [OF t(4), of a1] by (simp add: a1_def)
  ultimately show ?thesis using x0 by (intro exI conjI)
qed

lemma end_brings:
  fixes s :: "'a tcp_st_scheme"
  assumes x: "fresh_end x0 st ip lp rp tx rx" and s: "sockets s = f(i := x0)" and o: "online ip s" and E: "\<And>l. nic E l = 0"
  shows "\<exists>t x. tcp_send_segment E i fl [] s = Done (0, t) \<and> sockets t = f(i := x) \<and> fresh_end x st ip lp rp tx rx
    \<and> quiet t s \<and> brings E t x0 tx fl"
proof -
  have o': "online (x_remote_ip (sockets s i)) s" using o x s by (simp add: fresh_end_def)
  obtain t where t: "tcp_send_segment E i fl [] s = Done (0, t)"
    "sockets t = (sockets s)(i := save_segment fl [] (ucast (tick_count s)) (sockets s i))" "quiet t s"
    "brings E t (sockets s i) (x_tx_seq (sockets s i)) fl" using segment_brings [OF o' E, of fl] by blast
  define x1 where "x1 = save_segment fl [] (ucast (tick_count s)) x0"
  have x1: "fresh_end x1 st ip lp rp tx rx" unfolding x1_def save_end by (rule x)
  have "sockets t = f(i := x1)" using t(2) s by (simp add: x1_def)
  moreover have "brings E t x0 tx fl" using t(4) s x by (simp add: fresh_end_def)
  ultimately show ?thesis using t(1,3) x1 by (intro exI [of _ t] exI [of _ x1] conjI)
qed

lemma syn_arrives:
  fixes b :: "'a tcp_st_scheme"
  assumes h: "holds q (tcp_segment ipa x sq TCP_SYN [])" and x: "x_local_port x = sp" "x_remote_port x = port"
    and m: "tcp_match src sp port b = None" and l: "l < 16" "x_used (sockets b l)" "x_state (sockets b l) = TCP_LISTEN" "x_local_port (sockets b l) = port"
    and j: "free_socket b = Some j" and o: "online src b" and E: "\<And>l. nic E l = 0"
  shows "\<exists>b1 y y0. tcp_receive E src q 20 b = Done b1 \<and> sockets b1 = (sockets b)(j := y) \<and> quiet b1 b
    \<and> fresh_end y TCP_SYN_RCVD src port sp (rand_seq b + 1) (sq + 1)
    \<and> fresh_end y0 TCP_SYN_RCVD src port sp (rand_seq b) (sq + 1) \<and> brings E b1 y0 (rand_seq b) 0x12"
proof -
  define y0 where "y0 = zero_tcp\<lparr>x_used := True, x_state := TCP_SYN_RCVD, x_local_ip := if_ip (net_iface b),
    x_local_port := port, x_remote_ip := src, x_remote_port := sp, x_rx_seq := sq + 1, x_tx_seq := rand_seq b\<rparr>"
  define s1 where "s1 = upd_tcp j (\<lambda>_. y0) b"
  have y0: "fresh_end y0 TCP_SYN_RCVD src port sp (rand_seq b) (sq + 1)"
    by (simp add: fresh_end_def y0_def zero_tcp_def rx_ok_def rx_bytes_def rx_count_def)
  have s1: "quiet s1 b" "sockets s1 = (sockets b)(j := y0)" by (simp_all add: s1_def quiet_def upd_tcp_def)
  have o1: "online src s1" using o quiet_online [OF s1(1)] by simp
  obtain t y1 where t: "tcp_send_segment E j 0x12 [] s1 = Done (0, t)" "sockets t = (sockets b)(j := y1)"
    "fresh_end y1 TCP_SYN_RCVD src port sp (rand_seq b) (sq + 1)" "quiet t s1" "brings E t y0 (rand_seq b) 0x12"
    using end_brings [OF y0 s1(2) o1 E, of "0x12"] by blast
  define b1 where "b1 = upd_tcp j (\<lambda>x. x\<lparr>x_tx_seq := x_tx_seq x + 1\<rparr>) t"
  have "for_find (\<lambda>i. x_used (sockets b i) \<and> x_state (sockets b i) = TCP_LISTEN \<and> x_local_port (sockets b i) = port) 0 16 \<noteq> None"
    using l by (auto simp: for_find_None_iff)
  then have "tcp_passive_open E src sp port sq TCP_SYN b = Done b1"
    using j t(1) by (auto simp: tcp_passive_open_def Let_def s1_def y0_def b1_def)
  then have "tcp_receive E src q 20 b = Done b1"
    using m x by (simp add: tcp_receive_def Let_def seg_fields(1-3,5) [OF h])
  moreover have "sockets b1 = (sockets b)(j := y1\<lparr>x_tx_seq := rand_seq b + 1\<rparr>)" using t(2,3) by (simp add: b1_def fresh_end_def)
  moreover have "quiet b1 b" using t(4) s1(1) by (simp add: quiet_def b1_def upd_tcp_def)
  moreover have "fresh_end (y1\<lparr>x_tx_seq := rand_seq b + 1\<rparr>) TCP_SYN_RCVD src port sp (rand_seq b + 1) (sq + 1)" by (rule end_tx [OF t(3)])
  moreover have "brings E b1 y0 (rand_seq b) 0x12" using brings_cong [OF t(5), of b1] by (simp add: b1_def)
  ultimately show ?thesis using y0 by (intro exI conjI)
qed

lemma clear_end: "fresh_end (tcp_rtx_clear_if_acked ack x) st ip lp rp tx rx = fresh_end x st ip lp rp tx rx"
  by (simp add: fresh_end_def tcp_rtx_clear_if_acked_def rx_ok_def rx_bytes_def rx_count_def)

lemma end_state: "fresh_end x st ip lp rp tx rx \<Longrightarrow> fresh_end (x\<lparr>x_state := st'\<rparr>) st' ip lp rp tx rx"
  "fresh_end x st ip lp rp tx rx \<Longrightarrow> fresh_end (x\<lparr>x_rx_seq := v, x_state := st'\<rparr>) st' ip lp rp tx v"
  by (simp_all add: fresh_end_def rx_ok_def rx_bytes_def rx_count_def)

lemma syn_ack_arrives:
  fixes a :: "'a tcp_st_scheme"
  assumes h: "holds q (tcp_segment ipb y sq 0x12 [])" and y: "x_rx_seq y = tx"
    and x: "fresh_end (sockets a i) TCP_SYN_SENT src lp rp tx 0" and m: "tcp_match src (x_local_port y) (x_remote_port y) a = Some i"
    and o: "online src a" and E: "\<And>l. nic E l = 0"
  shows "\<exists>a1 x1 x0. tcp_receive E src q 20 a = Done a1 \<and> sockets a1 = (sockets a)(i := x1) \<and> quiet a1 a
    \<and> fresh_end x1 TCP_ESTABLISHED src lp rp tx (sq + 1) \<and> fresh_end x0 TCP_ESTABLISHED src lp rp tx (sq + 1) \<and> brings E a1 x0 tx TCP_ACK"
proof -
  define x0 where "x0 = (tcp_rtx_clear_if_acked tx (sockets a i))\<lparr>x_rx_seq := sq + 1, x_state := TCP_ESTABLISHED\<rparr>"
  have x0: "fresh_end x0 TCP_ESTABLISHED src lp rp tx (sq + 1)"
    unfolding x0_def by (rule end_state(2)) (simp add: clear_end, rule x)
  define s1 where "s1 = upd_tcp i (\<lambda>_. x0) a"
  have s1: "quiet s1 a" "sockets s1 = (sockets a)(i := x0)" by (simp_all add: s1_def quiet_def upd_tcp_def)
  have o1: "online src s1" using o quiet_online [OF s1(1)] by simp
  obtain t x1 where t: "tcp_send_segment E i TCP_ACK [] s1 = Done (0, t)" "sockets t = (sockets a)(i := x1)"
    "fresh_end x1 TCP_ESTABLISHED src lp rp tx (sq + 1)" "quiet t s1" "brings E t x0 tx TCP_ACK"
    using end_brings [OF x0 s1(2) o1 E, of TCP_ACK] by blast
  have "tcp_receive E src q (20 + length ([] :: u8 list)) a = tcp_segment_arrives E i sq tx 0x12 (\<lambda>j. q (20 + j)) 0 a"
    unfolding receive_segment [OF h m] using seg_fields(6) [OF h] y by simp
  also have "\<dots> = Done t"
    using x t(1) by (simp add: tcp_segment_arrives_def Let_def fresh_end_def send_then_def s1_def x0_def upd_tcp_def)
  finally have "tcp_receive E src q 20 a = Done t" by simp
  moreover have "quiet t a" using t(4) s1(1) by (simp add: quiet_def)
  ultimately show ?thesis using t(2,3,5) x0 by (intro exI conjI)
qed

lemma ack_arrives:
  fixes b :: "'a tcp_st_scheme"
  assumes h: "holds q (tcp_segment ipa x sq TCP_ACK [])" and x: "x_rx_seq x = tx"
    and y: "fresh_end (sockets b j) TCP_SYN_RCVD src lp rp tx rx" and m: "tcp_match src (x_local_port x) (x_remote_port x) b = Some j"
  shows "\<exists>b1 y1. tcp_receive E src q 20 b = Done b1 \<and> sockets b1 = (sockets b)(j := y1)
    \<and> net_iface b1 = net_iface b \<and> arp_cache b1 = arp_cache b \<and> buf_used b1 = buf_used b
    \<and> sock_table b1 = sock_table (sock_notify_accept lp src rp j b) \<and> fresh_end y1 TCP_ESTABLISHED src lp rp tx rx"
proof -
  define y1 where "y1 = (tcp_rtx_clear_if_acked tx (sockets b j))\<lparr>x_state := TCP_ESTABLISHED\<rparr>"
  have y1: "fresh_end y1 TCP_ESTABLISHED src lp rp tx rx"
    unfolding y1_def by (rule end_state(1)) (simp add: clear_end, rule y)
  define b1 where "b1 = sock_notify_accept lp src rp j (upd_tcp j (\<lambda>_. y1) b)"
  have "tcp_receive E src q (20 + length ([] :: u8 list)) b = tcp_segment_arrives E j sq tx TCP_ACK (\<lambda>j. q (20 + j)) 0 b"
    unfolding receive_segment [OF h m] using seg_fields(6) [OF h] x by simp
  also have "\<dots> = Done b1"
    using y by (simp add: tcp_segment_arrives_def Let_def fresh_end_def y1_def b1_def upd_tcp_def)
  finally have "tcp_receive E src q 20 b = Done b1" by simp
  moreover have "sockets b1 = (sockets b)(j := y1)" by (simp add: b1_def)
  moreover have "net_iface b1 = net_iface b" "arp_cache b1 = arp_cache b" "buf_used b1 = buf_used b"
    by (simp_all add: b1_def sock_notify_accept_def upd_tcp_def upd_sock_def split: option.splits)
  moreover have "sock_table b1 = sock_table (sock_notify_accept lp src rp j b)"
    by (simp add: b1_def sock_notify_accept_def sock_alloc_def upd_tcp_def upd_sock_def split: option.splits)
  ultimately show ?thesis using y1 by (intro exI conjI)
qed

lemma pair_ends:
  assumes a: "sockets a' i = x" "fresh_end x TCP_ESTABLISHED ipb lp rp tx rx" "if_ip (net_iface a') = ipa" "online ipb a'" "i < 16"
    and b: "sockets b' j = y" "fresh_end y TCP_ESTABLISHED ipa rp lp rx tx" "if_ip (net_iface b') = ipb" "online ipa b'"
    and m: "tcp_match ipa lp rp b' = Some j"
  shows "tcp_pair i a' j b'"
  using assms by (simp add: tcp_pair_def fresh_end_def get_socket_def)

lemma syn_exchange:
  fixes a b :: "'a tcp_st_scheme"
  assumes i: "free_socket a = Some i" and j: "free_socket b = Some j"
    and o: "online (if_ip (net_iface b)) a" "online (if_ip (net_iface a)) b" and E: "\<And>l. nic E l = 0"
    and m: "tcp_match (if_ip (net_iface a)) (ephemeral_port a) port b = None"
    and l: "l < 16" "x_used (sockets b l)" "x_state (sockets b l) = TCP_LISTEN" "x_local_port (sockets b l) = port"
  shows "\<exists>a1 x b1 y y0. connect_start E (if_ip (net_iface b)) port a = Done (Some i, a1) \<and> arrive E a1 b = Done b1
    \<and> sockets a1 = (sockets a)(i := x) \<and> quiet a1 a
    \<and> fresh_end x TCP_SYN_SENT (if_ip (net_iface b)) (ephemeral_port a) port (rand_seq a + 1) 0
    \<and> sockets b1 = (sockets b)(j := y) \<and> quiet b1 b
    \<and> fresh_end y TCP_SYN_RCVD (if_ip (net_iface a)) port (ephemeral_port a) (rand_seq b + 1) (rand_seq a + 1)
    \<and> fresh_end y0 TCP_SYN_RCVD (if_ip (net_iface a)) port (ephemeral_port a) (rand_seq b) (rand_seq a + 1) \<and> brings E b1 y0 (rand_seq b) 0x12"
proof -
  let ?ipa = "if_ip (net_iface a)" and ?ipb = "if_ip (net_iface b)" and ?e = "ephemeral_port a"
  obtain a1 x x0 where a1: "connect_start E ?ipb port a = Done (Some i, a1)" "sockets a1 = (sockets a)(i := x)" "quiet a1 a"
    "fresh_end x TCP_SYN_SENT ?ipb ?e port (rand_seq a + 1) 0" "fresh_end x0 TCP_SYN_SENT ?ipb ?e port (rand_seq a) 0"
    "brings E a1 x0 (rand_seq a) TCP_SYN" using connect_sends [OF i o(1) E, of port] by blast
  have ia: "if_ip (net_iface a1) = ?ipa" using a1(3) by (simp add: quiet_def)
  obtain q where q: "holds q (tcp_segment ?ipa x0 (rand_seq a) TCP_SYN [])" "arrive E a1 b = tcp_receive E ?ipa q 20 b"
    using a1(5,6) ia unfolding brings_def fresh_end_def by metis
  obtain b1 y y0 where b1: "tcp_receive E ?ipa q 20 b = Done b1" "sockets b1 = (sockets b)(j := y)" "quiet b1 b"
    "fresh_end y TCP_SYN_RCVD ?ipa port ?e (rand_seq b + 1) (rand_seq a + 1)"
    "fresh_end y0 TCP_SYN_RCVD ?ipa port ?e (rand_seq b) (rand_seq a + 1)" "brings E b1 y0 (rand_seq b) 0x12"
    using syn_arrives [OF q(1) _ _ m l j o(2) E] a1(5) unfolding fresh_end_def by blast
  have "arrive E a1 b = Done b1" using q(2) b1(1) by simp
  then show ?thesis using a1(1-4) b1(2-6) by (intro exI conjI)
qed

lemma ack_exchange:
  fixes a1 b1 :: "'a tcp_st_scheme"
  assumes x: "fresh_end (sockets a1 i) TCP_SYN_SENT ipb e port ta 0" and y: "fresh_end (sockets b1 j) TCP_SYN_RCVD ipa port e (tb + 1) ta"
    and y0: "fresh_end y0 TCP_SYN_RCVD ipa port e tb ta" and g: "brings E b1 y0 tb 0x12"
    and ma: "tcp_match ipb port e a1 = Some i" and mb: "tcp_match ipa e port b1 = Some j"
    and ip: "if_ip (net_iface a1) = ipa" "if_ip (net_iface b1) = ipb" and o: "online ipb a1" and E: "\<And>l. nic E l = 0"
  shows "\<exists>a2 x2 b2 y2. arrive E b1 a1 = Done a2 \<and> arrive E a2 b1 = Done b2 \<and> sockets a2 = (sockets a1)(i := x2) \<and> quiet a2 a1
    \<and> fresh_end x2 TCP_ESTABLISHED ipb e port ta (tb + 1) \<and> sockets b2 = (sockets b1)(j := y2)
    \<and> net_iface b2 = net_iface b1 \<and> arp_cache b2 = arp_cache b1 \<and> buf_used b2 = buf_used b1
    \<and> sock_table b2 = sock_table (sock_notify_accept port ipa e j b1) \<and> fresh_end y2 TCP_ESTABLISHED ipa port e (tb + 1) ta"
proof -
  obtain q where q: "holds q (tcp_segment ipb y0 tb 0x12 [])" "arrive E b1 a1 = tcp_receive E ipb q 20 a1"
    using y0 g ip unfolding brings_def fresh_end_def by metis
  have f: "x_rx_seq y0 = ta" "x_local_port y0 = port" "x_remote_port y0 = e" using y0 by (simp_all add: fresh_end_def)
  obtain a2 x2 x3 where a2: "tcp_receive E ipb q 20 a1 = Done a2" "sockets a2 = (sockets a1)(i := x2)" "quiet a2 a1"
    "fresh_end x2 TCP_ESTABLISHED ipb e port ta (tb + 1)" "fresh_end x3 TCP_ESTABLISHED ipb e port ta (tb + 1)" "brings E a2 x3 ta TCP_ACK"
    using syn_ack_arrives [OF q(1) f(1) x _ o E] ma unfolding f by blast
  have "if_ip (net_iface a2) = ipa" using a2(3) ip(1) by (simp add: quiet_def)
  then obtain r where r: "holds r (tcp_segment ipa x3 ta TCP_ACK [])" "arrive E a2 b1 = tcp_receive E ipa r 20 b1"
    using a2(5,6) ip unfolding brings_def fresh_end_def by metis
  have h: "x_rx_seq x3 = tb + 1" "x_local_port x3 = e" "x_remote_port x3 = port" using a2(5) by (simp_all add: fresh_end_def)
  obtain b2 y2 where b2: "tcp_receive E ipa r 20 b1 = Done b2" "sockets b2 = (sockets b1)(j := y2)"
    "net_iface b2 = net_iface b1" "arp_cache b2 = arp_cache b1" "buf_used b2 = buf_used b1"
    "sock_table b2 = sock_table (sock_notify_accept port ipa e j b1)" "fresh_end y2 TCP_ESTABLISHED ipa port e (tb + 1) ta"
    using ack_arrives [OF r(1) h(1) y] mb unfolding h by blast
  have "arrive E b1 a1 = Done a2" "arrive E a2 b1 = Done b2" using q(2) a2(1) r(2) b2(1) by simp_all
  then show ?thesis using a2(2-4) b2(2-7) by (intro exI conjI)
qed

text \<open>
  A host that connects to a port on which another host listens, both with a free socket and no older
  connection between the two ports, has after the exchange of the three segments an established connection: each side expects
  the bytes the other sends next, nothing has been received, and the socket layer of the listening host has been told of the connection.
\<close>

lemma handshake_opens:
  fixes a b :: "'a tcp_st_scheme"
  assumes i: "free_socket a = Some i" and j: "free_socket b = Some j"
    and o: "online (if_ip (net_iface b)) a" "online (if_ip (net_iface a)) b" and E: "\<And>l. nic E l = 0"
    and m: "tcp_match (if_ip (net_iface b)) port (ephemeral_port a) a = None" "tcp_match (if_ip (net_iface a)) (ephemeral_port a) port b = None"
    and l: "l < 16" "x_used (sockets b l)" "x_state (sockets b l) = TCP_LISTEN" "x_local_port (sockets b l) = port"
  shows "\<exists>a' b'. handshake E (if_ip (net_iface b)) port a b = Done (Some i, a', b') \<and> tcp_pair i a' j b' \<and> tcp_pair j b' i a'
    \<and> rx_bytes (sockets a' i) = [] \<and> rx_bytes (sockets b' j) = []
    \<and> sock_table b' = sock_table (sock_notify_accept port (if_ip (net_iface a)) (ephemeral_port a) j b)"
proof -
  let ?ipa = "if_ip (net_iface a)" and ?ipb = "if_ip (net_iface b)" and ?e = "ephemeral_port a"
  obtain a1 x b1 y y0 where h1: "connect_start E ?ipb port a = Done (Some i, a1)" "arrive E a1 b = Done b1"
    and a1: "sockets a1 = (sockets a)(i := x)" "quiet a1 a" "fresh_end x TCP_SYN_SENT ?ipb ?e port (rand_seq a + 1) 0"
    and b1: "sockets b1 = (sockets b)(j := y)" "quiet b1 b" "fresh_end y TCP_SYN_RCVD ?ipa port ?e (rand_seq b + 1) (rand_seq a + 1)"
    and y0: "fresh_end y0 TCP_SYN_RCVD ?ipa port ?e (rand_seq b) (rand_seq a + 1)" "brings E b1 y0 (rand_seq b) 0x12"
    using syn_exchange [OF i j o E m(2) l] by blast
  have ip: "if_ip (net_iface a1) = ?ipa" "if_ip (net_iface b1) = ?ipb" using a1(2) b1(2) by (simp_all add: quiet_def)
  have xy: "fresh_end (sockets a1 i) TCP_SYN_SENT ?ipb ?e port (rand_seq a + 1) 0"
    "fresh_end (sockets b1 j) TCP_SYN_RCVD ?ipa port ?e (rand_seq b + 1) (rand_seq a + 1)" using a1(1,3) b1(1,3) by simp_all
  have o1: "online ?ipb a1" using o(1) quiet_online [OF a1(2)] by simp
  note ni = match_new [OF m(1) free_socket_less [OF i]] and nj = match_new [OF m(2) free_socket_less [OF j]]
  have ma: "tcp_match ?ipb port ?e a1 = Some i" by (rule ni [OF a1(1)]) (use a1(3) in \<open>simp_all add: fresh_end_def\<close>)
  have mb: "tcp_match ?ipa ?e port b1 = Some j" by (rule nj [OF b1(1)]) (use b1(3) in \<open>simp_all add: fresh_end_def\<close>)
  obtain a2 x2 b2 y2 where h2: "arrive E b1 a1 = Done a2" "arrive E a2 b1 = Done b2"
    and a2: "sockets a2 = (sockets a1)(i := x2)" "quiet a2 a1" "fresh_end x2 TCP_ESTABLISHED ?ipb ?e port (rand_seq a + 1) (rand_seq b + 1)"
    and b2: "sockets b2 = (sockets b1)(j := y2)" "net_iface b2 = net_iface b1" "arp_cache b2 = arp_cache b1" "buf_used b2 = buf_used b1"
    "sock_table b2 = sock_table (sock_notify_accept port ?ipa ?e j b1)" "fresh_end y2 TCP_ESTABLISHED ?ipa port ?e (rand_seq b + 1) (rand_seq a + 1)"
    using ack_exchange [OF xy y0 ma mb ip o1 E] by blast
  have s: "sockets a2 = (sockets a)(i := x2)" "sockets b2 = (sockets b)(j := y2)" "sockets a2 i = x2" "sockets b2 j = y2"
    using a1(1) a2(1) b1(1) b2(1) by simp_all
  have on: "online ?ipb a2" "online ?ipa b2"
    using o1 quiet_online [OF a2(2)] o(2) quiet_online [OF b1(2)] online_cong [OF b2(2-4)] by simp_all
  have ip2: "if_ip (net_iface a2) = ?ipa" "if_ip (net_iface b2) = ?ipb" using ip a2(2) b2(2) by (simp_all add: quiet_def)
  have m2: "tcp_match ?ipa ?e port b2 = Some j" "tcp_match ?ipb port ?e a2 = Some i"
    by (rule nj [OF s(2)], use b2(6) in \<open>simp_all add: fresh_end_def\<close>) (rule ni [OF s(1)], use a2(3) in \<open>simp_all add: fresh_end_def\<close>)
  have "handshake E ?ipb port a b = Done (Some i, a2, b2)" by (simp add: handshake_def h1 h2)
  moreover have "tcp_pair i a2 j b2" by (rule pair_ends [OF s(3) a2(3) ip2(1) on(1) free_socket_less [OF i] s(4) b2(6) ip2(2) on(2) m2(1)])
  moreover have "tcp_pair j b2 i a2" by (rule pair_ends [OF s(4) b2(6) ip2(2) on(2) free_socket_less [OF j] s(3) a2(3) ip2(1) on(1) m2(2)])
  moreover have "sock_table b2 = sock_table (sock_notify_accept port ?ipa ?e j b)"
    using b2(5) b1(2) by (simp add: quiet_def sock_notify_accept_def sock_alloc_def upd_sock_def split: option.splits)
  moreover have "rx_bytes (sockets a2 i) = []" "rx_bytes (sockets b2 j) = []" using s(3,4) a2(3) b2(6) by (simp_all add: fresh_end_def)
  ultimately show ?thesis by (intro exI conjI)
qed

section \<open>Two hosts\<close>

text \<open>Two initialised hosts on one network that know each other's hardware address; the second listens on port 80 and polls port 53.\<close>

definition host :: "u32 \<Rightarrow> u8 list \<Rightarrow> u32 \<Rightarrow> u8 list \<Rightarrow> tcp_st" where
  "host ip mac pip pmac = arp_cache_add pip pmac
     (net_init (tcp_demo\<lparr>net_iface := net_iface0\<lparr>if_ip := ip, if_mac := mac, if_up := True, if_send := True\<rparr>\<rparr>))"

definition host_a :: tcp_st where
  "host_a = host 0x0F02000A [2, 0, 0, 0, 0, 1] 0x1002000A [2, 0, 0, 0, 0, 2]"

definition host_b :: tcp_st where
  "host_b = snd (tcp_listen 80 (host 0x1002000A [2, 0, 0, 0, 0, 2] 0x0F02000A [2, 0, 0, 0, 0, 1]))"

lemma free_bufs_all: "(\<And>i. \<not> buf_used s i) \<Longrightarrow> free_bufs s = 64"
  by (simp add: free_bufs_def cells_def)

lemma host_fields:
  "net_iface (host ip mac pip pmac) = net_iface0\<lparr>if_ip := ip, if_mac := mac, if_up := True, if_send := True\<rparr>"
  "buf_used (host ip mac pip pmac) = (\<lambda>_. False)" "sockets (host ip mac pip pmac) = (\<lambda>_. zero_tcp)" "ephemeral_port (host ip mac pip pmac) = 49152"
  "g_listeners (host ip mac pip pmac) = (\<lambda>_. zero_listener)" "g_poll_init (host ip mac pip pmac) = False"
  by (simp_all add: host_def arp_cache_add_def net_init_def socket_init_def udp_init_def tcp_init_def ip4_init_def arp_init_def tcp_demo_def Let_def
    split: option.splits)

lemma host_online:
  assumes "length mac = 6" "length pmac = 6" "pip AND 0x00FFFFFF = ip AND 0x00FFFFFF" "pip \<noteq> 0xFFFFFFFF"
  shows "online pip (host ip mac pip pmac)"
proof -
  let ?h = "host ip mac pip pmac"
  obtain k where "arp_lookup pip ?h = Some k" "a_mac (arp_cache ?h k) = pmac" unfolding host_def using arp_add_lookup by blast
  moreover have "if_netmask (net_iface0\<lparr>if_ip := ip, if_mac := mac, if_up := True, if_send := True\<rparr>) = 0x00FFFFFF" by (simp add: net_iface0_def IP4_def)
  ultimately have "hop_mac pip ?h = Some pmac" using assms(3,4) by (simp add: hop_mac_def host_fields(1) Let_def)
  then show ?thesis using assms(1,2) by (simp add: online_def host_fields nic_ready_def free_bufs_all)
qed

lemma listen_fields:
  "net_iface (snd (tcp_listen p s)) = net_iface s" "buf_used (snd (tcp_listen p s)) = buf_used s" "arp_cache (snd (tcp_listen p s)) = arp_cache s"
  "g_listeners (snd (tcp_listen p s)) = g_listeners s" "g_poll_init (snd (tcp_listen p s)) = g_poll_init s"
  by (simp_all add: tcp_listen_def upd_tcp_def split: option.splits)

lemma hosts_online: "online 0x1002000A host_a" "online 0x0F02000A host_b"
proof -
  show "online 0x1002000A host_a" unfolding host_a_def by (rule host_online) simp_all
  have "online 0x0F02000A (host 0x1002000A [2, 0, 0, 0, 0, 2] 0x0F02000A [2, 0, 0, 0, 0, 1])" by (rule host_online) simp_all
  then show "online 0x0F02000A host_b"
    unfolding host_b_def using online_cong [OF listen_fields(1,3,2)] by blast
qed

lemma host_ips: "if_ip (net_iface host_a) = 0x0F02000A" "if_ip (net_iface host_b) = 0x1002000A"
  by (simp_all add: host_a_def host_b_def listen_fields host_fields)

lemma sockets_hosts:
  "sockets host_a = (\<lambda>_. zero_tcp)"
  "sockets host_b = (\<lambda>_. zero_tcp)(0 := zero_tcp\<lparr>x_used := True, x_state := TCP_LISTEN, x_local_ip := 0x1002000A, x_local_port := 80\<rparr>)"
  by (simp_all add: host_a_def host_b_def host_fields tcp_listen_def for_find_None_iff free_socket_def for_find.simps zero_tcp_def fun_eq_iff)


theorem ip4_short_length_crashes_witness:
  "ip4_receive calm (nth [69, 0, 0, 10, 0, 1, 0, 0, 64, 1, 98, 226, 10, 0, 2, 2, 10, 0, 2, 15, 8, 0, 0, 0, 0, 0, 0, 0]) 28 host_a = Panic"
proof (rule ip4_short_length_crashes)
  show "net_checksum (nth [69, 0, 0, 10, 0, 1, 0, 0, 64, 1, 98, 226, 10, 0, 2, 2, 10, 0, 2, 15, 8, 0, 0, 0, 0, 0, 0, 0]) 20 = 0"
    by (simp add: net_checksum_def sum_words.simps fold_carry.simps ld16_def)
  show "ld32 (nth [69, 0, 0, 10, 0, 1, 0, 0, 64, 1, 98, 226, 10, 0, 2, 2, 10, 0, 2, 15, 8, 0, 0, 0, 0, 0, 0, 0]) 16 = if_ip (net_iface host_a)" by (simp add: host_ips ld32_def)
  show "unat (ntohs (ld16 (nth [69, 0, 0, 10, 0, 1, 0, 0, 64, 1, 98, 226, 10, 0, 2, 2, 10, 0, 2, 15, 8, 0, 0, 0, 0, 0, 0, 0]) 2)) < 20" by (simp add: ntohs_def htons_def ld16_def)
  show "0 < free_bufs host_a" by (simp add: host_a_def host_fields free_bufs_all)
qed simp_all

definition host_p :: tcp_st where
  "host_p = (case udp_recv_poll 53 100 host_b of Done (_, t) \<Rightarrow> t | Panic \<Rightarrow> host_b)"

lemma host_p_eq:
  "host_p = host_b\<lparr>g_poll_slots := (\<lambda>_. zero_poll)(0 := zero_poll\<lparr>q_port := 53\<rparr>), g_poll_init := True,
     g_listeners := (\<lambda>_. zero_listener)(0 := \<lparr>l_port = 53, l_cb = Some (udp_poll_cb 0)\<rparr>)\<rparr>"
proof -
  have l: "g_listeners host_b = (\<lambda>_. zero_listener)" "g_poll_init host_b = False" by (simp_all add: host_b_def listen_fields host_fields)
  then show ?thesis
    by (simp add: host_p_def udp_recv_poll_def poll_slot_def udp_listen_def upd_poll_def zero_poll_def zero_listener_def for_find_None_iff for_find.simps)
qed

theorem udp_datagram_witness:
  "\<exists>a' fr b' b''. udp_send calm 0x1002000A 5353 53 [104, 105] host_a = (0, a') \<and> sent a' = sent host_a @ [fr]
    \<and> net_receive calm (nth fr) (length fr) host_p = Done b' \<and> udp_recv_poll 53 100 b' = Done ((2, [104, 105]), b'')"
proof -
  have "polls 53 0 host_p"
    by (simp add: polls_def host_p_eq zero_poll_def zero_listener_def for_find.simps)
  moreover have "0x1002000A = if_ip (net_iface host_p)" by (simp add: host_p_eq host_ips)
  ultimately show ?thesis
    using udp_datagram [OF hosts_online(1), of "[104, 105]" host_p 53 0 calm 5353 100] by (auto simp: calm_def)
qed

definition pair_a :: tcp_st where
  "pair_a = upd_tcp 0 (\<lambda>_. zero_tcp\<lparr>x_used := True, x_state := TCP_ESTABLISHED, x_remote_ip := 0x1002000A, x_local_port := 49152,
     x_remote_port := 80, x_tx_seq := 7\<rparr>) host_a"

definition pair_b :: tcp_st where
  "pair_b = upd_tcp 1 (\<lambda>_. zero_tcp\<lparr>x_used := True, x_state := TCP_ESTABLISHED, x_remote_ip := 0x0F02000A, x_local_port := 80,
     x_remote_port := 49152, x_rx_seq := 7\<rparr>) host_b"


end
