(* ===== verification/Socket.thy ===== *)
theory Socket
  imports Netstack
begin

unbundle bit_operations_syntax

text \<open>
  The socket calls of \<open>net/socket.c\<close> and their system calls, on top of TCP and UDP. An address argument is None when the
  pointer is null. Results that the code stores through a pointer (the bytes read, the address of the peer, an option)
  are returned beside the return value. \<open>yield\<close> is what the other tasks do to the state in the k-th turn of a
  waiting loop, \<open>pid\<close> the identifier of the current process or 0. Memory of the caller is read through \<open>mem\<close>.
\<close>

abbreviation (input) EIO :: int where "EIO \<equiv> 5"
abbreviation (input) EBADF :: int where "EBADF \<equiv> 9"
abbreviation (input) EAGAIN :: int where "EAGAIN \<equiv> 11"
abbreviation (input) EFAULT :: int where "EFAULT \<equiv> 14"
abbreviation (input) EINVAL :: int where "EINVAL \<equiv> 22"
abbreviation (input) EMFILE :: int where "EMFILE \<equiv> 24"
abbreviation (input) EDESTADDRREQ :: int where "EDESTADDRREQ \<equiv> 89"
abbreviation (input) EPROTOTYPE :: int where "EPROTOTYPE \<equiv> 91"
abbreviation (input) ENOPROTOOPT :: int where "ENOPROTOOPT \<equiv> 92"
abbreviation (input) EOPNOTSUPP :: int where "EOPNOTSUPP \<equiv> 95"
abbreviation (input) ENOTSUP :: int where "ENOTSUP \<equiv> 95"
abbreviation (input) EAFNOSUPPORT :: int where "EAFNOSUPPORT \<equiv> 97"
abbreviation (input) EADDRINUSE :: int where "EADDRINUSE \<equiv> 98"
abbreviation (input) ENOTCONN :: int where "ENOTCONN \<equiv> 107"
abbreviation (input) ETIMEDOUT :: int where "ETIMEDOUT \<equiv> 110"
abbreviation (input) ECONNREFUSED :: int where "ECONNREFUSED \<equiv> 111"
abbreviation (input) AF_UNIX :: int where "AF_UNIX \<equiv> 1"
abbreviation (input) SOCK_RAW :: int where "SOCK_RAW \<equiv> 3"
abbreviation (input) MSG_DONTWAIT :: int where "MSG_DONTWAIT \<equiv> 0x40"
abbreviation (input) SO_REUSEADDR :: int where "SO_REUSEADDR \<equiv> 2"
abbreviation (input) SO_ERROR :: int where "SO_ERROR \<equiv> 4"
abbreviation (input) SO_RCVTIMEO :: int where "SO_RCVTIMEO \<equiv> 20"
abbreviation (input) SO_SNDTIMEO :: int where "SO_SNDTIMEO \<equiv> 21"

section \<open>Opening sockets\<close>

definition sock_create :: "u32 \<Rightarrow> int \<Rightarrow> int \<Rightarrow> int \<Rightarrow> 'a sock_st_scheme \<Rightarrow> int \<times> 'a sock_st_scheme" where
  "sock_create pid domain type protocol s =
     (if domain \<noteq> 2 \<and> domain \<noteq> AF_UNIX then (- EAFNOSUPPORT, s)
      else if type \<noteq> SOCK_STREAM \<and> type \<noteq> SOCK_DGRAM \<and> type \<noteq> SOCK_RAW then (- EINVAL, s)
      else (case sock_alloc s of
              None \<Rightarrow> (- EMFILE, s)
            | Some sd \<Rightarrow>
                (int sd, upd_sock sd (\<lambda>_. zero_sock\<lparr>sk_used := True, sk_domain := domain, sk_type := type, sk_protocol := protocol,
                   sk_state := SOCK_STATE_CREATED, sk_tcp_sock := -1, sk_owner := pid\<rparr>) s)))"

definition sock_bind :: "int \<Rightarrow> sockaddr_in option \<Rightarrow> 'a sock_st_scheme \<Rightarrow> int \<times> 'a sock_st_scheme" where
  "sock_bind sd addr s =
     (case sock_get sd s of
        None \<Rightarrow> (- EBADF, s)
      | Some i \<Rightarrow>
          (case addr of
             None \<Rightarrow> (- EINVAL, s)
           | Some a \<Rightarrow>
               if sin_family a \<noteq> AF_INET then (- EINVAL, s)
               else if sk_state (sock_table s i) \<noteq> SOCK_STATE_CREATED then (- EINVAL, s)
               else (0, upd_sock i (\<lambda>k. k\<lparr>sk_local := a, sk_state := SOCK_STATE_BOUND\<rparr>) s)))"

definition sock_connect ::
  "'a tcp_st_scheme net_env \<Rightarrow> (nat \<Rightarrow> 'a tcp_st_scheme \<Rightarrow> 'a tcp_st_scheme) \<Rightarrow> (nat \<Rightarrow> 'a tcp_st_scheme \<Rightarrow> 'a tcp_st_scheme) \<Rightarrow>
     int \<Rightarrow> sockaddr_in option \<Rightarrow> 'a tcp_st_scheme \<Rightarrow> (int \<times> 'a tcp_st_scheme) outcome option" where
  "sock_connect E poll yield sd addr s =
     (case sock_get sd s of
        None \<Rightarrow> Some (Done (- EBADF, s))
      | Some i \<Rightarrow>
          (case addr of
             None \<Rightarrow> Some (Done (- EINVAL, s))
           | Some a \<Rightarrow>
               if sin_family a \<noteq> AF_INET then Some (Done (- EINVAL, s))
               else if sk_type (sock_table s i) \<noteq> SOCK_STREAM then Some (Done (- EPROTOTYPE, s))
               else
                 (let s1 = upd_sock i (\<lambda>k. k\<lparr>sk_remote := a\<rparr>) s;
                      s2 = (if sin_port (sk_local (sock_table s1 i)) = 0
                            then (let (p, t) = sock_ephemeral_port s1 in upd_sock i (\<lambda>k. k\<lparr>sk_local := (sk_local k)\<lparr>sin_port := htons p\<rparr>\<rparr>) t)
                            else s1)
                  in case tcp_connect E poll yield (sin_addr a) (ntohs (sin_port a)) s2 of
                       None \<Rightarrow> None
                     | Some Panic \<Rightarrow> Some Panic
                     | Some (Done (tcp_sd, s3)) \<Rightarrow>
                         if tcp_sd < 0 then Some (Done (- ECONNREFUSED, s3))
                         else Some (Done (0, upd_sock i (\<lambda>k. k\<lparr>sk_tcp_sock := tcp_sd, sk_state := SOCK_STATE_CONNECTED\<rparr>) s3)))))"

definition sock_listen :: "int \<Rightarrow> int \<Rightarrow> 'a tcp_st_scheme \<Rightarrow> int \<times> 'a tcp_st_scheme" where
  "sock_listen sd backlog s =
     (case sock_get sd s of
        None \<Rightarrow> (- EBADF, s)
      | Some i \<Rightarrow>
          if sk_type (sock_table s i) \<noteq> SOCK_STREAM then (- EOPNOTSUPP, s)
          else if sk_state (sock_table s i) \<noteq> SOCK_STATE_BOUND \<and> sk_state (sock_table s i) \<noteq> SOCK_STATE_CREATED then (- EINVAL, s)
          else
            (let s1 = upd_sock i (\<lambda>k. k\<lparr>sk_backlog_size := (if backlog > int SOCK_BACKLOG_MAX then int SOCK_BACKLOG_MAX else backlog),
                   sk_state := SOCK_STATE_LISTENING\<rparr>) s;
                 port0 = ntohs (sin_port (sk_local (sock_table s1 i)));
                 (port, s2) = (if port0 = 0
                   then (let (p, t) = sock_ephemeral_port s1 in (p, upd_sock i (\<lambda>k. k\<lparr>sk_local := (sk_local k)\<lparr>sin_port := htons p\<rparr>\<rparr>) t))
                   else (port0, s1));
                 (tcp_slot, s3) = tcp_listen port s2
             in if tcp_slot < 0 then (- EADDRINUSE, upd_sock i (\<lambda>k. k\<lparr>sk_state := SOCK_STATE_BOUND\<rparr>) s3)
                else (0, upd_sock i (\<lambda>k. k\<lparr>sk_tcp_sock := tcp_slot\<rparr>) s3)))"

text \<open>The waiting loop of \<open>accept\<close>: True when the queue is not empty, False when the time is over.\<close>

partial_function (option) accept_wait ::
  "(nat \<Rightarrow> 'a sock_st_scheme \<Rightarrow> 'a sock_st_scheme) \<Rightarrow> nat \<Rightarrow> u64 \<Rightarrow> nat \<Rightarrow> 'a sock_st_scheme \<Rightarrow> (bool \<times> 'a sock_st_scheme) option" where
  "accept_wait yield i deadline k s =
     (if sk_backlog_head (sock_table s i) = sk_backlog_tail (sock_table s i)
      then (if tick_count s > deadline then Some (False, s) else accept_wait yield i deadline (Suc k) (yield k s))
      else Some (True, s))"

definition backlog_pop :: "sock \<Rightarrow> nat \<times> sock" where
  "backlog_pop k = (sk_backlog k (sk_backlog_head k), k\<lparr>sk_backlog_head := (sk_backlog_head k + 1) mod SOCK_BACKLOG_MAX\<rparr>)"

definition sock_accept ::
  "(nat \<Rightarrow> 'a sock_st_scheme \<Rightarrow> 'a sock_st_scheme) \<Rightarrow> int \<Rightarrow> 'a sock_st_scheme \<Rightarrow> ((int \<times> sockaddr_in option) \<times> 'a sock_st_scheme) option" where
  "sock_accept yield sd s =
     (case sock_get sd s of
        None \<Rightarrow> Some ((- EBADF, None), s)
      | Some i \<Rightarrow>
          if sk_state (sock_table s i) \<noteq> SOCK_STATE_LISTENING then Some ((- EINVAL, None), s)
          else
            (case accept_wait yield i (tick_count s + 5000) 0 s of
               None \<Rightarrow> None
             | Some (False, s1) \<Rightarrow> Some ((- ETIMEDOUT, None), s1)
             | Some (True, s1) \<Rightarrow>
                 (let new_sd = fst (backlog_pop (sock_table s1 i)); s2 = upd_sock i (\<lambda>k. snd (backlog_pop k)) s1 in
                  case sock_get (int new_sd) s2 of
                    None \<Rightarrow> Some ((- EIO, None), s2)
                  | Some n \<Rightarrow> Some ((int new_sd, Some (sk_remote (sock_table s2 n))), s2))))"

section \<open>Data\<close>

definition sock_send :: "'a tcp_st_scheme net_env \<Rightarrow> int \<Rightarrow> u8 list option \<Rightarrow> 'a tcp_st_scheme \<Rightarrow> (int \<times> 'a tcp_st_scheme) outcome" where
  "sock_send E sd buf s =
     (case sock_get sd s of
        None \<Rightarrow> Done (- EBADF, s)
      | Some i \<Rightarrow>
          if sk_state (sock_table s i) \<noteq> SOCK_STATE_CONNECTED then Done (- ENOTCONN, s)
          else (case buf of
                  None \<Rightarrow> Done (0, s)
                | Some bs \<Rightarrow>
                    if bs = [] then Done (0, s)
                    else if sk_type (sock_table s i) = SOCK_STREAM \<and> sk_tcp_sock (sock_table s i) \<ge> 0
                    then tcp_send E (sk_tcp_sock (sock_table s i)) bs s
                    else Done (- ENOTSUP, s)))"

partial_function (option) recv_wait ::
  "(nat \<Rightarrow> 'a sock_st_scheme \<Rightarrow> 'a sock_st_scheme) \<Rightarrow> nat \<Rightarrow> u64 \<Rightarrow> nat \<Rightarrow> 'a sock_st_scheme \<Rightarrow> (bool \<times> 'a sock_st_scheme) option" where
  "recv_wait yield i deadline k s =
     (if rxbuf_available (sock_table s i) = 0
      then (if tick_count s > deadline then Some (False, s) else recv_wait yield i deadline (Suc k) (yield k s))
      else Some (True, s))"

definition rx_pop_at :: "nat \<Rightarrow> nat \<Rightarrow> 'a sock_st_scheme \<Rightarrow> (int \<times> u8 list) \<times> 'a sock_st_scheme" where
  "rx_pop_at i len s = (let (bs, k) = rxbuf_pop len (sock_table s i) in ((int (length bs), bs), upd_sock i (\<lambda>_. k) s))"

text \<open>\<open>buf\<close> tells whether the pointer is not null.\<close>

definition sock_recv ::
  "(nat \<Rightarrow> 'a tcp_st_scheme \<Rightarrow> 'a tcp_st_scheme) \<Rightarrow> int \<Rightarrow> bool \<Rightarrow> nat \<Rightarrow> int \<Rightarrow> 'a tcp_st_scheme \<Rightarrow> ((int \<times> u8 list) \<times> 'a tcp_st_scheme) option" where
  "sock_recv yield sd buf len flags s =
     (case sock_get sd s of
        None \<Rightarrow> Some ((- EBADF, []), s)
      | Some i \<Rightarrow>
          (let k = sock_table s i in
           if sk_state k \<noteq> SOCK_STATE_CONNECTED then Some ((- ENOTCONN, []), s)
           else if \<not> buf \<or> len = 0 then Some ((0, []), s)
           else if sk_type k = SOCK_STREAM \<and> sk_tcp_sock k \<ge> 0
           then Some (if rxbuf_available k > 0 then rx_pop_at i len s else tcp_recv (sk_tcp_sock k) len s)
           else if rxbuf_available k = 0 then
             (if flags AND MSG_DONTWAIT \<noteq> 0 then Some ((- EAGAIN, []), s)
              else (case recv_wait yield i
                        (tick_count s + (if sk_rcvtimeo_ms k \<noteq> 0 then word_of_int (sk_rcvtimeo_ms k) div 10 else 5000)) 0 s of
                      None \<Rightarrow> None
                    | Some (False, s1) \<Rightarrow> Some ((- ETIMEDOUT, []), s1)
                    | Some (True, s1) \<Rightarrow> Some (rx_pop_at i len s1)))
           else Some (rx_pop_at i len s)))"

text \<open>A datagram whose length with the header wraps around is copied past the stack buffer of \<open>udp_send\<close>.\<close>

definition sock_sendto ::
  "'a tcp_st_scheme net_env \<Rightarrow> int \<Rightarrow> u8 list \<Rightarrow> sockaddr_in option \<Rightarrow> 'a tcp_st_scheme \<Rightarrow> (int \<times> 'a tcp_st_scheme) outcome" where
  "sock_sendto E sd bs dst s =
     (case sock_get sd s of
        None \<Rightarrow> Done (- EBADF, s)
      | Some i \<Rightarrow>
          if sk_type (sock_table s i) = SOCK_STREAM then sock_send E sd (Some bs) s
          else (case dst of
                  None \<Rightarrow> Done (- EDESTADDRREQ, s)
                | Some d \<Rightarrow>
                    (let (src_port, s1) = (if sin_port (sk_local (sock_table s i)) \<noteq> 0
                           then (ntohs (sin_port (sk_local (sock_table s i))), s) else sock_ephemeral_port s)
                     in if if_up (net_iface s1) \<and> length bs \<ge> 2 ^ 64 - UDP_HDR then Panic
                        else Done (udp_send E (sin_addr d) src_port (ntohs (sin_port d)) bs s1))))"

definition sock_recvfrom ::
  "(nat \<Rightarrow> 'a tcp_st_scheme \<Rightarrow> 'a tcp_st_scheme) \<Rightarrow> int \<Rightarrow> bool \<Rightarrow> nat \<Rightarrow> int \<Rightarrow> 'a tcp_st_scheme \<Rightarrow>
     ((int \<times> u8 list \<times> sockaddr_in option) \<times> 'a tcp_st_scheme) option" where
  "sock_recvfrom yield sd buf len flags s =
     (case sock_recv yield sd buf len flags s of
        None \<Rightarrow> None
      | Some ((n, bs), s1) \<Rightarrow>
          Some ((n, bs, if n \<ge> 0 then map_option (\<lambda>i. sk_remote (sock_table s1 i)) (sock_get sd s1) else None), s1))"

section \<open>Options and closing\<close>

definition sock_setsockopt :: "int \<Rightarrow> int \<Rightarrow> int option \<Rightarrow> 'a sock_st_scheme \<Rightarrow> int \<times> 'a sock_st_scheme" where
  "sock_setsockopt sd optname optval s =
     (case (sock_get sd s, optval) of
        (Some i, Some v) \<Rightarrow>
          if optname = SO_REUSEADDR then (0, upd_sock i (\<lambda>k. k\<lparr>sk_reuseaddr := (v \<noteq> 0)\<rparr>) s)
          else if optname = SO_RCVTIMEO then (0, upd_sock i (\<lambda>k. k\<lparr>sk_rcvtimeo_ms := v\<rparr>) s)
          else if optname = SO_SNDTIMEO then (0, upd_sock i (\<lambda>k. k\<lparr>sk_sndtimeo_ms := v\<rparr>) s)
          else (- ENOPROTOOPT, s)
      | _ \<Rightarrow> (- EINVAL, s))"

text \<open>The two flags tell whether the pointers are not null; the value of the option is the second result.\<close>

definition sock_getsockopt :: "int \<Rightarrow> int \<Rightarrow> bool \<Rightarrow> bool \<Rightarrow> 'a sock_st_scheme \<Rightarrow> (int \<times> int option) \<times> 'a sock_st_scheme" where
  "sock_getsockopt sd optname optval optlen s =
     (case sock_get sd s of
        None \<Rightarrow> ((- EINVAL, None), s)
      | Some i \<Rightarrow>
          if \<not> optval \<or> \<not> optlen then ((- EINVAL, None), s)
          else if optname = SO_ERROR then ((0, Some (sk_err (sock_table s i))), upd_sock i (\<lambda>k. k\<lparr>sk_err := 0\<rparr>) s)
          else ((- ENOPROTOOPT, None), s))"

definition sock_shutdown :: "'a tcp_st_scheme net_env \<Rightarrow> int \<Rightarrow> 'a tcp_st_scheme \<Rightarrow> (int \<times> 'a tcp_st_scheme) outcome" where
  "sock_shutdown E sd s =
     (case sock_get sd s of
        None \<Rightarrow> Done (- EBADF, s)
      | Some i \<Rightarrow>
          (case (if sk_tcp_sock (sock_table s i) \<ge> 0 then tcp_close E (sk_tcp_sock (sock_table s i)) s else Done s) of
             Panic \<Rightarrow> Panic
           | Done s1 \<Rightarrow> Done (0, upd_sock i (\<lambda>k. k\<lparr>sk_state := SOCK_STATE_CLOSING\<rparr>) s1)))"

definition sock_close :: "'a tcp_st_scheme net_env \<Rightarrow> int \<Rightarrow> 'a tcp_st_scheme \<Rightarrow> (int \<times> 'a tcp_st_scheme) outcome" where
  "sock_close E sd s =
     (case sock_get sd s of
        None \<Rightarrow> Done (- EBADF, s)
      | Some i \<Rightarrow>
          (case (if sk_tcp_sock (sock_table s i) \<ge> 0 then tcp_close E (sk_tcp_sock (sock_table s i)) s else Done s) of
             Panic \<Rightarrow> Panic
           | Done s1 \<Rightarrow> Done (0, upd_sock i (\<lambda>_. zero_sock) s1)))"

section \<open>System calls\<close>

text \<open>Arguments are 64-bit values; casts to \<open>int\<close> keep the low 32 bits. Addresses are not checked to belong to the caller.\<close>

definition cint :: "u64 \<Rightarrow> int" where
  "cint x = sint (ucast x :: u32)"

definition load_addr :: "(u64 \<Rightarrow> u8) \<Rightarrow> u64 \<Rightarrow> sockaddr_in option" where
  "load_addr m a =
     (if a = 0 then None
      else (let p = (\<lambda>j. m (a + of_nat j)) in Some \<lparr>sin_family = ld16 p 0, sin_port = ld16 p 2, sin_addr = ld32 p 4\<rparr>))"

definition load_bytes :: "(u64 \<Rightarrow> u8) \<Rightarrow> u64 \<Rightarrow> u64 \<Rightarrow> u8 list" where
  "load_bytes m a n = map (\<lambda>j. m (a + of_nat j)) [0..<unat n]"

definition sys_socket :: "u32 \<Rightarrow> u64 \<Rightarrow> u64 \<Rightarrow> u64 \<Rightarrow> 'a sock_st_scheme \<Rightarrow> int \<times> 'a sock_st_scheme" where
  "sys_socket pid domain type proto s = sock_create pid (cint domain) (cint type) (cint proto) s"

definition sys_bind :: "(u64 \<Rightarrow> u8) \<Rightarrow> u64 \<Rightarrow> u64 \<Rightarrow> 'a sock_st_scheme \<Rightarrow> int \<times> 'a sock_st_scheme" where
  "sys_bind m sd addr s = (if addr = 0 then (- EFAULT, s) else sock_bind (cint sd) (load_addr m addr) s)"

definition sys_connect ::
  "'a tcp_st_scheme net_env \<Rightarrow> (nat \<Rightarrow> 'a tcp_st_scheme \<Rightarrow> 'a tcp_st_scheme) \<Rightarrow> (nat \<Rightarrow> 'a tcp_st_scheme \<Rightarrow> 'a tcp_st_scheme) \<Rightarrow>
     (u64 \<Rightarrow> u8) \<Rightarrow> u64 \<Rightarrow> u64 \<Rightarrow> 'a tcp_st_scheme \<Rightarrow> (int \<times> 'a tcp_st_scheme) outcome option" where
  "sys_connect E poll yield m sd addr s =
     (if addr = 0 then Some (Done (- EFAULT, s)) else sock_connect E poll yield (cint sd) (load_addr m addr) s)"

definition sys_listen :: "u64 \<Rightarrow> u64 \<Rightarrow> 'a tcp_st_scheme \<Rightarrow> int \<times> 'a tcp_st_scheme" where
  "sys_listen sd backlog s = sock_listen (cint sd) (cint backlog) s"

definition sys_accept ::
  "(nat \<Rightarrow> 'a sock_st_scheme \<Rightarrow> 'a sock_st_scheme) \<Rightarrow> u64 \<Rightarrow> u64 \<Rightarrow> 'a sock_st_scheme \<Rightarrow> ((int \<times> sockaddr_in option) \<times> 'a sock_st_scheme) option" where
  "sys_accept yield sd addr s =
     map_option (\<lambda>((r, peer), t). ((r, if addr = 0 then None else peer), t)) (sock_accept yield (cint sd) s)"

definition sys_send :: "'a tcp_st_scheme net_env \<Rightarrow> (u64 \<Rightarrow> u8) \<Rightarrow> u64 \<Rightarrow> u64 \<Rightarrow> u64 \<Rightarrow> 'a tcp_st_scheme \<Rightarrow> (int \<times> 'a tcp_st_scheme) outcome" where
  "sys_send E m sd buf len s = (if buf = 0 then Done (- EFAULT, s) else sock_send E (cint sd) (Some (load_bytes m buf len)) s)"

definition sys_recv ::
  "(nat \<Rightarrow> 'a tcp_st_scheme \<Rightarrow> 'a tcp_st_scheme) \<Rightarrow> u64 \<Rightarrow> u64 \<Rightarrow> u64 \<Rightarrow> u64 \<Rightarrow> 'a tcp_st_scheme \<Rightarrow> ((int \<times> u8 list) \<times> 'a tcp_st_scheme) option" where
  "sys_recv yield sd buf len flags s =
     (if buf = 0 then Some ((- EFAULT, []), s) else sock_recv yield (cint sd) True (unat len) (cint flags) s)"

definition sys_sendto ::
  "'a tcp_st_scheme net_env \<Rightarrow> (u64 \<Rightarrow> u8) \<Rightarrow> u64 \<Rightarrow> u64 \<Rightarrow> u64 \<Rightarrow> u64 \<Rightarrow> 'a tcp_st_scheme \<Rightarrow> (int \<times> 'a tcp_st_scheme) outcome" where
  "sys_sendto E m sd buf len addr s =
     (if buf = 0 then Done (- EFAULT, s) else sock_sendto E (cint sd) (load_bytes m buf len) (load_addr m addr) s)"

definition sys_recvfrom ::
  "(nat \<Rightarrow> 'a tcp_st_scheme \<Rightarrow> 'a tcp_st_scheme) \<Rightarrow> u64 \<Rightarrow> u64 \<Rightarrow> u64 \<Rightarrow> u64 \<Rightarrow> u64 \<Rightarrow> 'a tcp_st_scheme \<Rightarrow>
     ((int \<times> u8 list \<times> sockaddr_in option) \<times> 'a tcp_st_scheme) option" where
  "sys_recvfrom yield sd buf len flags addr s =
     (if buf = 0 then Some ((- EFAULT, [], None), s)
      else map_option (\<lambda>((r, bs, src), t). ((r, bs, if addr = 0 then None else src), t))
             (sock_recvfrom yield (cint sd) True (unat len) (cint flags) s))"

definition sys_setsockopt :: "(u64 \<Rightarrow> u8) \<Rightarrow> u64 \<Rightarrow> u64 \<Rightarrow> u64 \<Rightarrow> 'a sock_st_scheme \<Rightarrow> int \<times> 'a sock_st_scheme" where
  "sys_setsockopt m sd optname optval s =
     (if optval = 0 then (- EFAULT, s)
      else sock_setsockopt (cint sd) (cint optname) (Some (sint (ld32 (\<lambda>j. m (optval + of_nat j)) 0))) s)"

definition sys_getsockopt :: "u64 \<Rightarrow> u64 \<Rightarrow> u64 \<Rightarrow> u64 \<Rightarrow> 'a sock_st_scheme \<Rightarrow> (int \<times> int option) \<times> 'a sock_st_scheme" where
  "sys_getsockopt sd optname optval optlen_ptr s =
     (if optval = 0 \<or> optlen_ptr = 0 then ((- EFAULT, None), s) else sock_getsockopt (cint sd) (cint optname) True True s)"

definition sys_shutdown :: "'a tcp_st_scheme net_env \<Rightarrow> u64 \<Rightarrow> 'a tcp_st_scheme \<Rightarrow> (int \<times> 'a tcp_st_scheme) outcome" where
  "sys_shutdown E sd s =
     (case sock_shutdown E (cint sd) s of
        Panic \<Rightarrow> Panic
      | Done (rc, s1) \<Rightarrow>
          if rc = 0 then (case sock_close E (cint sd) s1 of Panic \<Rightarrow> Panic | Done (_, s2) \<Rightarrow> Done (rc, s2))
          else Done (rc, s1))"

section \<open>The queue of connections waiting for accept\<close>

definition backlog_count :: "sock \<Rightarrow> nat" where
  "backlog_count k = (sk_backlog_tail k + 8 - sk_backlog_head k) mod 8"

definition backlog_list :: "sock \<Rightarrow> nat list" where
  "backlog_list k = ring_list 8 (sk_backlog k) (sk_backlog_head k) (backlog_count k)"

definition backlog_ok :: "sock \<Rightarrow> bool" where
  "backlog_ok k \<longleftrightarrow> sk_backlog_head k < 8 \<and> sk_backlog_tail k < 8"

definition backlog_deq :: "sock \<Rightarrow> nat option \<times> sock" where
  "backlog_deq k = (if sk_backlog_head k = sk_backlog_tail k then (None, k) else map_prod Some (\<lambda>k. k) (backlog_pop k))"

lemma length_backlog [simp]: "length (backlog_list k) = backlog_count k"
  by (simp add: backlog_list_def)

lemma ring_diff:
  fixes h t :: nat
  assumes "h < 8" "t < 8"
  shows "(t + 8 - h) mod 8 = (if h \<le> t then t - h else t + 8 - h)"
  using assms by (auto simp: mod_if)

lemma ring_succ: "(t :: nat) < 8 \<Longrightarrow> (t + 1) mod 8 = (if t = 7 then 0 else t + 1)"
  by (simp add: mod_Suc)

lemma backlog_count_if:
  "backlog_ok k \<Longrightarrow> backlog_count k = (if sk_backlog_head k \<le> sk_backlog_tail k then sk_backlog_tail k - sk_backlog_head k
     else sk_backlog_tail k + 8 - sk_backlog_head k)"
  unfolding backlog_count_def backlog_ok_def by (elim conjE, rule ring_diff)

lemma backlog_tail: "backlog_ok k \<Longrightarrow> sk_backlog_tail k = (sk_backlog_head k + backlog_count k) mod 8"
  using backlog_count_if [of k] by (auto simp: backlog_ok_def mod_if split: if_splits)

lemma backlog_empty: "backlog_ok k \<Longrightarrow> backlog_count k = 0 \<longleftrightarrow> sk_backlog_head k = sk_backlog_tail k"
  using backlog_count_if [of k] by (auto simp: backlog_ok_def split: if_splits)

lemma backlog_push_ok: "backlog_ok k \<Longrightarrow> backlog_ok (backlog_push d k)"
  by (simp add: backlog_ok_def backlog_push_def Let_def)

lemma backlog_push_room:
  assumes k: "backlog_ok k" and n: "backlog_count k < 7"
  shows "backlog_list (backlog_push d k) = backlog_list k @ [d]"
proof -
  have a: "(sk_backlog_tail k + 1) mod 8 \<noteq> sk_backlog_head k"
    using k n backlog_count_if [OF k] ring_succ [of "sk_backlog_tail k"] by (auto simp: backlog_ok_def split: if_splits)
  have c: "backlog_count (backlog_push d k) = Suc (backlog_count k)"
    using backlog_count_if [OF k] backlog_count_if [OF backlog_push_ok [OF k], of d] a n ring_succ [of "sk_backlog_tail k"] k
    by (simp add: backlog_push_def Let_def backlog_ok_def split: if_splits)
  have "backlog_list (backlog_push d k) = ring_list 8 ((sk_backlog k)(sk_backlog_tail k := d)) (sk_backlog_head k) (Suc (backlog_count k))"
    using a c by (simp add: backlog_list_def backlog_push_def Let_def)
  then show ?thesis
    using ring_list_push [of "backlog_count k" 8 "sk_backlog k" "sk_backlog_head k" d] n backlog_tail [OF k] by (simp add: backlog_list_def)
qed

lemma backlog_push_full:
  assumes k: "backlog_ok k" and n: "backlog_count k = 7"
  shows "backlog_push d k = k"
proof -
  have "(sk_backlog_tail k + 1) mod 8 = sk_backlog_head k"
    using k n backlog_count_if [OF k] ring_succ [of "sk_backlog_tail k"] by (auto simp: backlog_ok_def split: if_splits)
  then show ?thesis by (simp add: backlog_push_def)
qed

lemma backlog_pop_ok: "backlog_ok k \<Longrightarrow> backlog_ok (snd (backlog_pop k))"
  by (simp add: backlog_ok_def backlog_pop_def)

lemma backlog_pop_cons:
  assumes k: "backlog_ok k" and c: "backlog_list k = d # ds"
  shows "sk_backlog_head k \<noteq> sk_backlog_tail k" "fst (backlog_pop k) = d" "backlog_list (snd (backlog_pop k)) = ds"
proof -
  have n: "0 < backlog_count k" using c by (metis length_backlog length_greater_0_conv list.distinct(1))
  show "sk_backlog_head k \<noteq> sk_backlog_tail k" using n backlog_empty [OF k] by simp
  have "backlog_count (snd (backlog_pop k)) = backlog_count k - 1"
    using backlog_count_if [OF k] backlog_count_if [OF backlog_pop_ok [OF k]] n ring_succ [of "sk_backlog_head k"] k
    by (simp add: backlog_pop_def backlog_ok_def split: if_splits)
  then have "backlog_list k = fst (backlog_pop k) # backlog_list (snd (backlog_pop k))"
    using ring_list_pop [of "sk_backlog_head k" 8 "backlog_count k" "sk_backlog k"] k n by (simp add: backlog_list_def backlog_pop_def backlog_ok_def)
  then show "fst (backlog_pop k) = d" "backlog_list (snd (backlog_pop k)) = ds" using c by simp_all
qed

interpretation acceptq: bounded_fifo backlog_list 7 backlog_ok backlog_push backlog_deq
proof unfold_locales
  fix k :: sock and d :: nat and ds
  assume k: "backlog_ok k"
  show "length (backlog_list k) \<le> 7" by (simp add: backlog_count_def)
  show "backlog_ok (backlog_push d k)" by (rule backlog_push_ok [OF k])
  show "backlog_list (backlog_push d k) = backlog_list k @ [d]" if "length (backlog_list k) < 7" using backlog_push_room [OF k] that by simp
  show "backlog_list (backlog_push d k) = backlog_list k" if "length (backlog_list k) = 7" using backlog_push_full [OF k] that by simp
  show "fst (backlog_deq k) = None \<and> backlog_list (snd (backlog_deq k)) = []" if "backlog_list k = []"
    using that backlog_empty [OF k] length_backlog [of k] by (simp add: backlog_deq_def)
  show "fst (backlog_deq k) = Some d \<and> backlog_list (snd (backlog_deq k)) = ds" if "backlog_list k = d # ds"
    using backlog_pop_cons [OF k that] by (simp add: backlog_deq_def)
  show "backlog_ok (snd (backlog_deq k))"
    using k backlog_pop_ok [OF k] by (simp add: backlog_deq_def)
qed

section \<open>A server\<close>

text \<open>The socket of a program that listens on a port, and the effect of a connection to it.\<close>

definition listens :: "u16 \<Rightarrow> nat \<Rightarrow> 'a sock_st_scheme \<Rightarrow> bool" where
  "listens port ls s \<longleftrightarrow> for_find (\<lambda>i. sk_used (sock_table s i) \<and> sk_state (sock_table s i) = SOCK_STATE_LISTENING
     \<and> ntohs (sin_port (sk_local (sock_table s i))) = port) 0 NET_SOCK_MAX = Some ls \<and> backlog_ok (sock_table s ls)"

lemma notify_accept_table:
  fixes ip :: u32 and rp :: u16 and j :: nat
  assumes l: "listens port ls s" and d: "sock_alloc s = Some d" and n: "backlog_count (sock_table s ls) < 7"
  defines "t \<equiv> sock_notify_accept port ip rp j s"
  shows "d \<noteq> ls" "d < 256" "ls < 256" "sock_table t d = accept_sock ip rp j (sock_table s ls)" "sk_used (sock_table t ls)"
    "sk_state (sock_table t ls) = SOCK_STATE_LISTENING" "backlog_ok (sock_table t ls)"
    "backlog_list (sock_table t ls) = backlog_list (sock_table s ls) @ [d]"
proof -
  have k: "ls < 256" "sk_used (sock_table s ls)" "sk_state (sock_table s ls) = SOCK_STATE_LISTENING" "backlog_ok (sock_table s ls)"
    using l by (simp_all add: listens_def for_find_Some_iff)
  have d': "d < 256" "\<not> sk_used (sock_table s d)" using d by (simp_all add: sock_alloc_def for_find_Some_iff)
  then show ne: "d \<noteq> ls" "d < 256" "ls < 256" using k by auto
  have t: "sock_table t = ((sock_table s)(d := accept_sock ip rp j (sock_table s ls)))(ls := backlog_push d (sock_table s ls))"
    using l d ne(1) by (simp add: t_def listens_def sock_notify_accept_def upd_sock_def)
  have "sk_used (backlog_push d k) = sk_used k" "sk_state (backlog_push d k) = sk_state k" for k by (simp_all add: backlog_push_def Let_def)
  then show "sock_table t d = accept_sock ip rp j (sock_table s ls)" "sk_used (sock_table t ls)" "sk_state (sock_table t ls) = SOCK_STATE_LISTENING"
    "backlog_ok (sock_table t ls)" "backlog_list (sock_table t ls) = backlog_list (sock_table s ls) @ [d]"
    using ne(1) k backlog_push_ok [OF k(4)] backlog_push_room [OF k(4) n] by (simp_all add: t)
qed

text \<open>Accepting takes the oldest waiting connection.\<close>

lemma accept_takes:
  assumes "ls < 256" "sk_used (sock_table s ls)" "sk_state (sock_table s ls) = SOCK_STATE_LISTENING" "backlog_ok (sock_table s ls)"
    "backlog_list (sock_table s ls) = d # ds" "d < 256" "sk_used (sock_table s d)" "d \<noteq> ls"
  shows "\<exists>t. sock_accept yield (int ls) s = Some ((int d, Some (sk_remote (sock_table s d))), t)
    \<and> backlog_list (sock_table t ls) = ds \<and> sock_table t d = sock_table s d \<and> (\<exists>f. t = upd_sock ls f s)"
proof -
  note p = backlog_pop_cons [OF assms(4,5)]
  define t where "t = upd_sock ls (\<lambda>k. snd (backlog_pop k)) s"
  have "accept_wait yield ls (tick_count s + 5000) 0 s = Some (True, s)" using p(1) by (simp add: accept_wait.simps)
  moreover have "sock_get (int ls) s = Some ls" "sock_get (int d) t = Some d"
    using assms by (simp_all add: sock_get_def t_def upd_sock_def)
  ultimately have "sock_accept yield (int ls) s = Some ((int d, Some (sk_remote (sock_table s d))), t)"
    using assms(3,8) p(2) by (simp add: sock_accept_def t_def [symmetric]) (simp add: t_def upd_sock_def)
  moreover have "backlog_list (sock_table t ls) = ds" "sock_table t d = sock_table s d" using p(3) assms(8) by (simp_all add: t_def upd_sock_def)
  ultimately show ?thesis unfolding t_def by blast
qed

text \<open>
  C11: a TCP server. A program listens on a port; another host connects to it and sends a sequence of segments. Then \<open>accept\<close>
  returns at once a new descriptor with the address and port of that host, and \<open>recv\<close> on this descriptor returns the bytes
  that were sent, in order, up to the 4095 the connection can hold.
\<close>

theorem server_session:
  fixes a b :: "'a tcp_st_scheme"
  assumes tcp: "free_socket a = Some i" "free_socket b = Some j"
      "online (if_ip (net_iface b)) a" "online (if_ip (net_iface a)) b" "\<And>l. nic E l = 0"
      "tcp_match (if_ip (net_iface b)) port (ephemeral_port a) a = None" "tcp_match (if_ip (net_iface a)) (ephemeral_port a) port b = None"
      "l < 16" "x_used (sockets b l)" "x_state (sockets b l) = TCP_LISTEN" "x_local_port (sockets b l) = port"
    and sock: "listens port ls b" "backlog_list (sock_table b ls) = []" "sock_alloc b = Some d"
    and segs: "\<forall>bs\<in>set bss. bs \<noteq> [] \<and> length bs \<le> 1994"
  shows "\<exists>a1 b1 a2 b2 b3. handshake E (if_ip (net_iface b)) port a b = Done (Some i, a1, b1) \<and> stream E i bss (a1, b1) = Done (a2, b2)
    \<and> sock_accept yield (int ls) b2 =
        Some ((int d, Some \<lparr>sin_family = AF_INET, sin_port = htons (ephemeral_port a), sin_addr = if_ip (net_iface a)\<rparr>), b3)
    \<and> (let all = take 4095 (concat bss) in
       map_option fst (sock_recv yield (int d) True n flags b3) = Some (int (min n (length all)), take n all))"
proof -
  obtain a1 b1 where h: "handshake E (if_ip (net_iface b)) port a b = Done (Some i, a1, b1)" "tcp_pair i a1 j b1" "rx_bytes (sockets b1 j) = []"
    "sock_table b1 = sock_table (sock_notify_accept port (if_ip (net_iface a)) (ephemeral_port a) j b)" using handshake_opens [OF tcp] by blast
  obtain a2 b2 where st: "stream E i bss (a1, b1) = Done (a2, b2)" "tcp_pair i a2 j b2" "rx_bytes (sockets b2 j) = take 4095 (concat bss)" "quiet b2 b1"
    using stream_bytes [OF h(2) tcp(5) segs] unfolding h(3) by auto
  have "backlog_count (sock_table b ls) < 7" using sock(2) length_backlog [of "sock_table b ls"] by simp
  note n = notify_accept_table(1-3) [OF sock(1,3) this] notify_accept_table(4-8) [OF sock(1,3) this, of "if_ip (net_iface a)" "ephemeral_port a" j, folded h(4)]
  have tb: "sock_table b2 = sock_table b1" using st(4) by (simp add: quiet_def)
  have d: "sk_used (sock_table b1 d)" "sk_remote (sock_table b1 d) = \<lparr>sin_family = AF_INET, sin_port = htons (ephemeral_port a), sin_addr = if_ip (net_iface a)\<rparr>"
    "sk_state (sock_table b1 d) = SOCK_STATE_CONNECTED" "sk_type (sock_table b1 d) = SOCK_STREAM" "sk_tcp_sock (sock_table b1 d) = int j"
    "rxbuf_available (sock_table b1 d) = 0"
    unfolding n(4) by (simp_all add: accept_sock_def zero_sock_def rxbuf_available_def)
  obtain b3 f where b3: "sock_accept yield (int ls) b2 = Some ((int d, Some (sk_remote (sock_table b2 d))), b3)" "sock_table b3 d = sock_table b2 d" "b3 = upd_sock ls f b2"
    using accept_takes [of ls b2 d "[]" yield] n d(1) sock(2) unfolding tb by auto
  have e: "sockets b3 = sockets b2" "sock_get (int d) b3 = Some d" using n(2) d(1) b3(2) tb by (simp_all add: b3(3) upd_sock_def sock_get_def)
  have "sock_recv yield (int d) True n flags b3 = (if n = 0 then Some ((0, []), b3) else Some (tcp_recv (int j) n b3))"
    using d(3-6) e(2) b3(2) unfolding tb by (simp add: sock_recv_def)
  moreover have "fst (tcp_recv (int j) n b3) = (int (min n (length (take 4095 (concat bss)))), take n (take 4095 (concat bss)))"
    unfolding st(3) [symmetric] e(1) [symmetric]
    by (rule recv_bytes) (use st(2) e(1) in \<open>auto simp: tcp_pair_def tcp_match_def for_find_Some_iff get_socket_def\<close>)
  ultimately have "map_option fst (sock_recv yield (int d) True n flags b3) = Some (int (min n (length (take 4095 (concat bss)))), take n (take 4095 (concat bss)))"
    by (cases "n = 0") (simp_all only: option.map if_True if_False, simp)
  moreover have "sock_accept yield (int ls) b2 =
      Some ((int d, Some \<lparr>sin_family = AF_INET, sin_port = htons (ephemeral_port a), sin_addr = if_ip (net_iface a)\<rparr>), b3)"
    using b3(1) d(2) tb by simp
  ultimately show ?thesis using h(1) st(1) unfolding Let_def by (intro exI conjI)
qed

text \<open>A host whose program has created, bound and set listening a socket on port 80.\<close>

definition server :: tcp_st where
  "server = (let h = host 0x1002000A [2, 0, 0, 0, 0, 2] 0x0F02000A [2, 0, 0, 0, 0, 1];
     (sd, h1) = sock_create 1 2 SOCK_STREAM 0 h; (_, h2) = sock_bind sd (Some \<lparr>sin_family = AF_INET, sin_port = htons 80, sin_addr = 0\<rparr>) h1
     in snd (sock_listen sd 5 h2))"

definition listening_sock :: sock where
  "listening_sock = zero_sock\<lparr>sk_used := True, sk_domain := 2, sk_type := SOCK_STREAM, sk_protocol := 0, sk_state := SOCK_STATE_LISTENING,
     sk_tcp_sock := 0, sk_owner := 1, sk_local := \<lparr>sin_family = AF_INET, sin_port = htons 80, sin_addr = 0\<rparr>, sk_backlog_size := 5\<rparr>"

lemma host_socks: "sock_table (host ip mac pip pmac) = (\<lambda>_. zero_sock)"
  by (simp add: host_def arp_cache_add_def net_init_def socket_init_def Let_def split: option.splits)

lemma server_eq:
  "server = (host 0x1002000A [2, 0, 0, 0, 0, 2] 0x0F02000A [2, 0, 0, 0, 0, 1])\<lparr>sock_table := (\<lambda>_. zero_sock)(0 := listening_sock),
     sockets := (\<lambda>_. zero_tcp)(0 := zero_tcp\<lparr>x_used := True, x_state := TCP_LISTEN, x_local_ip := 0x1002000A, x_local_port := 80\<rparr>)\<rparr>"
proof -
  show ?thesis
    by (simp add: server_def sock_create_def sock_alloc_def sock_bind_def sock_listen_def sock_get_def upd_sock_def host_socks listening_sock_def
      zero_sock_def for_find.simps tcp_listen_def free_socket_def for_find_None_iff host_fields zero_tcp_def upd_tcp_def)
qed

theorem server_session_witness:
  "\<exists>a1 b1 a2 b2 b3 peer. handshake calm 0x1002000A 80 host_a server = Done (Some 0, a1, b1) \<and> stream calm 0 [[1, 2], [3]] (a1, b1) = Done (a2, b2)
    \<and> sock_accept (\<lambda>_ s. s) 0 b2 = Some ((1, Some peer), b3) \<and> map_option fst (sock_recv (\<lambda>_ s. s) 1 True 10 0 b3) = Some (3, [1, 2, 3])"
proof -
  let ?h = "host 0x1002000A [2, 0, 0, 0, 0, 2] 0x0F02000A [2, 0, 0, 0, 0, 1]"
  have "online 0x0F02000A ?h" by (rule host_online) simp_all
  then have on: "online 0x0F02000A server" using online_cong [of server ?h] by (simp add: server_eq)
  have ip: "if_ip (net_iface server) = 0x1002000A" by (simp add: server_eq host_fields)
  have f: "free_socket host_a = Some 0" "free_socket server = Some 1" "sock_alloc server = Some 1"
    by (simp_all add: free_socket_def sock_alloc_def sockets_hosts server_eq zero_tcp_def zero_sock_def listening_sock_def for_find.simps)
  have m: "tcp_match 0x1002000A 80 (ephemeral_port host_a) host_a = None" "tcp_match 0x0F02000A (ephemeral_port host_a) 80 server = None"
    by (simp_all add: tcp_match_def sockets_hosts server_eq zero_tcp_def for_find_None_iff)
  have l: "x_used (sockets server 0)" "x_state (sockets server 0) = TCP_LISTEN" "x_local_port (sockets server 0) = 80"
    by (simp_all add: server_eq zero_tcp_def)
  have s: "listens 80 0 server" "backlog_list (sock_table server 0) = []"
    by (simp_all add: listens_def server_eq listening_sock_def zero_sock_def for_find.simps backlog_ok_def backlog_list_def backlog_count_def)
  have n: "nic calm l = 0" for l by (simp add: calm_def)
  have b: "\<forall>bs\<in>set [[1, 2], [3 :: u8]]. bs \<noteq> [] \<and> length bs \<le> 1994" by simp
  note server_session [of host_a 0 server 1 calm 80 0 0 1 "[[1, 2], [3]]" "\<lambda>_ s. s" 10 0]
  from this [unfolded ip host_ips, OF f(1,2) hosts_online(1) on n m _ l s f(3) b] show ?thesis by (simp del: stream.simps) blast
qed

end
