(* ===== verification/Spec2Isabelle.thy ===== *)
theory Spec2Isabelle
  imports Svcbus Buddy Ramfs_File Tty Socket
begin

text \<open>
  AetherOS, an x86_64 kernel in C: the root of its verification library. The library models the kernel below its user
  interface: memory, processes, signals, capabilities and messages, terminals, files and the network. It proves what each part
  promises its callers and, where parts meet, what they do together.

  \<^bold>\<open>How code is modelled.\<close> A machine integer is a word of its width, so overflow is in the model; a C \<open>int\<close> that cannot
  overflow is an integer. A static array is a function from indices, a loop that searches it is \<open>for_find\<close>.
  The static variables of a file are the fields of a record, and the record of a file extends that of the file it builds on, so
  that an operation of a lower file works on the state of the higher ones and changes only its own fields. A function that can crash
  returns \<open>outcome\<close>, where \<open>Panic\<close> stands for a call of \<open>kpanic\<close> and for an access outside the memory the code owns. A loop that
  may not end is a \<open>partial_function\<close> into options, where None means that it does not return. What lies outside the repository is a parameter:
  the boot loader's memory map, the network card, the effect of interrupts and of other tasks while a loop
  waits. Output to the log is left out everywhere.

  \<^bold>\<open>Theories.\<close>
  \<^item> \<open>Prelude\<close>, \<open>Fifo\<close>: integer types, the search loop, counting the cells of an array, rings of cells as lists; the locale
    \<open>bounded_fifo\<close>, the contract of a bounded queue that drops what does not fit. It is interpreted for the message ports (\<open>Ipc\<close>),
    the ready queue (\<open>Sched\<close>), the terminal rings (\<open>Tty\<close>), the receive ring of a connection (\<open>Tcp\<close>) and the queue of
    connections to accept (\<open>Socket\<close>).
  \<^item> \<open>Libc_String\<close> (\<open>libc/string.c\<close>): memory functions on a byte memory, string search and the tokeniser, shown equal to list functions.
  \<^item> \<open>Secmon\<close>, \<open>Cap\<close>, \<open>Ipc\<close>, \<open>Svcbus\<close> (\<open>kernel/secmon.c\<close>, \<open>cap.c\<close>, \<open>ipc.c\<close>, \<open>svcbus.c\<close>), each on the one before: the
    audit ring; the table of capabilities with derivation and recursive revocation; message ports guarded by capabilities; the registry of services.
    Shown: rights never grow along a derivation, revocation is exact, a port is a queue, receiving
    ends, the registry is a map.
  \<^item> \<open>Pmm\<close>, \<open>Buddy\<close>, \<open>Vmm\<close>, \<open>Heap\<close> (\<open>memory/pmm.c\<close>, \<open>mm/buddy.c\<close>, \<open>memory/vmm.c\<close>, \<open>memory/heap.c\<close>): frames, the buddy allocator, page tables
    with copy-on-write, and the kernel heap. Shown: what is allocated is free before and disjoint from the rest; mapping a page changes
    only its translation; a resolved write fault gives a private copy.
  \<^item> \<open>Sched\<close>, \<open>Process\<close>, \<open>Signal\<close> (\<open>scheduler/scheduler.c\<close>, \<open>process/process.c\<close> with \<open>drivers/timer.c\<close>, \<open>kernel/signal.c\<close>): the ready queue and round robin,
    process creation, fork and exit, and signals with their frames on the user stack.
  \<^item> \<open>Vfs\<close>, \<open>Ramfs\<close>, \<open>Ramfs_File\<close> (\<open>fs/vfs.c\<close>, \<open>fs/ramfs.c\<close>): path resolution over the operation tables of file systems, with the locale \<open>name_tree\<close>
    for the laws a file system promises, and the RAM file system on the kernel heap, which is shown to keep them.
  \<^item> \<open>Tty\<close> (\<open>kernel/tty.c\<close>): rings, line editing, signals from keys, reading, pseudo terminals.
  \<^item> \<open>Net\<close>, \<open>Ip\<close>, \<open>Udp\<close>, \<open>Sock\<close>, \<open>Tcp\<close>, \<open>Netstack\<close>, \<open>Socket\<close> (the files of \<open>net/\<close>): packet buffers and the checksum, ARP, IPv4, ICMP, UDP, TCP with its timer,
    the demultiplexing of frames, and the socket calls. The socket table comes before TCP because TCP reports new connections to it.
    Shown: any frame with consistent lengths is received without a crash and keeps the TCP table consistent; datagrams and byte streams arrive at
    the other host; a server accepts a connection and reads what was sent.
  \<^item> this theory: the interrupt key from the terminal through the signals to the end of the process.

  \<^bold>\<open>State.\<close> The records extend one another: \<open>kbase\<close> (the tick count) to \<open>secmon_st\<close>, \<open>cap_st\<close>, \<open>ipc_st\<close>, \<open>svc_st\<close>; \<open>kbase\<close> to
  \<open>pmm_st\<close>, \<open>vmm_st\<close>, \<open>proc_st\<close>, \<open>tty_st\<close>; \<open>vmm_st\<close> to \<open>heap_st\<close>, \<open>vfs_st\<close>, \<open>ramfs_st\<close>; and \<open>kbase\<close> to \<open>net_st\<close>, \<open>ip_st\<close>, \<open>udp_st\<close>,
  \<open>sock_st\<close>, \<open>tcp_st\<close>.

  \<^bold>\<open>Bounds and fuel.\<close> Walks of linked lists that the code bounds by the list itself take the number of cells of the table as fuel, which is
  enough because a walk that visits more cells has met one twice; lemmas show that the fuel is not exhausted under the invariant. Loops that wait
  for other tasks have no fuel. All other recursion is structural or has a termination proof.

  \<^bold>\<open>Not modelled.\<close> The user interface (\<open>aether\<close>, \<open>gui\<close>, \<open>display\<close>, \<open>surfaces\<close>, \<open>apps\<close>) computes pixels; drivers talk to hardware whose behaviour is
  not in the repository; \<open>interrupts\<close> and \<open>boot\<close> fill processor tables and are partly assembly. The on-disk file systems,
  formatted output, the program loader, packages and the system call table are not reached. The translation
  buffer of the processor and the saving of registers in a context switch are not modelled.
\<close>

unbundle bit_operations_syntax

section \<open>From the keyboard to the scheduler\<close>

lemma interrupt_sent:
  assumes t: "t_valid (ttys s i)" "has_flag TTY_ISIG (ttys s i)" "k = c_intr (t_cc (ttys s i))" "k \<noteq> CR"
    and p: "process_get_by_pid (t_fg_pgid (ttys s i)) s = Some p" "state (process_table s p) = PROC_STATE_RUNNING"
  shows "tty_input_char (Some i) k s = Some (upd_sig p (\<lambda>ss. ss\<lparr>pending := sigaddset 2 (pending ss)\<rparr>) s)"
  using assms by (auto simp: tty_input_char_def Let_def signal_send_def signal_send_proc_def sig_valid_def upd_sig_def upd_def)

text \<open>
  C38: the interrupt key ends the program in the foreground. Let a terminal generate signals, let its foreground process p be
  running with the default disposition for SIGINT, which it does not block, and let no SIGHUP be deliverable to it.
  Typing the interrupt character changes no terminal, and the next delivery of signals to p
  ends it: its slot is free and it is no longer the current process.
\<close>

theorem interrupt_key_ends_process:
  assumes t: "t_valid (ttys s i)" "has_flag TTY_ISIG (ttys s i)" "k = c_intr (t_cc (ttys s i))" "k \<noteq> CR"
    and p: "process_get_by_pid (t_fg_pgid (ttys s i)) s = Some p" "state (process_table s p) = PROC_STATE_RUNNING"
      "current_process s = Some p"
    and sig: "sa_handler (actions (sig_of s p) 1) = SIG_DFL" "\<not> sigismember (blocked (sig_of s p)) 2"
      "\<not> sigismember (pending (sig_of s p) AND NOT (blocked (sig_of s p))) 1"
  shows "\<exists>u v. tty_input_char (Some i) k s = Some u \<and> ttys u = ttys s
    \<and> signal_deliver_pending resume (Some p) regs m u = Some (regs, m, v)
    \<and> states v p = PROC_STATE_UNUSED \<and> current_process v = None"
proof -
  define u where "u = upd_sig p (\<lambda>ss. ss\<lparr>pending := sigaddset 2 (pending ss)\<rparr>) s"
  define w where "w = upd_sig p (\<lambda>ss. ss\<lparr>pending := sigdelset 2 (pending ss)\<rparr>) u"
  let ?d = "pending (sig_of u p) AND NOT (blocked (sig_of u p))"
  have d: "sigismember ?d 2" "\<not> sigismember ?d 1"
    using sig(2,3) by (auto simp: u_def sigs_upd_sig sigmem_bit bit_and_iff bit_not_iff sigaddset_def sigbit_def bit_or_iff bit_exp_iff)
  have "signal_deliver_pending resume (Some p) regs m u = deliver_loop (2 # [Suc 2..<NSIG]) resume ?d p regs m u"
  proof (rule deliver_first [OF _ _ d(1) refl])
    show "\<not> sigismember ?d l" if "1 \<le> l" "l < 2" for l
    proof -
      have "l = 1" using that by simp
      then show ?thesis using d(2) by simp
    qed
  qed simp_all
  moreover have "deliver_loop (2 # ys) resume ?d p regs m u = map_option (\<lambda>t. (regs, m, t)) (exit_and_yield p 2 w)" for ys
  proof -
    have "sa_handler (actions (sig_of w p) (2 - 1)) = SIG_DFL" using sig(1) by (simp add: w_def u_def sigs_upd_sig)
    then show ?thesis using d(1) by (simp add: w_def [symmetric] Let_def signal_default_action_def)
  qed
  ultimately have ex: "signal_deliver_pending resume (Some p) regs m u = map_option (\<lambda>t. (regs, m, t)) (exit_and_yield p 2 w)" by simp
  have "states w p = PROC_STATE_RUNNING" "current_process w = Some p"
    using p(2,3) by (simp_all add: w_def u_def states_def upd_sig_def upd_def)
  then obtain v where "process_exit (Some p) (- int 2) w = Some v" "states v = (states w)(p := PROC_STATE_UNUSED)" "current_process v = None"
    using process_exit_effect [of w p "- int 2"] by (auto simp: Process.queue_of_def)
  then have "signal_deliver_pending resume (Some p) regs m u = Some (regs, m, v)" "states v p = PROC_STATE_UNUSED" "current_process v = None"
    using ex by (simp_all add: exit_and_yield_def scheduler_yield_def)
  moreover have "ttys u = ttys s" by (simp add: u_def upd_sig_def upd_def)
  ultimately show ?thesis using interrupt_sent [OF t p(1,2)] unfolding u_def by blast
qed

text \<open>Process 0 runs as process 1 of the list, in the foreground of every terminal.\<close>

definition shell_demo :: tty_st where
  "shell_demo = tty_demo\<lparr>process_list := Some 0, process_table := (\<lambda>_. proc0)(0 := proc0\<lparr>pid := 1, state := PROC_STATE_RUNNING\<rparr>)\<rparr>"

theorem interrupt_key_ends_process_witness:
  "\<exists>u v. tty_input_char (Some 0) 3 shell_demo = Some u
    \<and> signal_deliver_pending (\<lambda>t. t) (Some 0) None (\<lambda>_. 0) u = Some (None, \<lambda>_. 0, v) \<and> states v 0 = PROC_STATE_UNUSED"
proof -
  have t: "ttys shell_demo = ttys tty_demo" "process_table shell_demo 0 = proc0\<lparr>pid := 1, state := PROC_STATE_RUNNING\<rparr>"
    "process_list shell_demo = Some 0" by (simp_all add: shell_demo_def)
  have "MAX_PROCESSES = Suc 255" by simp
  then have "process_get_by_pid 1 shell_demo = Some 0"
    by (simp only: process_get_by_pid_def proc_slots_def list_walk.simps t option.case) (simp add: t)
  moreover have "current_process shell_demo = Some 0"
    by (simp add: shell_demo_def tty_demo_def tty_init_def proc_st.defs sched_demo_def vmm_st.defs vmm_demo_def)
  moreover have "sig_of shell_demo 0 = sigstate proc0" by (simp add: sig_of_def t)
  moreover have "sa_handler (actions (sigstate proc0) 1) = SIG_DFL" "pending (sigstate proc0) = 0" "blocked (sigstate proc0) = 0"
    by (simp_all add: proc0_def)
  ultimately show ?thesis
    using interrupt_key_ends_process [of shell_demo 0 3 0 "\<lambda>t. t" None "\<lambda>_. 0"] tty_demo_sel(4-7) [of 0]
    by (auto simp: t has_flag_def sigismember_def)
qed

end
